(* ===== verification/Prelude.thy ===== *)
theory Prelude
  imports Main "HOL-Library.Word" "HOL-Library.Monad_Syntax"
begin

section \<open>Shared vocabulary of the micbench development\<close>

text \<open>
  What every component theory uses: the ways a C function of the program can stop, the
  sequencing of computations that may stop, the C integer conversions the source relies on
  (x86-64 Linux with gcc: \<open>int\<close> is 32 bits, \<open>long\<close>, \<open>size_t\<close> and \<open>int64_t\<close> are 64 bits, a
  narrowing conversion wraps), truncating division, and generic lemmas on lists that walk
  around a ring. Two collections of rewrite rules, \<open>c_arith\<close> and \<open>c_stop_simps\<close>, are filled
  here and by the components.
\<close>

named_theorems c_arith \<open>C integer arithmetic at its width\<close>
named_theorems c_stop_simps \<open>sequencing of computations that may stop\<close>

subsection \<open>Ways to stop\<close>

text \<open>
  A C function returns a value, ends the process with \<open>exit\<close>, or reaches undefined
  behaviour (an access outside an object, a null dereference, a division by zero, a signed
  overflow or an over-long shift). A computation that may stop is a sum, the stop on the left.
\<close>

datatype c_stop = Exit_Failure | Exit_Success | Undefined

type_synonym 'a c_result = "c_stop + 'a"

definition bind_c :: "'a c_result \<Rightarrow> ('a \<Rightarrow> 'b c_result) \<Rightarrow> 'b c_result" where
  "bind_c m f = (case m of Inl e \<Rightarrow> Inl e | Inr x \<Rightarrow> f x)"

lemma bind_c_simps [simp, c_stop_simps]:
  "bind_c (Inl e) f = Inl e"
  "bind_c (Inr x) f = f x"
  by (simp_all add: bind_c_def)

lemma bind_c_eq_Inr [c_stop_simps]:
  "bind_c m f = Inr y \<longleftrightarrow> (\<exists>x. m = Inr x \<and> f x = Inr y)"
  by (cases m) (auto simp: bind_c_def)

lemma bind_c_assoc: "bind_c (bind_c m f) g = bind_c m (\<lambda>x. bind_c (f x) g)"
  by (cases m) simp_all

text \<open>A computation that may also run forever: \<open>None\<close>.\<close>

definition bind_co :: "'a c_result option \<Rightarrow> ('a \<Rightarrow> 'b c_result option) \<Rightarrow> 'b c_result option" where
  "bind_co m f = (case m of None \<Rightarrow> None | Some (Inl e) \<Rightarrow> Some (Inl e) | Some (Inr x) \<Rightarrow> f x)"

lemma bind_co_simps [simp, c_stop_simps]:
  "bind_co None f = None"
  "bind_co (Some (Inl e)) f = Some (Inl e)"
  "bind_co (Some (Inr x)) f = f x"
  by (simp_all add: bind_co_def)

lemma bind_co_eq_Inr [c_stop_simps]:
  "bind_co m f = Some (Inr y) \<longleftrightarrow> (\<exists>x. m = Some (Inr x) \<and> f x = Some (Inr y))"
  by (auto simp: bind_co_def split: option.splits sum.splits)

subsection \<open>C integers\<close>

text \<open>
  Signed values are kept as \<open>int\<close> and brought back into their width where the source
  converts: \<open>to_int\<close> is the conversion to a 32-bit \<open>int\<close>, \<open>to_long\<close> to a 64-bit \<open>long\<close>.
\<close>

definition to_int :: "int \<Rightarrow> int" where
  "to_int x = (x + 2 ^ 31) mod 2 ^ 32 - 2 ^ 31"

definition to_long :: "int \<Rightarrow> int" where
  "to_long x = (x + 2 ^ 63) mod 2 ^ 64 - 2 ^ 63"

definition in_int :: "int \<Rightarrow> bool" where
  "in_int x \<longleftrightarrow> - (2 ^ 31) \<le> x \<and> x < 2 ^ 31"

definition in_long :: "int \<Rightarrow> bool" where
  "in_long x \<longleftrightarrow> - (2 ^ 63) \<le> x \<and> x < 2 ^ 63"

lemma to_int_id [c_arith]: "in_int x \<Longrightarrow> to_int x = x"
  by (simp add: to_int_def in_int_def)

lemma to_long_id [c_arith]: "in_long x \<Longrightarrow> to_long x = x"
  by (simp add: to_long_def in_long_def)

lemma in_int_to_int [c_arith, simp]: "in_int (to_int x)"
proof -
  have "0 \<le> (x + 2 ^ 31) mod 2 ^ 32" and "(x + 2 ^ 31) mod 2 ^ 32 < 2 ^ 32"
    by simp_all
  then show ?thesis unfolding to_int_def in_int_def by simp
qed

lemma in_long_to_long [c_arith, simp]: "in_long (to_long x)"
proof -
  have "0 \<le> (x + 2 ^ 63) mod 2 ^ 64" and "(x + 2 ^ 63) mod 2 ^ 64 < 2 ^ 64"
    by simp_all
  then show ?thesis unfolding to_long_def in_long_def by simp
qed

lemma to_int_cong: "to_int x mod 2 ^ 32 = x mod 2 ^ 32"
proof -
  have "((x + 2 ^ 31) mod 2 ^ 32 - 2 ^ 31) mod 2 ^ 32 = x mod (2 ^ 32 :: int)"
    by (simp add: mod_diff_left_eq)
  then show ?thesis by (simp add: to_int_def)
qed

text \<open>C division truncates towards zero; the divisor is tested where the source divides.\<close>

definition cdiv :: "int \<Rightarrow> int \<Rightarrow> int" where
  "cdiv a b = sgn a * sgn b * (\<bar>a\<bar> div \<bar>b\<bar>)"

definition crem :: "int \<Rightarrow> int \<Rightarrow> int" where
  "crem a b = a - cdiv a b * b"

lemma cdiv_nonneg [c_arith]: "0 \<le> a \<Longrightarrow> 0 < b \<Longrightarrow> cdiv a b = a div b"
  by (cases "a = 0") (simp_all add: cdiv_def sgn_if)

lemma crem_nonneg [c_arith]: "0 \<le> a \<Longrightarrow> 0 < b \<Longrightarrow> crem a b = a mod b"
  by (simp add: crem_def cdiv_nonneg minus_div_mult_eq_mod)

subsection \<open>Addresses\<close>

text \<open>
  Heap objects are named by addresses; \<open>NULL\<close> is 0. The results of the calls of \<open>malloc\<close> a
  function makes are an argument of its model (the address the i-th call returns, \<open>NULL\<close> on
  failure), so that nothing is assumed of the allocator but what a hypothesis says.
\<close>

type_synonym addr = nat

abbreviation NULL :: addr where
  "NULL \<equiv> 0"

subsection \<open>Walking around a ring of list elements\<close>

lemma rotate1_nth: "i < length xs \<Longrightarrow> rotate1 xs ! i = xs ! (Suc i mod length xs)"
  by (cases xs) (auto simp: nth_append mod_Suc less_Suc_eq)

lemma hd_rotate1: "xs \<noteq> [] \<Longrightarrow> hd (rotate1 xs) = xs ! (1 mod length xs)"
  by (cases xs) (auto simp: hd_conv_nth nth_append split: list.splits)

lemma nth_Cons_diff: "i < j \<Longrightarrow> (x # xs) ! (j - i) = xs ! (j - Suc i)"
  by (metis Suc_diff_Suc nth_Cons_Suc)

lemma distinct_nth_mod_inj:
  "distinct xs \<Longrightarrow> xs \<noteq> [] \<Longrightarrow> xs ! (i mod length xs) = xs ! (j mod length xs) \<longleftrightarrow>
     i mod length xs = j mod length xs"
  by (simp add: nth_eq_iff_index_eq)

lemma Suc_mod_cancel:
  fixes m n k :: nat
  assumes "Suc m mod k = Suc n mod k" and "0 < k"
  shows "m mod k = n mod k"
proof -
  have "(Suc m + (k - 1)) mod k = (Suc n + (k - 1)) mod k"
    using assms(1) by (metis mod_add_left_eq)
  moreover have "Suc m + (k - 1) = m + k" and "Suc n + (k - 1) = n + k"
    using assms(2) by simp_all
  ultimately show ?thesis by simp
qed

end
