(* ===== verification/CString.thy ===== *)
theory CString
  imports Prelude
begin

section \<open>C strings, numbers in decimal and command lines\<close>

text \<open>
  What the programs use of the C library on strings: \<open>strtol\<close> in base 10 with its saturation
  and end pointer, the \<open>%d\<close> and \<open>%ld\<close> conversions of \<open>printf\<close>, and \<open>getopt\<close> with a leading
  \<open>+\<close> in its option string (the scan stops at the first operand). A C string is a \<open>string\<close>
  without its terminating zero; a pointer into it is the suffix it points to.
\<close>

subsection \<open>Characters\<close>

definition c_isspace :: "char \<Rightarrow> bool" where
  "c_isspace c \<longleftrightarrow> (of_char c :: nat) \<in> {9, 10, 11, 12, 13, 32}"

definition c_isdigit :: "char \<Rightarrow> bool" where
  "c_isdigit c \<longleftrightarrow> 48 \<le> (of_char c :: nat) \<and> (of_char c :: nat) \<le> 57"

definition digit_val :: "char \<Rightarrow> int" where
  "digit_val c = int (of_char c) - 48"

definition digit_char :: "nat \<Rightarrow> char" where
  "digit_char d = char_of (48 + d)"

subsection \<open>strtol\<close>

definition dec_val :: "string \<Rightarrow> int" where
  "dec_val ds = foldl (\<lambda>n c. 10 * n + digit_val c) 0 ds"

definition clamp_long :: "int \<Rightarrow> int" where
  "clamp_long v = max (- (2 ^ 63)) (min (2 ^ 63 - 1) v)"

definition strtol_sign :: "string \<Rightarrow> bool \<times> string" where
  "strtol_sign s =
     (case s of
        [] \<Rightarrow> (False, s)
      | c # t \<Rightarrow> if c = CHR ''-'' then (True, t) else if c = CHR ''+'' then (False, t)
                 else (False, s))"

text \<open>The value and the suffix \<open>endptr\<close> points to; the whole string if there is no number.\<close>

definition strtol :: "string \<Rightarrow> int \<times> string" where
  "strtol s =
     (let (neg, t) = strtol_sign (dropWhile c_isspace s); ds = takeWhile c_isdigit t
      in if ds = [] then (0, s)
         else (clamp_long (if neg then - dec_val ds else dec_val ds), dropWhile c_isdigit t))"

subsection \<open>Decimal output\<close>

fun show_nat :: "nat \<Rightarrow> string" where
  "show_nat n =
     (if n < 10 then [digit_char n] else show_nat (n div 10) @ [digit_char (n mod 10)])"

declare show_nat.simps [simp del]

definition show_int :: "int \<Rightarrow> string" where
  "show_int i = (if i < 0 then CHR ''-'' # show_nat (nat (- i)) else show_nat (nat i))"

subsection \<open>getopt\<close>

text \<open>
  One event per return of \<open>getopt\<close>: an option with its argument, if it takes one, or the
  \<open>?\<close> that stands for an unknown option or a missing argument. Each event carries the
  arguments from the new \<open>optind\<close> on, which the option handlers may inspect. The scan ends
  with the arguments from the final \<open>optind\<close>.
\<close>

datatype opt_event = Opt char | OptArg char string | OptBad

type_synonym optspec = "(char \<times> bool) list"

fun opt_weight :: "string \<Rightarrow> string list \<Rightarrow> nat" where
  "opt_weight nextchar args =
     (if nextchar = [] then sum_list (map (\<lambda>a. length a + 1) args)
      else length nextchar + sum_list (map (\<lambda>a. length a + 1) (tl args)))"

function getopts ::
  "optspec \<Rightarrow> string \<Rightarrow> string list \<Rightarrow> (opt_event \<times> string list) list \<times> string list" where
  "getopts spec [] [] = ([], [])"
| "getopts spec [] (a # as) =
     (if a = ''--'' then ([], as)
      else if length a < 2 \<or> hd a \<noteq> CHR ''-'' then ([], a # as)
      else getopts spec (tl a) (a # as))"
| "getopts spec (c # nextchar) args =
     (let args1 = (if nextchar = [] then tl args else args)
      in case map_of spec c of
           None \<Rightarrow>
             (let (evs, rest) = getopts spec nextchar args1 in ((OptBad, args1) # evs, rest))
         | Some False \<Rightarrow>
             (let (evs, rest) = getopts spec nextchar args1 in ((Opt c, args1) # evs, rest))
         | Some True \<Rightarrow>
             if nextchar \<noteq> [] then
               (let (evs, rest) = getopts spec [] (tl args)
                in ((OptArg c nextchar, tl args) # evs, rest))
             else
               (case args1 of
                  [] \<Rightarrow> (let (evs, rest) = getopts spec [] [] in ((OptBad, []) # evs, rest))
                | a # as \<Rightarrow>
                    (let (evs, rest) = getopts spec [] as in ((OptArg c a, as) # evs, rest))))"
  by pat_completeness auto
termination
proof (relation "measure (\<lambda>(spec, nextchar, args). opt_weight nextchar args)", goal_cases)
  case 1
  show ?case by simp
next
  case (2 spec a as)
  then show ?case by (cases a) auto
next
  case (6 spec c nextchar args args1 x2 a as)
  then show ?case by (cases args) auto
qed auto

text \<open>\<open>argv\<close> without its first element, from \<open>optind = 1\<close>.\<close>

definition getopt_scan :: "optspec \<Rightarrow> string list \<Rightarrow> (opt_event \<times> string list) list \<times> string list" where
  "getopt_scan spec argv = getopts spec [] (tl argv)"

subsection \<open>Printing and reading back\<close>

lemma in_long_strtol [simp]: "in_long (fst (strtol arg))"
  by (auto simp: strtol_def Let_def in_long_def clamp_long_def split: prod.splits)

lemma digit_char_facts [simp]:
  assumes "d < 10"
  shows "c_isdigit (digit_char d)" and "digit_val (digit_char d) = int d"
    and "\<not> c_isspace (digit_char d)" and "digit_char d \<noteq> CHR ''-''" and "digit_char d \<noteq> CHR ''+''"
proof -
  have code: "(of_char (digit_char d) :: nat) = 48 + d"
    using assms by (simp add: digit_char_def)
  then show "c_isdigit (digit_char d)" "digit_val (digit_char d) = int d"
    "\<not> c_isspace (digit_char d)"
    using assms by (auto simp: c_isdigit_def digit_val_def c_isspace_def)
  have "(of_char (CHR ''-'') :: nat) = 45" "(of_char (CHR ''+'') :: nat) = 43" by simp_all
  then show "digit_char d \<noteq> CHR ''-''" "digit_char d \<noteq> CHR ''+''"
    using code assms by auto
qed

lemma show_nat_digits: "c \<in> set (show_nat n) \<Longrightarrow> \<exists>d < 10. c = digit_char d"
proof (induction n rule: show_nat.induct)
  case (1 n)
  from "1.prems" consider "n < 10" "c = digit_char n"
    | "\<not> n < 10" "c \<in> set (show_nat (n div 10))" | "c = digit_char (n mod 10)"
    by (subst (asm) show_nat.simps) (auto split: if_splits)
  then show ?case
  proof cases
    case 3
    then show ?thesis by (intro exI [of _ "n mod 10"]) simp
  qed (use "1.IH" in auto)
qed

lemma show_nat_nonempty [simp]: "show_nat n \<noteq> []"
  by (subst show_nat.simps) simp

lemma dec_val_snoc: "dec_val (ds @ [c]) = 10 * dec_val ds + digit_val c"
  by (simp add: dec_val_def)

lemma dec_val_show_nat: "dec_val (show_nat n) = int n"
proof (induction n rule: show_nat.induct)
  case (1 n)
  show ?case
  proof (cases "n < 10")
    case True
    then show ?thesis by (subst show_nat.simps) (simp add: dec_val_def)
  next
    case False
    then have "dec_val (show_nat n) = 10 * int (n div 10) + int (n mod 10)"
      using "1" by (subst show_nat.simps) (simp add: dec_val_snoc)
    also have "\<dots> = int n" by presburger
    finally show ?thesis .
  qed
qed

lemma show_nat_isdigit: "c \<in> set (show_nat n) \<Longrightarrow> c_isdigit c"
  using show_nat_digits digit_char_facts(1) by metis

lemma takeWhile_digits:
  assumes "rest = [] \<or> \<not> c_isdigit (hd rest)"
  shows "takeWhile c_isdigit (show_nat n @ rest) = show_nat n"
    and "dropWhile c_isdigit (show_nat n @ rest) = rest"
  using assms show_nat_isdigit
  by (auto simp: takeWhile_append2 dropWhile_append2 takeWhile_eq_Nil_iff hd_Cons_tl
      split: list.splits) (cases rest; auto)+

lemma hd_show_nat: "\<exists>d < 10. hd (show_nat n) = digit_char d"
  using show_nat_digits [of "hd (show_nat n)" n] by simp

lemma strtol_show_int:
  assumes "in_long i" and "rest = [] \<or> \<not> c_isdigit (hd rest)"
  shows "strtol (show_int i @ rest) = (i, rest)"
proof -
  obtain c cs where cs: "show_nat (nat i) = c # cs"
    by (meson neq_Nil_conv show_nat_nonempty)
  moreover obtain d where "d < 10" "c = digit_char d"
    using hd_show_nat [of "nat i"] cs by auto
  ultimately have first: "\<not> c_isspace c" "c \<noteq> CHR ''-''" "c \<noteq> CHR ''+''" by simp_all
  have minus: "\<not> c_isspace (CHR ''-'')" by (simp add: c_isspace_def)
  have sign: "strtol_sign (dropWhile c_isspace (show_int i @ rest)) =
      (i < 0, show_nat (nat \<bar>i\<bar>) @ rest)"
    using cs first minus by (auto simp: show_int_def strtol_sign_def)
  have "clamp_long i = i"
    using assms(1) by (simp add: clamp_long_def in_long_def)
  then show ?thesis
    unfolding strtol_def sign using takeWhile_digits [OF assms(2)]
    by (simp add: dec_val_show_nat Let_def)
qed

subsection \<open>Scanning well-formed command lines\<close>

lemma getopts_flag:
  assumes "map_of spec c = Some False" and "c \<noteq> CHR ''-''"
  shows "getopts spec [] ([CHR ''-'', c] # args) =
    (let (evs, rest) = getopts spec [] args in ((Opt c, args) # evs, rest))"
  using assms by simp

lemma getopts_arg:
  assumes "map_of spec c = Some True" and "c \<noteq> CHR ''-''"
  shows "getopts spec [] ([CHR ''-'', c] # arg # args) =
    (let (evs, rest) = getopts spec [] args in ((OptArg c arg, args) # evs, rest))"
  using assms by simp

lemma getopts_end: "getopts spec [] (''--'' # args) = ([], args)"
  by simp

end
