(* ===== verification/BlkTrace.thy ===== *)
theory BlkTrace
  imports Prelude CString
begin

section \<open>Block traces\<close>

text \<open>
  src/src/blktrace_api.h and the reader of src/src/micbench-btreplay.c: the record that the kernel
  writes for each event of a block device, its layout in a dump (little endian, 48 bytes,
  followed by \<open>pdu_len\<close> bytes of payload), and \<open>mb_fetch_blk_io_trace\<close> with the loop that calls
  it. A file is the list of the bytes that are still to be read.
\<close>

unbundle bit_operations_syntax

subsection \<open>Categories, actions and the trace record\<close>

datatype blk_tc = BLK_TC_READ | BLK_TC_WRITE | BLK_TC_BARRIER | BLK_TC_SYNC | BLK_TC_QUEUE
  | BLK_TC_REQUEUE | BLK_TC_ISSUE | BLK_TC_COMPLETE | BLK_TC_FS | BLK_TC_PC | BLK_TC_NOTIFY
  | BLK_TC_AHEAD | BLK_TC_META | BLK_TC_DISCARD | BLK_TC_DRV_DATA

primrec tc_shift :: "blk_tc \<Rightarrow> nat" where
  "tc_shift BLK_TC_READ = 0"
| "tc_shift BLK_TC_WRITE = 1"
| "tc_shift BLK_TC_BARRIER = 2"
| "tc_shift BLK_TC_SYNC = 3"
| "tc_shift BLK_TC_QUEUE = 4"
| "tc_shift BLK_TC_REQUEUE = 5"
| "tc_shift BLK_TC_ISSUE = 6"
| "tc_shift BLK_TC_COMPLETE = 7"
| "tc_shift BLK_TC_FS = 8"
| "tc_shift BLK_TC_PC = 9"
| "tc_shift BLK_TC_NOTIFY = 10"
| "tc_shift BLK_TC_AHEAD = 11"
| "tc_shift BLK_TC_META = 12"
| "tc_shift BLK_TC_DISCARD = 13"
| "tc_shift BLK_TC_DRV_DATA = 14"

definition BLK_TC_ACT :: "blk_tc \<Rightarrow> 32 word" where
  "BLK_TC_ACT c = push_bit 16 (push_bit (tc_shift c) 1)"

datatype blk_ta = TA_QUEUE | TA_BACKMERGE | TA_FRONTMERGE | TA_GETRQ | TA_SLEEPRQ | TA_REQUEUE
  | TA_ISSUE | TA_COMPLETE | TA_PLUG | TA_UNPLUG_IO | TA_UNPLUG_TIMER | TA_INSERT | TA_SPLIT
  | TA_BOUNCE | TA_REMAP | TA_ABORT | TA_DRV_DATA

text \<open>The enumeration starts at 1.\<close>

primrec blk_ta_val :: "blk_ta \<Rightarrow> 32 word" where
  "blk_ta_val TA_QUEUE = 1"
| "blk_ta_val TA_BACKMERGE = 2"
| "blk_ta_val TA_FRONTMERGE = 3"
| "blk_ta_val TA_GETRQ = 4"
| "blk_ta_val TA_SLEEPRQ = 5"
| "blk_ta_val TA_REQUEUE = 6"
| "blk_ta_val TA_ISSUE = 7"
| "blk_ta_val TA_COMPLETE = 8"
| "blk_ta_val TA_PLUG = 9"
| "blk_ta_val TA_UNPLUG_IO = 10"
| "blk_ta_val TA_UNPLUG_TIMER = 11"
| "blk_ta_val TA_INSERT = 12"
| "blk_ta_val TA_SPLIT = 13"
| "blk_ta_val TA_BOUNCE = 14"
| "blk_ta_val TA_REMAP = 15"
| "blk_ta_val TA_ABORT = 16"
| "blk_ta_val TA_DRV_DATA = 17"

text \<open>The category each action carries in its upper half, if any.\<close>

primrec blk_ta_tc :: "blk_ta \<Rightarrow> blk_tc option" where
  "blk_ta_tc TA_QUEUE = Some BLK_TC_QUEUE"
| "blk_ta_tc TA_BACKMERGE = Some BLK_TC_QUEUE"
| "blk_ta_tc TA_FRONTMERGE = Some BLK_TC_QUEUE"
| "blk_ta_tc TA_GETRQ = Some BLK_TC_QUEUE"
| "blk_ta_tc TA_SLEEPRQ = Some BLK_TC_QUEUE"
| "blk_ta_tc TA_REQUEUE = Some BLK_TC_REQUEUE"
| "blk_ta_tc TA_ISSUE = Some BLK_TC_ISSUE"
| "blk_ta_tc TA_COMPLETE = Some BLK_TC_COMPLETE"
| "blk_ta_tc TA_PLUG = Some BLK_TC_QUEUE"
| "blk_ta_tc TA_UNPLUG_IO = Some BLK_TC_QUEUE"
| "blk_ta_tc TA_UNPLUG_TIMER = Some BLK_TC_QUEUE"
| "blk_ta_tc TA_INSERT = Some BLK_TC_QUEUE"
| "blk_ta_tc TA_SPLIT = None"
| "blk_ta_tc TA_BOUNCE = None"
| "blk_ta_tc TA_REMAP = Some BLK_TC_QUEUE"
| "blk_ta_tc TA_ABORT = Some BLK_TC_QUEUE"
| "blk_ta_tc TA_DRV_DATA = Some BLK_TC_DRV_DATA"

definition BLK_TA :: "blk_ta \<Rightarrow> 32 word" where
  "BLK_TA a = (case blk_ta_tc a of None \<Rightarrow> blk_ta_val a | Some c \<Rightarrow> blk_ta_val a OR BLK_TC_ACT c)"

definition BLK_IO_TRACE_MAGIC :: "32 word" where
  "BLK_IO_TRACE_MAGIC = 0x65617400"

definition BLK_IO_TRACE_VERSION :: "32 word" where
  "BLK_IO_TRACE_VERSION = 0x07"

record blk_io_trace =
  bt_magic :: "32 word"
  bt_sequence :: "32 word"
  bt_time :: "64 word"
  bt_sector :: "64 word"
  bt_bytes :: "32 word"
  bt_action :: "32 word"
  bt_pid :: "32 word"
  bt_device :: "32 word"
  bt_cpu :: "32 word"
  bt_error :: "16 word"
  bt_pdu_len :: "16 word"

subsection \<open>The record in memory\<close>

text \<open>Little-endian numbers: the value of a list of bytes, and the \<open>n\<close> bytes of a value.\<close>

primrec le_nat :: "8 word list \<Rightarrow> nat" where
  "le_nat [] = 0"
| "le_nat (b # bs) = unat b + 256 * le_nat bs"

primrec le_bytes :: "nat \<Rightarrow> nat \<Rightarrow> 8 word list" where
  "le_bytes 0 x = []"
| "le_bytes (Suc n) x = word_of_nat (x mod 256) # le_bytes n (x div 256)"

definition le_word :: "nat \<Rightarrow> nat \<Rightarrow> 8 word list \<Rightarrow> 'a::len word" where
  "le_word ofs n bs = word_of_nat (le_nat (take n (drop ofs bs)))"

text \<open>The struct has no padding: its 48 bytes are its members in their order.\<close>

definition sizeof_trace :: nat where
  "sizeof_trace = 48"

definition trace_of_bytes :: "8 word list \<Rightarrow> blk_io_trace" where
  "trace_of_bytes bs =
     \<lparr>bt_magic = le_word 0 4 bs, bt_sequence = le_word 4 4 bs, bt_time = le_word 8 8 bs,
      bt_sector = le_word 16 8 bs, bt_bytes = le_word 24 4 bs, bt_action = le_word 28 4 bs,
      bt_pid = le_word 32 4 bs, bt_device = le_word 36 4 bs, bt_cpu = le_word 40 4 bs,
      bt_error = le_word 44 2 bs, bt_pdu_len = le_word 46 2 bs\<rparr>"

definition bytes_of_trace :: "blk_io_trace \<Rightarrow> 8 word list" where
  "bytes_of_trace t =
     le_bytes 4 (unat (bt_magic t)) @ le_bytes 4 (unat (bt_sequence t)) @
     le_bytes 8 (unat (bt_time t)) @ le_bytes 8 (unat (bt_sector t)) @
     le_bytes 4 (unat (bt_bytes t)) @ le_bytes 4 (unat (bt_action t)) @
     le_bytes 4 (unat (bt_pid t)) @ le_bytes 4 (unat (bt_device t)) @
     le_bytes 4 (unat (bt_cpu t)) @ le_bytes 2 (unat (bt_error t)) @
     le_bytes 2 (unat (bt_pdu_len t))"

subsection \<open>Reading a dump\<close>

text \<open>The \<open>%x\<close> conversion.\<close>

definition hex_char :: "nat \<Rightarrow> char" where
  "hex_char d = char_of (if d < 10 then 48 + d else 87 + d)"

fun show_hex :: "nat \<Rightarrow> string" where
  "show_hex n = (if n < 16 then [hex_char n] else show_hex (n div 16) @ [hex_char (n mod 16)])"

declare show_hex.simps [simp del]

text \<open>
  \<open>mb_fetch_blk_io_trace\<close>: the trace if it returns 0 (\<open>None\<close> if it returns 1), what it prints,
  and the rest of the file. \<open>fread\<close> stores what the file still has, at most what it was asked for.
  The payload goes to an array of 1024 bytes on the stack, whatever its length.
\<close>

definition mb_fetch_blk_io_trace ::
  "8 word list \<Rightarrow> (blk_io_trace option \<times> string \<times> 8 word list) c_result" where
  "mb_fetch_blk_io_trace file =
     (if length file < sizeof_trace then Inr (None, [], [])
      else let trace = trace_of_bytes (take sizeof_trace file); rest = drop sizeof_trace file
           in if bt_magic trace AND 0xffffff00 \<noteq> BLK_IO_TRACE_MAGIC
              then Inr (None, ''bad magic: '' @ show_hex (unat (bt_magic trace)) @ [CHR 0x0A], rest)
              else if 0 < bt_pdu_len trace
              then let pdu = take (unat (bt_pdu_len trace)) rest
                   in if length pdu \<le> 1024
                      then Inr (Some trace, [], drop (unat (bt_pdu_len trace)) rest)
                      else Inl Undefined
              else Inr (Some trace, [], rest))"

lemma fetch_consumes:
  "mb_fetch_blk_io_trace file = Inr (Some t, out, rest) \<Longrightarrow> length rest < length file"
  by (auto simp: mb_fetch_blk_io_trace_def sizeof_trace_def Let_def split: if_splits)

text \<open>The loop of the main program that reads traces until none is left.\<close>

function fetch_all :: "8 word list \<Rightarrow> (blk_io_trace list \<times> string) c_result" where
  "fetch_all file =
     (case mb_fetch_blk_io_trace file of
        Inl e \<Rightarrow> Inl e
      | Inr (None, out, rest) \<Rightarrow> Inr ([], out)
      | Inr (Some t, out, rest) \<Rightarrow>
          bind_c (fetch_all rest) (\<lambda>(ts, out'). Inr (t # ts, out @ out')))"
  by auto

termination fetch_all
  by (relation "measure length") (auto simp: fetch_consumes)

declare fetch_all.simps [simp del]

subsection \<open>Encoding and decoding\<close>

lemma length_le_bytes [simp]: "length (le_bytes n x) = n"
  by (induction n arbitrary: x) simp_all

lemma le_nat_le_bytes: "le_nat (le_bytes n x) = x mod 256 ^ n"
proof (induction n arbitrary: x)
  case (Suc n)
  have "unat (word_of_nat (x mod 256) :: 8 word) = x mod 256"
    by (simp add: unsigned_of_nat take_bit_nat_eq_self)
  then show ?case using Suc by (simp add: mod_mult2_eq)
qed simp

lemma le_bytes_le_nat: "le_bytes (length bs) (le_nat bs) = bs"
proof (induction bs)
  case (Cons b bs)
  have "unat b < 256" using unsigned_less [of b, where ?'a = nat] by simp
  then show ?case using Cons by simp
qed simp

lemma le_nat_bound: "le_nat bs < 256 ^ length bs"
proof (induction bs)
  case (Cons b bs)
  have "unat b < 256" using unsigned_less [of b, where ?'a = nat] by simp
  with Cons have "unat b + 256 * le_nat bs < 256 * Suc (le_nat bs)" by simp
  also have "\<dots> \<le> 256 * 256 ^ length bs" using Cons by (intro mult_left_mono) simp_all
  finally show ?case by simp
qed simp

lemma le_word_at:
  fixes x :: "'a::len word"
  assumes "drop ofs bs = le_bytes n (unat x) @ rest" and "LENGTH('a) = 8 * n"
  shows "le_word ofs n bs = x"
proof -
  have "unat x < 256 ^ n"
    using unsigned_less [of x, where ?'a = nat] assms(2) by (simp add: power_mult)
  then show ?thesis using assms(1) by (simp add: le_word_def le_nat_le_bytes)
qed

lemma length_bytes_of_trace [simp]: "length (bytes_of_trace t) = sizeof_trace"
  by (simp add: bytes_of_trace_def sizeof_trace_def)

lemma trace_of_bytes_of_trace: "trace_of_bytes (bytes_of_trace t) = t"
  unfolding trace_of_bytes_def
  by (intro blk_io_trace.equality; simp;
      rule le_word_at; simp add: bytes_of_trace_def)

lemma le_bytes_le_word:
  assumes "ofs + n \<le> length bs" and "LENGTH('a::len) = 8 * n"
  shows "le_bytes n (unat (le_word ofs n bs :: 'a word)) = take n (drop ofs bs)"
proof -
  have len: "length (take n (drop ofs bs)) = n" using assms(1) by simp
  have "le_nat (take n (drop ofs bs)) < 2 ^ LENGTH('a)"
    using le_nat_bound [of "take n (drop ofs bs)"] assms(2) len by (simp add: power_mult)
  then have "unat (le_word ofs n bs :: 'a word) = le_nat (take n (drop ofs bs))"
    by (simp add: le_word_def unsigned_of_nat take_bit_nat_eq_self)
  then show ?thesis using le_bytes_le_nat [of "take n (drop ofs bs)"] len by simp
qed

lemma take_drop_join: "k + m = j \<Longrightarrow> take m (drop k bs) @ drop j bs = drop k bs"
  by (metis add.commute append_take_drop_id drop_drop)

lemma bytes_of_trace_of_bytes:
  assumes "length bs = sizeof_trace"
  shows "bytes_of_trace (trace_of_bytes bs) = bs"
  using assms
  by (simp add: bytes_of_trace_def trace_of_bytes_def sizeof_trace_def le_bytes_le_word take_drop_join)

text \<open>A record of a dump: a trace and its payload.\<close>

definition dump_record :: "blk_io_trace \<times> 8 word list \<Rightarrow> 8 word list" where
  "dump_record = (\<lambda>(t, pdu). bytes_of_trace t @ pdu)"

definition dump_ok :: "blk_io_trace \<times> 8 word list \<Rightarrow> bool" where
  "dump_ok = (\<lambda>(t, pdu). bt_magic t AND 0xffffff00 = BLK_IO_TRACE_MAGIC \<and>
     length pdu = unat (bt_pdu_len t) \<and> length pdu \<le> 1024)"

lemma fetch_record:
  assumes "dump_ok (t, pdu)"
  shows "mb_fetch_blk_io_trace (dump_record (t, pdu) @ rest) = Inr (Some t, [], rest)"
proof -
  have "length pdu = 0" if "\<not> 0 < bt_pdu_len t"
    using assms that by (simp add: dump_ok_def word_gt_0)
  then show ?thesis
    using assms
    by (auto simp: mb_fetch_blk_io_trace_def dump_record_def dump_ok_def Let_def trace_of_bytes_of_trace)
qed

text \<open>Whatever the file holds, the traces that are delivered stand in it, in their order.\<close>

lemma fetch_sound:
  assumes "mb_fetch_blk_io_trace file = Inr (Some t, out, rest)"
  shows "\<exists>pdu. file = dump_record (t, pdu) @ rest"
proof -
  have len: "length (take sizeof_trace file) = sizeof_trace"
    and t: "t = trace_of_bytes (take sizeof_trace file)"
    and rest: "rest = drop (unat (bt_pdu_len t)) (drop sizeof_trace file)"
    using assms
    by (auto simp: mb_fetch_blk_io_trace_def Let_def word_gt_0 split: if_splits)
  have "file = bytes_of_trace t @ take (unat (bt_pdu_len t)) (drop sizeof_trace file) @ rest"
    using bytes_of_trace_of_bytes [OF len] t rest by (simp add: take_drop_join)
  then show ?thesis unfolding dump_record_def by (metis append.assoc case_prod_conv)
qed

lemma fetch_all_sound:
  "fetch_all dump = Inr (ts, out) \<Longrightarrow>
    \<exists>rs rest. dump = concat (map dump_record rs) @ rest \<and> map fst rs = ts"
proof (induction "length dump" arbitrary: dump ts out rule: less_induct)
  case less
  show ?case
  proof (cases "\<exists>t o1 rest. mb_fetch_blk_io_trace dump = Inr (Some t, o1, rest)")
    case True
    then obtain t o1 rest where fetch: "mb_fetch_blk_io_trace dump = Inr (Some t, o1, rest)" by blast
    then obtain ts' o2 where more: "fetch_all rest = Inr (ts', o2)" "ts = t # ts'"
      using less.prems by (subst (asm) fetch_all.simps) (auto simp: bind_c_eq_Inr)
    obtain rs rest' where rs: "rest = concat (map dump_record rs) @ rest'" "map fst rs = ts'"
      using less.hyps [OF fetch_consumes [OF fetch] more(1)] by blast
    obtain pdu where "dump = dump_record (t, pdu) @ rest" using fetch_sound [OF fetch] by blast
    then show ?thesis
      using rs more(2) by (intro exI [of _ "(t, pdu) # rs"] exI [of _ rest']) simp
  next
    case False
    then have "ts = []"
      using less.prems by (subst (asm) fetch_all.simps) (auto split: sum.splits option.splits prod.splits)
    then show ?thesis by (intro exI [of _ "[]"] exI [of _ dump]) simp
  qed
qed

subsection \<open>Properties\<close>

lemma fetch_all_records:
  assumes "\<forall>r \<in> set rs. dump_ok r"
  shows "fetch_all (concat (map dump_record rs) @ tail) =
    bind_c (fetch_all tail) (\<lambda>(ts, out). Inr (map fst rs @ ts, out))"
  using assms
proof (induction rs)
  case Nil
  then show ?case by (cases "fetch_all tail") auto
next
  case (Cons r rs)
  obtain t pdu where r: "r = (t, pdu)" by fastforce
  have "mb_fetch_blk_io_trace (dump_record r @ concat (map dump_record rs) @ tail) =
      Inr (Some t, [], concat (map dump_record rs) @ tail)"
    using Cons.prems r fetch_record by simp
  then have "fetch_all (concat (map dump_record (r # rs)) @ tail) =
      bind_c (fetch_all (concat (map dump_record rs) @ tail)) (\<lambda>(ts, out'). Inr (t # ts, out'))"
    by (subst fetch_all.simps) simp
  then show ?case using Cons r by (cases "fetch_all tail") auto
qed

lemma fetch_all_short: "length tail < sizeof_trace \<Longrightarrow> fetch_all tail = Inr ([], [])"
  by (subst fetch_all.simps) (simp add: mb_fetch_blk_io_trace_def)

text \<open>The result of the \<open>fread\<close> of the payload is ignored: a record whose payload is cut off counts.\<close>

lemma fetch_all_cut_payload:
  assumes "bt_magic t AND 0xffffff00 = BLK_IO_TRACE_MAGIC" and "length pdu < unat (bt_pdu_len t)"
    and "length pdu \<le> 1024"
  shows "fetch_all (bytes_of_trace t @ pdu) = Inr ([t], [])"
proof -
  have "0 < bt_pdu_len t" using assms(2) by (metis gr_implies_not0 unat_0 word_gt_0)
  then have "mb_fetch_blk_io_trace (bytes_of_trace t @ pdu) = Inr (Some t, [], [])"
    using assms by (auto simp: mb_fetch_blk_io_trace_def Let_def trace_of_bytes_of_trace)
  moreover have "fetch_all [] = Inr ([], [])" by (rule fetch_all_short) (simp add: sizeof_trace_def)
  ultimately show ?thesis by (subst fetch_all.simps) simp
qed

text \<open>
  C13: reading a dump is the inverse of writing it. For every sequence of traces with the right
  magic number, each followed by its payload of at most 1024 bytes, the reading loop delivers
  exactly these traces in their order, every member with its value, and prints nothing. What
  follows them decides how it goes on: fewer bytes than a trace has end the loop; a trace whose
  payload is cut off by the end of the file is still delivered, as the last one.
\<close>

theorem fetch_all_roundtrip:
  assumes "\<forall>r \<in> set rs. dump_ok r"
  shows "(length tail < sizeof_trace \<longrightarrow>
      fetch_all (concat (map dump_record rs) @ tail) = Inr (map fst rs, [])) \<and>
    (bt_magic t AND 0xffffff00 = BLK_IO_TRACE_MAGIC \<and> length pdu < unat (bt_pdu_len t) \<and>
       length pdu \<le> 1024 \<longrightarrow>
      fetch_all (concat (map dump_record rs) @ bytes_of_trace t @ pdu) = Inr (map fst rs @ [t], []))"
  using fetch_all_records [OF assms] fetch_all_short [of tail] fetch_all_cut_payload [of t pdu] by simp

text \<open>
  A payload that is longer than the array on the stack, in a file that holds it, is written
  beyond the end of the array.
\<close>

theorem fetch_pdu_overflow:
  assumes "bt_magic t AND 0xffffff00 = BLK_IO_TRACE_MAGIC" and "1024 < unat (bt_pdu_len t)"
    and "1024 < length pdu"
  shows "fetch_all (bytes_of_trace t @ pdu) = Inl Undefined"
proof -
  have "0 < bt_pdu_len t" using assms(2) by (simp add: word_less_nat_alt)
  then show ?thesis
    using assms
    by (subst fetch_all.simps) (auto simp: mb_fetch_blk_io_trace_def Let_def trace_of_bytes_of_trace)
qed

definition demo_record :: blk_io_trace where
  "demo_record =
     \<lparr>bt_magic = 0x65617407, bt_sequence = 1, bt_time = 5, bt_sector = 2048, bt_bytes = 4096,
      bt_action = 0x20007, bt_pid = 42, bt_device = 0x800000, bt_cpu = 3, bt_error = 0, bt_pdu_len = 2\<rparr>"

theorem fetch_all_roundtrip_witness:
  "fetch_all (dump_record (demo_record, [1, 2]) @ [0, 1]) = Inr ([demo_record], []) \<and>
   fetch_all (dump_record (demo_record, [1, 2]) @ bytes_of_trace demo_record @ [1]) =
     Inr ([demo_record, demo_record], [])"
  using fetch_all_roundtrip [of "[(demo_record, [1, 2])]" "[0, 1]" demo_record "[1]"]
  by (simp add: dump_ok_def BLK_IO_TRACE_MAGIC_def sizeof_trace_def demo_record_def)

end
