(* ===== verification/ResPool.thy ===== *)
theory ResPool
  imports Prelude
begin

section \<open>The resource pool: a ring of cells used as a bounded queue\<close>

text \<open>
  The model of \<open>mb_res_pool_t\<close> (src/src/micbench-io.h) and of \<open>mb_res_pool_make\<close>,
  \<open>mb_res_pool_destroy\<close>, \<open>mb_res_pool_pop\<close> and \<open>mb_res_pool_push\<close> (src/src/micbench-io.c) over an
  explicit heap of cells. The pool is refined to a bounded first-in first-out queue: the
  interface is the locale \<open>bounded_fifo\<close>, which the pool interprets, and which the AIO
  manager's loops rely on.
\<close>

subsection \<open>Data\<close>

record res_cell =
  c_data :: addr
  c_next :: addr

type_synonym cell_heap = "addr \<rightharpoonup> res_cell"

record res_pool =
  nr_elems :: int
  nr_avail :: int
  ring :: addr
  head :: addr
  tail :: addr
  elemsize :: "64 word"
  elembase :: addr

type_synonym pool_state = "res_pool \<times> cell_heap"

text \<open>Reading a cell through a pointer: a null or dangling pointer is undefined.\<close>

definition load_cell :: "cell_heap \<Rightarrow> addr \<Rightarrow> res_cell c_result" where
  "load_cell h a =
     (if a = NULL then Inl Undefined
      else case h a of None \<Rightarrow> Inl Undefined | Some c \<Rightarrow> Inr c)"

subsection \<open>Operations\<close>

text \<open>
  The loop of \<open>mb_res_pool_make\<close>: \<open>alloc (Suc i)\<close> is what the \<open>malloc\<close> of iteration \<open>i\<close>
  returns (\<open>alloc 0\<close> is the pool's own block), \<open>k\<close> the number of iterations left.
\<close>

primrec pool_make_loop ::
  "(nat \<Rightarrow> addr) \<Rightarrow> nat \<Rightarrow> nat \<Rightarrow> addr \<Rightarrow> addr \<Rightarrow> cell_heap \<Rightarrow>
     (addr \<times> addr \<times> cell_heap) c_result" where
  "pool_make_loop alloc 0 i cell tc h = Inr (cell, tc, h)"
| "pool_make_loop alloc (Suc k) i cell tc h =
     (let next_cell = cell; a = alloc (Suc i)
      in if a = NULL then Inl Exit_Failure
         else pool_make_loop alloc k (Suc i) a (if tc = NULL then a else tc)
                (h(a \<mapsto> \<lparr>c_data = NULL, c_next = next_cell\<rparr>)))"

definition mb_res_pool_make ::
  "(nat \<Rightarrow> addr) \<Rightarrow> int \<Rightarrow> cell_heap \<Rightarrow> pool_state c_result" where
  "mb_res_pool_make alloc n h =
     (if alloc 0 = NULL then Inl Exit_Failure
      else bind_c (pool_make_loop alloc (nat n) 0 NULL NULL h)
        (\<lambda>(cell, tc, h').
           bind_c (load_cell h' tc)
             (\<lambda>c. Inr (\<lparr>nr_elems = n, nr_avail = 0, ring = cell, head = cell, tail = tc,
                        elemsize = 0, elembase = NULL\<rparr>,
                       h'(tc \<mapsto> c\<lparr>c_next := cell\<rparr>)))))"

definition mb_res_pool_pop :: "pool_state \<Rightarrow> (addr \<times> pool_state) c_result" where
  "mb_res_pool_pop s =
     (let (p, h) = s
      in if nr_avail p = 0 then Inr (NULL, s)
         else bind_c (load_cell h (head p))
           (\<lambda>c. Inr (c_data c, p\<lparr>head := c_next c, nr_avail := nr_avail p - 1\<rparr>, h)))"

definition mb_res_pool_push :: "pool_state \<Rightarrow> addr \<Rightarrow> (int \<times> pool_state) c_result" where
  "mb_res_pool_push s elem =
     (let (p, h) = s
      in if nr_avail p = nr_elems p then Inr (-1, s)
         else bind_c (load_cell h (tail p))
           (\<lambda>t. bind_c (load_cell h (c_next t))
             (\<lambda>c. Inr (0, p\<lparr>tail := c_next t, nr_avail := nr_avail p + 1\<rparr>,
                          h(c_next t \<mapsto> c\<lparr>c_data := elem\<rparr>)))))"

text \<open>
  The loop of \<open>mb_res_pool_destroy\<close> may in principle run on, so its result is an option:
  \<open>None\<close> is a loop that does not end. Freeing a cell removes it from the heap, so a second
  \<open>free\<close> or a read of a freed cell is undefined.
\<close>

partial_function (option) pool_destroy_loop ::
  "addr \<Rightarrow> addr \<Rightarrow> addr \<Rightarrow> cell_heap \<Rightarrow> cell_heap c_result option" where
  "pool_destroy_loop rng cell cell_next h =
     (if cell_next = rng then Some (Inr h)
      else case load_cell h cell of
             Inl e \<Rightarrow> Some (Inl e)
           | Inr c \<Rightarrow> pool_destroy_loop rng (c_next c) (c_next c) (h(cell := None)))"

definition mb_res_pool_destroy :: "pool_state \<Rightarrow> cell_heap c_result option" where
  "mb_res_pool_destroy s = (let (p, h) = s in pool_destroy_loop (ring p) (ring p) NULL h)"

subsection \<open>Abstraction: the queue a pool holds\<close>

primrec walk :: "cell_heap \<Rightarrow> nat \<Rightarrow> addr \<Rightarrow> addr list" where
  "walk h 0 a = []"
| "walk h (Suc k) a =
     (case h a of None \<Rightarrow> [] | Some c \<Rightarrow> c_data c # walk h k (c_next c))"

definition pool_contents :: "pool_state \<Rightarrow> addr list" where
  "pool_contents s = (let (p, h) = s in walk h (nat (nr_avail p)) (head p))"

definition pool_capacity :: "pool_state \<Rightarrow> nat" where
  "pool_capacity s = nat (nr_elems (fst s))"

text \<open>\<open>chain h a xs b\<close>: following \<open>next\<close> from \<open>a\<close> visits the cells \<open>xs\<close> and ends at \<open>b\<close>.\<close>

primrec chain :: "cell_heap \<Rightarrow> addr \<Rightarrow> addr list \<Rightarrow> addr \<Rightarrow> bool" where
  "chain h a [] b \<longleftrightarrow> a = b"
| "chain h a (x # xs) b \<longleftrightarrow>
     a = x \<and> x \<noteq> NULL \<and> (\<exists>c. h x = Some c \<and> chain h (c_next c) xs b)"

text \<open>
  The invariant: the cells form one ring \<open>cs\<close> that starts at \<open>head\<close>; the first \<open>nr_avail\<close> of
  them hold the queue, and \<open>tail\<close> is the cell before the first free one.
\<close>

definition ring_at :: "addr list \<Rightarrow> pool_state \<Rightarrow> bool" where
  "ring_at cs s \<longleftrightarrow>
     (let (p, h) = s; k = nat (nr_avail p)
      in cs \<noteq> [] \<and> distinct cs \<and> chain h (head p) cs (head p) \<and>
         nr_elems p = int (length cs) \<and> 0 \<le> nr_avail p \<and> nr_avail p \<le> nr_elems p \<and>
         tail p = last (drop k cs @ take k cs) \<and> ring p \<in> set cs)"

definition pool_invar :: "pool_state \<Rightarrow> bool" where
  "pool_invar s \<longleftrightarrow> (\<exists>cs. ring_at cs s)"

definition cell_data :: "cell_heap \<Rightarrow> addr \<Rightarrow> addr" where
  "cell_data h a = (case h a of None \<Rightarrow> NULL | Some c \<Rightarrow> c_data c)"

subsection \<open>Chains\<close>

lemma chain_append: "chain h a (xs @ ys) b \<longleftrightarrow> (\<exists>m. chain h a xs m \<and> chain h m ys b)"
  by (induction xs arbitrary: a) auto

lemma chain_hd: "chain h a xs b \<Longrightarrow> xs \<noteq> [] \<Longrightarrow> a = hd xs"
  by (cases xs) auto

lemma chain_cells: "chain h a xs b \<Longrightarrow> x \<in> set xs \<Longrightarrow> x \<noteq> NULL \<and> (\<exists>c. h x = Some c)"
  by (induction xs arbitrary: a) auto

lemma chain_last: "chain h a (xs @ [x]) b \<Longrightarrow> \<exists>c. h x = Some c \<and> c_next c = b"
  by (induction xs arbitrary: a) auto

lemma chain_upd_other [simp]: "x \<notin> set xs \<Longrightarrow> chain (h(x := v)) a xs b = chain h a xs b"
  by (induction xs arbitrary: a) auto

lemma chain_upd_data:
  "h x = Some c \<Longrightarrow> chain (h(x \<mapsto> c\<lparr>c_data := d\<rparr>)) a xs b = chain h a xs b"
  by (induction xs arbitrary: a) auto

lemma chain_rotate:
  assumes "chain h a (us @ vs) a" and "us @ vs \<noteq> []"
  shows "chain h (hd (vs @ us)) (vs @ us) (hd (vs @ us))"
proof -
  from assms(1) obtain m where us: "chain h a us m" and vs: "chain h m vs a"
    by (auto simp: chain_append)
  then have "chain h m (vs @ us) m" by (auto simp: chain_append)
  moreover from this assms(2) have "m = hd (vs @ us)" by (intro chain_hd) auto
  ultimately show ?thesis by simp
qed

lemma chain_ring_next_last:
  assumes "chain h a xs a" and "xs \<noteq> []"
  shows "\<exists>c. h (last xs) = Some c \<and> c_next c = hd xs"
proof -
  from assms have "chain h a (butlast xs @ [last xs]) a" by simp
  then obtain c where "h (last xs) = Some c" "c_next c = a" by (blast dest: chain_last)
  with assms chain_hd show ?thesis by blast
qed

lemma walk_chain:
  "chain h a xs b \<Longrightarrow> k \<le> length xs \<Longrightarrow> walk h k a = map (cell_data h) (take k xs)"
proof (induction xs arbitrary: a k)
  case Nil
  then show ?case by simp
next
  case (Cons x xs)
  then show ?case by (cases k) (auto simp: cell_data_def)
qed

lemma load_cell_Some [simp]: "a \<noteq> NULL \<Longrightarrow> h a = Some c \<Longrightarrow> load_cell h a = Inr c"
  by (simp add: load_cell_def)

lemma ring_at_iff:
  "ring_at cs (p, h) \<longleftrightarrow>
     cs \<noteq> [] \<and> distinct cs \<and> chain h (head p) cs (head p) \<and>
     nr_elems p = int (length cs) \<and> 0 \<le> nr_avail p \<and> nr_avail p \<le> nr_elems p \<and>
     tail p = last (drop (nat (nr_avail p)) cs @ take (nat (nr_avail p)) cs) \<and>
     ring p \<in> set cs"
  by (simp add: ring_at_def Let_def)

lemma ring_at_contents:
  "ring_at cs (p, h) \<Longrightarrow>
     pool_contents (p, h) = map (cell_data h) (take (nat (nr_avail p)) cs)"
  unfolding pool_contents_def ring_at_iff by (auto intro: walk_chain)

lemma ring_at_length_contents:
  "ring_at cs (p, h) \<Longrightarrow> int (length (pool_contents (p, h))) = nr_avail p"
  by (simp add: ring_at_contents) (auto simp: ring_at_iff)

subsection \<open>Making a pool\<close>

text \<open>
  The loop puts the newly allocated cells in front of the chain built so far; the first
  iteration also fixes the last cell, so the loop is described from the second one on.
\<close>

lemma pool_make_loop_ok:
  assumes "\<forall>j \<in> {i<..i + k}. alloc j \<noteq> NULL \<and> alloc j \<notin> set xs"
    and "inj_on alloc {i<..i + k}" and "chain h cell xs NULL" and "distinct xs"
    and "xs \<noteq> []" and "tc \<noteq> NULL"
  defines "ys \<equiv> rev (map alloc [Suc i..<Suc (i + k)])"
  shows "\<exists>h'. pool_make_loop alloc k i cell tc h = Inr (hd (ys @ xs), tc, h') \<and>
          distinct (ys @ xs) \<and> chain h' (hd (ys @ xs)) (ys @ xs) NULL"
  using assms(1-6) unfolding ys_def
proof (induction k arbitrary: i cell h xs)
  case 0
  then show ?case using chain_hd by auto
next
  case (Suc k)
  let ?a = "alloc (Suc i)"
  let ?h = "h(?a \<mapsto> \<lparr>c_data = NULL, c_next = cell\<rparr>)"
  have a: "?a \<noteq> NULL" "?a \<notin> set xs" using Suc.prems(1) by auto
  have "alloc j \<noteq> ?a" if "j \<in> {Suc i<..Suc i + k}" for j
    using that Suc.prems(2) inj_onD [of alloc "{i<..i + Suc k}" j "Suc i"] by auto
  then have fresh: "\<forall>j \<in> {Suc i<..Suc i + k}. alloc j \<noteq> NULL \<and> alloc j \<notin> set (?a # xs)"
    using Suc.prems(1) by auto
  have inj: "inj_on alloc {Suc i<..Suc i + k}"
    by (rule inj_on_subset [OF Suc.prems(2)]) auto
  have ch: "chain ?h ?a (?a # xs) NULL" using a Suc.prems(3) by simp
  have ys: "rev (map alloc [Suc i..<Suc (i + Suc k)]) @ xs =
      rev (map alloc [Suc (Suc i)..<Suc (Suc i + k)]) @ ?a # xs"
    by (simp add: upt_conv_Cons del: upt_Suc)
  have step: "pool_make_loop alloc (Suc k) i cell tc h =
      pool_make_loop alloc k (Suc i) ?a tc ?h"
    using a(1) Suc.prems(6) by (simp add: Let_def)
  from a(2) Suc.prems(4) have "distinct (?a # xs)" by simp
  from Suc.IH [OF fresh inj ch this _ Suc.prems(6)] show ?case
    unfolding ys step by blast
qed

text \<open>What the caller's allocator has to give: distinct non-null blocks not in use.\<close>

definition fresh_blocks :: "(nat \<Rightarrow> addr) \<Rightarrow> nat \<Rightarrow> bool" where
  "fresh_blocks alloc n \<longleftrightarrow> inj_on alloc {..n} \<and> (\<forall>j \<le> n. alloc j \<noteq> NULL)"

lemma pool_make_ring:
  assumes "fresh_blocks alloc (nat n)" and "0 < n"
  defines "cs \<equiv> rev (map alloc [1..<Suc (nat n)])"
  shows "\<exists>p h'. mb_res_pool_make alloc n h = Inr (p, h') \<and> ring_at cs (p, h') \<and> nr_avail p = 0"
proof -
  obtain k where k: "nat n = Suc k" using assms(2) by (metis gr0_conv_Suc zero_less_nat_eq)
  let ?a = "alloc 1"
  let ?h = "h(?a \<mapsto> \<lparr>c_data = NULL, c_next = NULL\<rparr>)"
  let ?ys = "rev (map alloc [Suc 1..<Suc (1 + k)])"
  have a: "?a \<noteq> NULL" using assms(1) k by (simp add: fresh_blocks_def)
  have inj: "inj_on alloc {1<..1 + k}"
    using assms(1) k by (auto simp: fresh_blocks_def intro: inj_on_subset)
  have "alloc j \<noteq> ?a" if "j \<in> {1<..1 + k}" for j
    using that assms(1) k inj_onD [of alloc "{..Suc k}" j 1] by (auto simp: fresh_blocks_def)
  then have fresh: "\<forall>j \<in> {1<..1 + k}. alloc j \<noteq> NULL \<and> alloc j \<notin> set [?a]"
    using assms(1) k by (auto simp: fresh_blocks_def)
  have cs: "cs = ?ys @ [?a]" unfolding cs_def k by (simp add: upt_conv_Cons del: upt_Suc)
  obtain h' where loop: "pool_make_loop alloc k 1 ?a ?a ?h = Inr (hd cs, ?a, h')"
    and d: "distinct cs" and ch: "chain h' (hd cs) cs NULL"
    using pool_make_loop_ok [OF fresh inj, of ?h ?a ?a] a unfolding cs by auto
  from ch obtain c where c: "h' ?a = Some c" unfolding cs by (blast dest: chain_last)
  let ?h2 = "h'(?a \<mapsto> c\<lparr>c_next := hd cs\<rparr>)"
  have "?a \<notin> set ?ys" using d unfolding cs by simp
  then have ring: "chain ?h2 (hd cs) cs (hd cs)"
    using ch a unfolding cs chain_append by auto
  let ?p = "\<lparr>nr_elems = n, nr_avail = 0, ring = hd cs, head = hd cs, tail = ?a,
             elemsize = 0, elembase = NULL\<rparr>"
  have "mb_res_pool_make alloc n h = Inr (?p, ?h2)"
    using assms(1) a c loop
    by (simp add: mb_res_pool_make_def fresh_blocks_def k Let_def)
  moreover have "length cs = nat n" unfolding cs_def by simp
  then have "ring_at cs (?p, ?h2)"
    using ring d assms(2) by (auto simp: ring_at_iff cs)
  ultimately show ?thesis by force
qed

lemma pool_make_zero: "n \<le> 0 \<Longrightarrow> alloc 0 \<noteq> NULL \<Longrightarrow> mb_res_pool_make alloc n h = Inl Undefined"
  by (simp add: mb_res_pool_make_def load_cell_def)

subsection \<open>Pop and push\<close>

lemma pool_pop_ring:
  assumes "ring_at cs (p, h)" and "nr_avail p \<noteq> 0"
  shows "\<exists>p'. mb_res_pool_pop (p, h) = Inr (cell_data h (hd cs), p', h) \<and>
           ring_at (rotate1 cs) (p', h) \<and> nr_avail p' = nr_avail p - 1 \<and>
           nr_elems p' = nr_elems p"
proof -
  from assms(1) obtain x xs where cs: "cs = x # xs" by (cases cs) (auto simp: ring_at_iff)
  with assms(1) obtain c where x: "head p = x" "x \<noteq> NULL" "h x = Some c"
    and ch: "chain h (c_next c) xs x" by (auto simp: ring_at_iff)
  obtain k where k: "nat (nr_avail p) = Suc k"
    using assms by (metis gr0_conv_Suc ring_at_iff linorder_not_less nat_0_iff not_gr_zero
        order_antisym)
  let ?p = "p\<lparr>head := c_next c, nr_avail := nr_avail p - 1\<rparr>"
  have "nat (nr_avail p - 1) = k" using k by simp
  moreover have "k \<le> length xs" using assms(1) k by (auto simp: ring_at_iff cs)
  moreover have "chain h (c_next c) (xs @ [x]) (c_next c)" using ch x by (auto simp: chain_append)
  ultimately have "ring_at (rotate1 cs) (?p, h)"
    using assms k by (auto simp: ring_at_iff cs)
  then show ?thesis
    using x assms(2) by (auto simp: mb_res_pool_pop_def cs cell_data_def)
qed

lemma pool_push_ring:
  assumes "ring_at cs (p, h)" and "nr_avail p \<noteq> nr_elems p"
  shows "\<exists>p' h'. mb_res_pool_push (p, h) elem = Inr (0, p', h') \<and> ring_at cs (p', h') \<and>
           pool_contents (p', h') = pool_contents (p, h) @ [elem] \<and> nr_elems p' = nr_elems p"
proof -
  define k where "k = nat (nr_avail p)"
  have k: "k < length cs" "nr_avail p = int k"
    using assms by (auto simp: ring_at_iff k_def)
  define us where "us = take k cs"
  define v where "v = cs ! k"
  define vs where "vs = drop (Suc k) cs"
  have cs: "cs = us @ v # vs" using k by (simp add: us_def v_def vs_def id_take_nth_drop)
  have lus: "length us = k" using k by (simp add: us_def)
  have ch: "chain h (head p) (us @ v # vs) (head p)" and d: "distinct (us @ v # vs)"
    using assms(1) by (simp_all add: ring_at_iff cs)
  have "chain h v ((v # vs) @ us) v" using chain_rotate [OF ch] by simp
  then obtain t where t: "h (last ((v # vs) @ us)) = Some t" "c_next t = v"
    using chain_ring_next_last by fastforce
  have tail: "tail p = last ((v # vs) @ us)" "tail p \<noteq> NULL"
  proof -
    show 1: "tail p = last ((v # vs) @ us)"
      using assms(1) k lus by (simp add: ring_at_iff cs)
    have "last ((v # vs) @ us) \<in> set (us @ v # vs)" by (auto simp: last_append)
    then show "tail p \<noteq> NULL" using chain_cells [OF ch] 1 by metis
  qed
  from chain_cells [OF ch, of v] obtain c where c: "v \<noteq> NULL" "h v = Some c" by auto
  let ?p = "p\<lparr>tail := v, nr_avail := nr_avail p + 1\<rparr>"
  let ?h = "h(v \<mapsto> c\<lparr>c_data := elem\<rparr>)"
  have push: "mb_res_pool_push (p, h) elem = Inr (0, ?p, ?h)"
    using assms(2) t tail c by (simp add: mb_res_pool_push_def)
  have k1: "nat (nr_avail p + 1) = Suc k" using k by simp
  have ring: "ring_at cs (?p, ?h)"
    using assms k1 k lus ch d chain_upd_data [of h v c elem, OF c(2)] by (auto simp: ring_at_iff cs)
  have "map (cell_data ?h) us = map (cell_data h) us"
    using d by (auto simp: cell_data_def)
  then have "pool_contents (?p, ?h) = pool_contents (p, h) @ [elem]"
    using ring_at_contents [OF ring] ring_at_contents [OF assms(1)] k1 k lus
    by (simp add: cs cell_data_def)
  with push ring show ?thesis by auto
qed

subsection \<open>The interface: a bounded first-in first-out queue\<close>

text \<open>
  What the AIO manager relies on: a push on a full queue is refused and changes nothing, a
  pop on an empty one returns \<open>nil\<close> and changes nothing, and otherwise elements leave in
  the order they came. The two loops of the client (filling a new pool, draining it before
  it is destroyed) are treated once, here.
\<close>

primrec push_each :: "('s \<Rightarrow> 'a \<Rightarrow> (int \<times> 's) c_result) \<Rightarrow> 's \<Rightarrow> 'a list \<Rightarrow> 's c_result" where
  "push_each psh s [] = Inr s"
| "push_each psh s (x # xs) = bind_c (psh s x) (\<lambda>(r, s'). push_each psh s' xs)"

text \<open>\<open>while ((x = pop(q)) != nil) visit(x)\<close>: the elements visited; \<open>None\<close> if it never ends.\<close>

partial_function (option) drain ::
  "('s \<Rightarrow> ('a \<times> 's) c_result) \<Rightarrow> 'a \<Rightarrow> 's \<Rightarrow> 'a list \<Rightarrow> ('a list \<times> 's) c_result option" where
  "drain pp nl s seen =
     (case pp s of
        Inl e \<Rightarrow> Some (Inl e)
      | Inr (x, s') \<Rightarrow> if x = nl then Some (Inr (rev seen, s')) else drain pp nl s' (x # seen))"

locale bounded_fifo =
  fixes invar :: "'s \<Rightarrow> bool"
    and capacity :: "'s \<Rightarrow> nat"
    and contents :: "'s \<Rightarrow> 'a list"
    and push :: "'s \<Rightarrow> 'a \<Rightarrow> (int \<times> 's) c_result"
    and pop :: "'s \<Rightarrow> ('a \<times> 's) c_result"
    and nil :: 'a
  assumes contents_bound: "invar s \<Longrightarrow> length (contents s) \<le> capacity s"
    and push_full: "invar s \<Longrightarrow> length (contents s) = capacity s \<Longrightarrow> push s x = Inr (-1, s)"
    and push_room: "invar s \<Longrightarrow> length (contents s) < capacity s \<Longrightarrow>
          \<exists>s'. push s x = Inr (0, s') \<and> invar s' \<and> contents s' = contents s @ [x] \<and>
               capacity s' = capacity s"
    and pop_empty: "invar s \<Longrightarrow> contents s = [] \<Longrightarrow> pop s = Inr (nil, s)"
    and pop_first: "invar s \<Longrightarrow> contents s = x # xs \<Longrightarrow>
          \<exists>s'. pop s = Inr (x, s') \<and> invar s' \<and> contents s' = xs \<and> capacity s' = capacity s"
begin

lemma push_each_room:
  "invar s \<Longrightarrow> length (contents s) + length xs \<le> capacity s \<Longrightarrow>
     \<exists>s'. push_each push s xs = Inr s' \<and> invar s' \<and> contents s' = contents s @ xs \<and>
          capacity s' = capacity s"
proof (induction xs arbitrary: s)
  case Nil
  then show ?case by simp
next
  case (Cons x xs)
  then obtain s1 where s1: "push s x = Inr (0, s1)" "invar s1"
    "contents s1 = contents s @ [x]" "capacity s1 = capacity s"
    using push_room [of s x] by auto
  then show ?case using Cons.IH [of s1] Cons.prems by auto
qed

lemma drain_all:
  "invar s \<Longrightarrow> nil \<notin> set (contents s) \<Longrightarrow>
     \<exists>s'. drain pop nil s seen = Some (Inr (rev seen @ contents s, s')) \<and> invar s' \<and>
          contents s' = [] \<and> capacity s' = capacity s"
proof (induction "contents s" arbitrary: s seen)
  case Nil
  then show ?case using pop_empty [of s] by (simp add: drain.simps)
next
  case (Cons x xs)
  then obtain s1 where s1: "pop s = Inr (x, s1)" "invar s1" "contents s1 = xs"
    "capacity s1 = capacity s"
    using pop_first [of s x xs] by auto
  moreover have "x \<noteq> nil" "nil \<notin> set xs"
    using Cons.prems(2) Cons.hyps(2) by (metis list.set_intros)+
  ultimately show ?case
    using Cons.hyps(1) [of s1 "x # seen"] Cons.hyps(2) by (subst drain.simps) auto
qed

lemma fill_then_drain:
  assumes "invar s" and "contents s = []" and "length xs \<le> capacity s" and "nil \<notin> set xs"
  shows "\<exists>s1 s2. push_each push s xs = Inr s1 \<and> drain pop nil s1 [] = Some (Inr (xs, s2)) \<and>
           invar s2 \<and> contents s2 = []"
proof -
  from push_each_room [OF assms(1), of xs] assms(2,3) obtain s1
    where s1: "push_each push s xs = Inr s1" "invar s1" "contents s1 = xs" by auto
  with drain_all [of s1 "[]"] assms(4) show ?thesis by auto
qed

end

lemma ring_at_contents_empty:
  "ring_at cs (p, h) \<Longrightarrow> pool_contents (p, h) = [] \<longleftrightarrow> nr_avail p = 0"
  using ring_at_length_contents [of cs p h] by (metis length_0_conv of_nat_eq_0_iff)

lemma ring_at_contents_full:
  assumes "ring_at cs (p, h)"
  shows "length (pool_contents (p, h)) = pool_capacity (p, h) \<longleftrightarrow> nr_avail p = nr_elems p"
    and "length (pool_contents (p, h)) \<le> pool_capacity (p, h)"
  using ring_at_length_contents [OF assms] assms by (auto simp: pool_capacity_def ring_at_iff)

lemma pool_pop_contents:
  assumes "ring_at cs (p, h)" and "pool_contents (p, h) = x # xs"
  shows "\<exists>p'. mb_res_pool_pop (p, h) = Inr (x, p', h) \<and> pool_invar (p', h) \<and>
           pool_contents (p', h) = xs \<and> pool_capacity (p', h) = pool_capacity (p, h)"
proof -
  from assms ring_at_contents_empty have ne: "nr_avail p \<noteq> 0" by fastforce
  from pool_pop_ring [OF assms(1) this] obtain p'
    where pop: "mb_res_pool_pop (p, h) = Inr (cell_data h (hd cs), p', h)"
      and ring: "ring_at (rotate1 cs) (p', h)"
      and p': "nr_avail p' = nr_avail p - 1" "nr_elems p' = nr_elems p" by auto
  obtain y ys k where k: "cs = y # ys" "nat (nr_avail p) = Suc k" "k \<le> length ys"
    using assms(1) ne by (cases cs; cases "nat (nr_avail p)") (auto simp: ring_at_iff)
  have "nat (nr_avail p') = k" using k p' by simp
  then have "x # xs = cell_data h y # pool_contents (p', h)"
    using assms(2) ring_at_contents [OF assms(1)] ring_at_contents [OF ring] k by simp
  then show ?thesis using pop ring k p' by (auto simp: pool_invar_def pool_capacity_def)
qed

interpretation rp: bounded_fifo pool_invar pool_capacity pool_contents
    mb_res_pool_push mb_res_pool_pop NULL
proof (unfold_locales, goal_cases)
  case (1 s)
  then show ?case by (cases s) (auto simp: pool_invar_def dest: ring_at_contents_full)
next
  case (2 s x)
  then show ?case
    by (cases s) (auto simp: pool_invar_def mb_res_pool_push_def dest: ring_at_contents_full(1))
next
  case (3 s x)
  obtain p h cs where s: "s = (p, h)" and r: "ring_at cs (p, h)"
    using 3(1) by (cases s) (auto simp: pool_invar_def)
  then have "nr_avail p \<noteq> nr_elems p" using 3(2) ring_at_contents_full(1) by fastforce
  from pool_push_ring [OF r this, of x] show ?case
    unfolding s pool_invar_def pool_capacity_def by auto
next
  case (4 s)
  then show ?case
    by (cases s) (auto simp: pool_invar_def mb_res_pool_pop_def ring_at_contents_empty)
next
  case (5 s x xs)
  then show ?case by (cases s) (auto simp: pool_invar_def dest!: pool_pop_contents)
qed

subsection \<open>Destroying a pool\<close>

primrec cells_from :: "cell_heap \<Rightarrow> nat \<Rightarrow> addr \<Rightarrow> addr list" where
  "cells_from h 0 a = []"
| "cells_from h (Suc k) a =
     (case h a of None \<Rightarrow> [] | Some c \<Rightarrow> a # cells_from h k (c_next c))"

definition pool_cells :: "pool_state \<Rightarrow> addr list" where
  "pool_cells s = (let (p, h) = s in cells_from h (nat (nr_elems p)) (ring p))"

lemma pool_pop_keeps:
  assumes "mb_res_pool_pop s = Inr (x, s')"
  shows "snd s' = snd s" "pool_cells s' = pool_cells s"
  using assms by (cases s; auto simp: mb_res_pool_pop_def pool_cells_def bind_c_eq_Inr split: if_splits)+

lemma cells_from_chain: "chain h a xs b \<Longrightarrow> cells_from h (length xs) a = xs"
  by (induction xs arbitrary: a) auto

lemma pool_destroy_loop_chain:
  "chain h cell xs rng \<Longrightarrow> distinct xs \<Longrightarrow> rng \<notin> set xs \<Longrightarrow>
     pool_destroy_loop rng cell cell h = Some (Inr (h |` (- set xs)))"
proof (induction xs arbitrary: cell h)
  case Nil
  then show ?case by (simp add: pool_destroy_loop.simps)
next
  case (Cons x xs)
  then obtain c where c: "cell = x" "x \<noteq> NULL" "h x = Some c" "chain h (c_next c) xs rng"
    by auto
  have "pool_destroy_loop rng cell cell h =
      pool_destroy_loop rng (c_next c) (c_next c) (h(x := None))"
    using Cons.prems c by (subst pool_destroy_loop.simps) simp
  also have "\<dots> = Some (Inr (h(x := None) |` (- set xs)))"
  proof (rule Cons.IH)
    show "chain (h(x := None)) (c_next c) xs rng" using Cons.prems c(4) by simp
  qed (use Cons.prems in auto)
  also have "h(x := None) |` (- set xs) = h |` (- set (x # xs))"
    by (auto simp: restrict_map_def fun_eq_iff)
  finally show ?case .
qed

lemma ring_at_cells:
  assumes "ring_at cs (p, h)"
  shows "\<exists>xs. chain h (ring p) (ring p # xs) (ring p) \<and> distinct (ring p # xs) \<and>
           pool_cells (p, h) = ring p # xs \<and> set (ring p # xs) = set cs"
proof -
  from assms have "ring p \<in> set cs" by (simp add: ring_at_iff)
  then obtain us vs where cs: "cs = us @ ring p # vs" by (auto simp: in_set_conv_decomp)
  have "chain h (head p) (us @ ring p # vs) (head p)" "distinct (us @ ring p # vs)"
    using assms cs by (auto simp: ring_at_iff)
  then have ch: "chain h (ring p) (ring p # vs @ us) (ring p)" and d: "distinct (ring p # vs @ us)"
    using chain_rotate [of h "head p" us "ring p # vs"] by auto
  have "nat (nr_elems p) = length (ring p # vs @ us)"
    using assms by (simp add: ring_at_iff cs)
  then have "pool_cells (p, h) = ring p # vs @ us"
    using cells_from_chain [OF ch] by (simp add: pool_cells_def)
  with ch d show ?thesis unfolding cs by (intro exI [of _ "vs @ us"]) auto
qed

lemma pool_destroy_ring:
  assumes "ring_at cs (p, h)"
  shows "mb_res_pool_destroy (p, h) = Some (Inr (h |` (- set (pool_cells (p, h)))))"
proof -
  obtain xs where ch: "chain h (ring p) (ring p # xs) (ring p)"
    and d: "distinct (ring p # xs)" and cells: "pool_cells (p, h) = ring p # xs"
    using ring_at_cells [OF assms] by blast
  from ch obtain c where c: "ring p \<noteq> NULL" "h (ring p) = Some c"
    "chain h (c_next c) xs (ring p)" by auto
  have "mb_res_pool_destroy (p, h) =
      pool_destroy_loop (ring p) (c_next c) (c_next c) (h(ring p := None))"
    using c by (simp add: mb_res_pool_destroy_def) (subst pool_destroy_loop.simps, simp)
  also have "\<dots> = Some (Inr (h(ring p := None) |` (- set xs)))"
    using c d by (intro pool_destroy_loop_chain) auto
  also have "h(ring p := None) |` (- set xs) = h |` (- set (ring p # xs))"
    by (auto simp: restrict_map_def fun_eq_iff)
  finally show ?thesis by (simp add: cells)
qed

subsection \<open>Properties\<close>

text \<open>
  C21: the pool is a bounded FIFO queue. On a well-formed pool \<open>mb_res_pool_push\<close> never
  dereferences a bad pointer; it returns -1 and changes nothing exactly when the pool is
  full, and otherwise returns 0 and appends the element to the queue.
\<close>

theorem res_pool_push_refines:
  assumes "pool_invar s"
  shows "\<exists>r s'. mb_res_pool_push s x = Inr (r, s') \<and> pool_invar s' \<and>
           pool_capacity s' = pool_capacity s \<and>
           (if length (pool_contents s) = pool_capacity s then r = -1 \<and> s' = s
            else r = 0 \<and> pool_contents s' = pool_contents s @ [x])"
proof (cases "length (pool_contents s) = pool_capacity s")
  case True
  then show ?thesis using rp.push_full [OF assms] assms by auto
next
  case False
  then have "length (pool_contents s) < pool_capacity s"
    using rp.contents_bound [OF assms] by simp
  then show ?thesis using rp.push_room [OF assms, of x] False by auto
qed

text \<open>
  C22: \<open>mb_res_pool_pop\<close> on a well-formed pool returns \<open>NULL\<close> and leaves the pool exactly as it was
  when the queue is empty; otherwise it removes and returns the oldest element. In both cases the
  cells of the ring and the heap they lie in stay as they are.
\<close>

theorem res_pool_pop_refines:
  assumes "pool_invar s"
  shows "\<exists>s'. mb_res_pool_pop s =
             Inr (case pool_contents s of [] \<Rightarrow> NULL | x # _ \<Rightarrow> x, s') \<and>
           pool_invar s' \<and> pool_contents s' = tl (pool_contents s) \<and>
           pool_capacity s' = pool_capacity s \<and> snd s' = snd s \<and> pool_cells s' = pool_cells s \<and>
           (pool_contents s = [] \<longrightarrow> s' = s)"
proof (cases "pool_contents s")
  case Nil
  then show ?thesis using rp.pop_empty [OF assms] assms by auto
next
  case (Cons x xs)
  then obtain s' where "mb_res_pool_pop s = Inr (x, s')" "pool_invar s'" "pool_contents s' = xs"
    "pool_capacity s' = pool_capacity s" using rp.pop_first [OF assms Cons] by blast
  then show ?thesis using Cons pool_pop_keeps [of s x s'] by auto
qed

text \<open>
  \<open>mb_res_pool_make\<close> with a positive size, given fresh blocks, returns an empty pool of
  that capacity whose cells are exactly the blocks allocated for them.
\<close>

theorem res_pool_make_ok:
  assumes "0 < n" and "fresh_blocks alloc (nat n)"
  shows "\<exists>s. mb_res_pool_make alloc n h = Inr s \<and> pool_invar s \<and> pool_contents s = [] \<and>
           pool_capacity s = nat n \<and> set (pool_cells s) = alloc ` {1..nat n}"
proof -
  obtain p h' where mk: "mb_res_pool_make alloc n h = Inr (p, h')" "nr_avail p = 0"
    and ring: "ring_at (rev (map alloc [1..<Suc (nat n)])) (p, h')"
    using pool_make_ring [OF assms(2,1)] by blast
  have "pool_capacity (p, h') = nat n"
    using ring by (simp add: pool_capacity_def ring_at_iff)
  moreover have "set (rev (map alloc [1..<Suc (nat n)])) = alloc ` {1..nat n}"
    by (simp add: atLeastLessThanSuc_atLeastAtMost del: upt_Suc)
  then have "set (pool_cells (p, h')) = alloc ` {1..nat n}"
    using ring_at_cells [OF ring] by metis
  ultimately show ?thesis
    using mk ring ring_at_contents_empty [OF ring] by (auto simp: pool_invar_def)
qed

text \<open>
  C35: \<open>mb_res_pool_destroy\<close> on a well-formed pool terminates, frees every cell of the pool
  exactly once (no cell is read or freed after it was freed) and leaves the rest of the
  heap alone.
\<close>

theorem res_pool_destroy_frees_all:
  assumes "pool_invar (p, h)"
  shows "mb_res_pool_destroy (p, h) = Some (Inr (h |` (- set (pool_cells (p, h))))) \<and>
         distinct (pool_cells (p, h)) \<and> length (pool_cells (p, h)) = pool_capacity (p, h)"
proof -
  obtain cs where ring: "ring_at cs (p, h)" using assms by (auto simp: pool_invar_def)
  obtain xs where d: "distinct (ring p # xs)" and cells: "pool_cells (p, h) = ring p # xs"
    and set: "set (ring p # xs) = set cs"
    using ring_at_cells [OF ring] by blast
  have "length (ring p # xs) = length cs"
    using d set ring by (metis distinct_card ring_at_iff)
  then show ?thesis
    using pool_destroy_ring [OF ring] d ring by (simp add: cells pool_capacity_def ring_at_iff)
qed

text \<open>The witnesses run the operations on the pool of three cells at addresses 2, 3 and 4.\<close>

lemma fresh_blocks_Suc [simp]: "fresh_blocks Suc n"
  by (simp add: fresh_blocks_def)

theorem res_pool_make_ok_witness:
  "(0::int) < 3 \<and> fresh_blocks Suc (nat 3) \<and>
   (\<exists>s. mb_res_pool_make Suc 3 Map.empty = Inr s \<and> pool_invar s \<and> pool_contents s = [] \<and>
        pool_capacity s = nat 3 \<and> set (pool_cells s) = Suc ` {1..nat 3})"
  using res_pool_make_ok [of 3 Suc Map.empty] fresh_blocks_Suc [of "nat 3"] by simp

lemma three_pool:
  "\<exists>p h. mb_res_pool_make Suc 3 Map.empty = Inr (p, h) \<and> pool_invar (p, h) \<and>
         pool_contents (p, h) = [] \<and> pool_capacity (p, h) = 3"
proof -
  obtain p h where mk: "mb_res_pool_make Suc 3 Map.empty = Inr (p, h)" "nr_avail p = 0"
    and ring: "ring_at (rev (map Suc [1..<Suc (nat 3)])) (p, h)"
    using pool_make_ring [of Suc 3 Map.empty] by (metis fresh_blocks_Suc zero_less_numeral)
  have "nr_elems p = 3" using ring by (simp add: ring_at_iff)
  then show ?thesis
    using mk ring ring_at_contents_empty [OF ring] pool_invar_def pool_capacity_def by auto
qed

theorem res_pool_push_refines_witness:
  "\<exists>s r s'. mb_res_pool_make Suc 3 Map.empty = Inr s \<and> pool_invar s \<and>
     mb_res_pool_push s 7 = Inr (r, s') \<and> pool_invar s' \<and> r = 0 \<and> pool_contents s' = [7]"
proof -
  obtain p h where s: "mb_res_pool_make Suc 3 Map.empty = Inr (p, h)" "pool_invar (p, h)"
    "pool_contents (p, h) = []" "pool_capacity (p, h) = 3" using three_pool by blast
  from res_pool_push_refines [OF s(2), of 7] s show ?thesis by auto
qed

theorem res_pool_pop_refines_witness:
  "\<exists>s s1 s2. mb_res_pool_make Suc 3 Map.empty = Inr s \<and> mb_res_pool_pop s = Inr (NULL, s) \<and>
     mb_res_pool_push s 7 = Inr (0, s1) \<and> mb_res_pool_pop s1 = Inr (7, s2) \<and>
     pool_contents s1 = [7] \<and> pool_contents s2 = []"
proof -
  obtain p h where s: "mb_res_pool_make Suc 3 Map.empty = Inr (p, h)" "pool_invar (p, h)"
    "pool_contents (p, h) = []" "pool_capacity (p, h) = 3" using three_pool by blast
  obtain s1 where s1: "mb_res_pool_push (p, h) 7 = Inr (0, s1)" "pool_invar s1" "pool_contents s1 = [7]"
    using rp.push_room [OF s(2), of 7] s(3,4) by auto
  obtain s2 where s2: "mb_res_pool_pop s1 = Inr (7, s2)" "pool_contents s2 = []"
    using res_pool_pop_refines [OF s1(2)] s1(3) by auto
  have "mb_res_pool_pop (p, h) = Inr (NULL, (p, h))" using res_pool_pop_refines [OF s(2)] s(3) by auto
  then show ?thesis using s(1) s1 s2 by blast
qed

theorem res_pool_destroy_frees_all_witness:
  "\<exists>p h. mb_res_pool_make Suc 3 Map.empty = Inr (p, h) \<and> pool_invar (p, h) \<and>
     mb_res_pool_destroy (p, h) = Some (Inr (h |` (- set (pool_cells (p, h))))) \<and>
     length (pool_cells (p, h)) = 3"
proof -
  obtain p h where s: "mb_res_pool_make Suc 3 Map.empty = Inr (p, h)" "pool_invar (p, h)"
    "pool_capacity (p, h) = 3" using three_pool by blast
  from res_pool_destroy_frees_all [OF s(2)] s show ?thesis by auto
qed

end
