(* ===== verification/Affinity.thy ===== *)
theory Affinity
  imports CString
begin

section \<open>Thread affinities: parsing and printing\<close>

text \<open>
  \<open>mb_affinity_t\<close> (src/src/micbench-utils.h) with \<open>mb_make_affinity\<close>, \<open>mb_parse_affinity\<close>,
  \<open>__mb_bits_to_string\<close> and \<open>mb_affinity_to_string\<close> (src/src/micbench-utils.c). The CPU set
  of the GNU C library has 1024 bits and \<open>CPU_SET\<close> ignores a larger index. Memory bits are
  read in little-endian order, so bit \<open>i\<close> of the bytes is bit \<open>i\<close> of the mask.
\<close>

record mb_affinity =
  tid :: int
  cpumask :: "1024 word"
  nodemask :: "64 word"
  aff_optarg :: "string option"

definition mb_make_affinity :: mb_affinity where
  "mb_make_affinity = \<lparr>tid = -1, cpumask = 0, nodemask = 0, aff_optarg = None\<rparr>"

subsection \<open>Parsing\<close>

text \<open>
  The loop over the CPU bits up to the colon: the mask and the text after the colon, or no
  result where the source returns \<open>NULL\<close>; the mask built so far is kept in both cases.
\<close>

fun parse_cpumask :: "string \<Rightarrow> nat \<Rightarrow> 1024 word \<Rightarrow> 1024 word \<times> string option" where
  "parse_cpumask [] idx m = (m, None)"
| "parse_cpumask (c # str) idx m =
     (if c = CHR '':'' then (m, Some str)
      else if c = CHR ''1'' then parse_cpumask str (Suc idx) (set_bit idx m)
      else if c = CHR ''0'' then parse_cpumask str (Suc idx) m
      else (m, None))"

text \<open>
  The loop over the node bits. \<open>1 << idx\<close> is a shift of an \<open>int\<close>: it is undefined from
  index 31 on.
\<close>

fun parse_nodemask :: "string \<Rightarrow> nat \<Rightarrow> 64 word \<Rightarrow> (64 word \<times> bool) c_result" where
  "parse_nodemask [] idx m = Inr (m, True)"
| "parse_nodemask (c # str) idx m =
     (if c = CHR ''1'' then
        if idx < 31 then parse_nodemask str (Suc idx) (set_bit idx m) else Inl Undefined
      else if c = CHR ''0'' then parse_nodemask str (Suc idx) m
      else Inr (m, False))"

text \<open>
  The structure written through \<open>ret\<close> (\<open>mb_make_affinity\<close> when \<open>ret\<close> is \<open>NULL\<close>) and whether
  the pointer is returned; \<open>False\<close> stands for the return of \<open>NULL\<close>.
\<close>

definition mb_parse_affinity :: "mb_affinity \<Rightarrow> string \<Rightarrow> (mb_affinity \<times> bool) c_result" where
  "mb_parse_affinity ret arg =
     (let (v, endptr) = strtol arg; ret1 = ret\<lparr>tid := to_int v\<rparr>
      in if endptr = arg then Inr (ret1, False)
         else if endptr = [] \<or> hd endptr \<noteq> CHR '':'' then Inr (ret1, False)
         else let (m, rest) = parse_cpumask (tl endptr) 0 0; ret2 = ret1\<lparr>cpumask := m\<rparr>
              in case rest of
                   None \<Rightarrow> Inr (ret2, False)
                 | Some str \<Rightarrow>
                     bind_c (parse_nodemask str 0 0)
                       (\<lambda>(nm, ok). Inr (ret2\<lparr>nodemask := nm\<rparr>, ok)))"

subsection \<open>Printing\<close>

text \<open>One iteration of the scan: the start of the open run (-1 if none) and the text so far.\<close>

definition bits_step :: "(nat \<Rightarrow> bool) \<Rightarrow> int \<times> string \<Rightarrow> nat \<Rightarrow> int \<times> string" where
  "bits_step b st i =
     (let (start_idx, ret) = st
      in if start_idx < 0 then (if b i then (int i, ret) else st)
         else if b i then st
         else let end_idx = int i - 1;
                  ret1 = (if 0 < length ret then ret @ '','' else ret);
                  buf = (if start_idx = end_idx then show_int start_idx
                         else show_int start_idx @ ''-'' @ show_int end_idx)
              in (-1, ret1 @ buf))"

text \<open>The text is appended to a buffer of 1024 bytes; a longer text overruns it.\<close>

definition mb_bits_to_string :: "(nat \<Rightarrow> bool) \<Rightarrow> nat \<Rightarrow> string \<Rightarrow> string c_result" where
  "mb_bits_to_string b nbits ret =
     (let res = snd (foldl (bits_step b) (-1, ret) [0..<nbits])
      in if length res < 1024 then Inr res else Inl Undefined)"

text \<open>
  \<open>strcat\<close> into a block of \<open>retsize\<close> bytes: the text and its zero must fit.
\<close>

definition strcat_in :: "nat \<Rightarrow> string \<Rightarrow> string \<Rightarrow> string c_result" where
  "strcat_in retsize s t = (if length (s @ t) < retsize then Inr (s @ t) else Inl Undefined)"

definition mb_affinity_to_string :: "mb_affinity option \<Rightarrow> string option c_result" where
  "mb_affinity_to_string affinity =
     (case affinity of
        None \<Rightarrow> Inr None
      | Some a \<Rightarrow>
          (let buf = show_int (tid a) @ '':''; retsize = length buf + 1
           in bind_c (strcat_in retsize [] buf) (\<lambda>ret.
              bind_c (mb_bits_to_string (bit (cpumask a)) 1024 []) (\<lambda>buf.
              let retsize = retsize + length buf
              in bind_c (strcat_in retsize ret buf) (\<lambda>ret.
                 if nodemask a \<noteq> 0
                 then bind_c (mb_bits_to_string (bit (nodemask a)) 64 []) (\<lambda>buf.
                      let retsize = retsize + length buf + 1
                      in bind_c (strcat_in retsize ret '':'') (\<lambda>ret.
                         bind_c (strcat_in retsize ret buf) (\<lambda>ret. Inr (Some ret))))
                 else Inr (Some ret))))))"

subsection \<open>The option -a\<close>

text \<open>
  The case \<open>'a'\<close> of the option loops: \<open>affs\<close> is the array \<open>option.affinities\<close> (\<open>None\<close> for
  \<open>NULL\<close>), \<open>rest\<close> the arguments from \<open>optind\<close> on. The array has \<open>multi\<close> entries when it is
  allocated; a negative \<open>multi\<close> asks for more memory than there is, and a thread id outside the
  array is an access out of bounds. \<open>False\<close> stands for the error exit of the case.
\<close>

type_synonym affinities = "mb_affinity option list option"

definition add_affinity ::
  "int \<Rightarrow> affinities \<Rightarrow> string \<Rightarrow> string list \<Rightarrow> (affinities \<times> bool) c_result" where
  "add_affinity multi affs arg rest =
     (if ''-m'' \<in> set rest then Inr (affs, False)
      else bind_c
        (case affs of
           None \<Rightarrow> if multi < 0 then Inl Undefined else Inr (replicate (nat multi) None)
         | Some l \<Rightarrow> Inr l)
        (\<lambda>l. bind_c (mb_parse_affinity mb_make_affinity arg) (\<lambda>(aff, ok).
           if \<not> ok then Inr (Some l, False)
           else if 0 \<le> tid aff \<and> tid aff < int (length l)
           then Inr (Some (l[nat (tid aff) := Some (aff\<lparr>aff_optarg := Some arg\<rparr>)]), True)
           else Inl Undefined)))"

lemma add_affinity_length:
  assumes "add_affinity multi affs arg rest = Inr (affs', True)"
  shows "\<exists>l. affs' = Some l \<and>
    length l = (case affs of None \<Rightarrow> nat multi | Some l0 \<Rightarrow> length l0)"
  using assms unfolding add_affinity_def
  by (auto simp: bind_c_eq_Inr split: if_splits option.splits)

text \<open>Entry \<open>i\<close> of the affinity array is empty or was parsed for thread \<open>i\<close>.\<close>

definition affinities_ok :: "affinities \<Rightarrow> bool" where
  "affinities_ok affs \<longleftrightarrow>
     (case affs of None \<Rightarrow> True
      | Some l \<Rightarrow> \<forall>i < length l. case l ! i of None \<Rightarrow> True | Some a \<Rightarrow> tid a = int i)"

lemma affinities_ok_upd:
  "affinities_ok (Some l) \<Longrightarrow> 0 \<le> tid a \<Longrightarrow> affinities_ok (Some (l[nat (tid a) := Some a]))"
  unfolding affinities_ok_def
  by (cases "nat (tid a) < length l") (auto simp: nth_list_update split: option.splits if_splits)

lemma add_affinity_ok:
  assumes "affinities_ok affs" and "add_affinity multi affs arg rest = Inr (affs', ok)"
  shows "affinities_ok affs'"
proof (cases "''-m'' \<in> set rest")
  case True
  then show ?thesis using assms by (simp add: add_affinity_def)
next
  case False
  let ?store = "\<lambda>l (aff, ok'). if \<not> ok' then Inr (Some l, False)
      else if 0 \<le> tid aff \<and> tid aff < int (length l)
      then Inr (Some (l[nat (tid aff) := Some (aff\<lparr>aff_optarg := Some arg\<rparr>)]), True)
      else Inl Undefined"
  obtain l where l: "affinities_ok (Some l)"
    and eq: "bind_c (mb_parse_affinity mb_make_affinity arg) (?store l) = Inr (affs', ok)"
  proof (cases affs)
    case None
    have "bind_c (mb_parse_affinity mb_make_affinity arg) (?store (replicate (nat multi) None)) =
        Inr (affs', ok)"
      using assms(2) False unfolding add_affinity_def None by (simp split: if_splits)
    then show ?thesis by (intro that [of "replicate (nat multi) None"]) (simp add: affinities_ok_def)
  next
    case (Some l)
    have "bind_c (mb_parse_affinity mb_make_affinity arg) (?store l) = Inr (affs', ok)"
      using assms(2) False unfolding add_affinity_def Some by simp
    then show ?thesis using that [of l] assms(1) Some by simp
  qed
  then obtain aff ok' where "?store l (aff, ok') = Inr (affs', ok)"
    unfolding bind_c_eq_Inr by fastforce
  then show ?thesis
    using l affinities_ok_upd [of l "aff\<lparr>aff_optarg := Some arg\<rparr>"] by (auto split: if_splits)
qed

subsection \<open>Facts about parsing\<close>

definition bits_text :: "bool list \<Rightarrow> string" where
  "bits_text bs = map (\<lambda>b. if b then CHR ''1'' else CHR ''0'') bs"

text \<open>\<open>bits_added m' m idx bs\<close>: \<open>m'\<close> is \<open>m\<close> with the bits \<open>bs\<close> added from index \<open>idx\<close> on.\<close>

definition bits_added :: "'a::len word \<Rightarrow> 'a word \<Rightarrow> nat \<Rightarrow> bool list \<Rightarrow> bool" where
  "bits_added m' m idx bs \<longleftrightarrow>
     (\<forall>i < LENGTH('a). bit m' i \<longleftrightarrow> bit m i \<or> (idx \<le> i \<and> i < idx + length bs \<and> bs ! (i - idx)))"

lemma bits_added_Nil [simp]: "bits_added m m idx []"
  by (auto simp: bits_added_def)

lemma bits_added_Cons:
  fixes m :: "'a::len word"
  assumes "bits_added m' (if b then set_bit idx m else m) (Suc idx) bs"
  shows "bits_added m' m idx (b # bs)"
  unfolding bits_added_def
proof (intro allI impI)
  let ?m = "if b then set_bit idx m else m"
  fix i assume i: "i < LENGTH('a)"
  have bits: "bit m' i \<longleftrightarrow>
      bit ?m i \<or> (Suc idx \<le> i \<and> i < Suc idx + length bs \<and> bs ! (i - Suc idx))"
    using assms i by (simp add: bits_added_def)
  show "bit m' i \<longleftrightarrow> bit m i \<or> (idx \<le> i \<and> i < idx + length (b # bs) \<and> (b # bs) ! (i - idx))"
  proof (cases "i = idx")
    case True
    then show ?thesis using bits i by (simp add: bit_set_bit_iff)
  next
    case False
    then have "bit ?m i \<longleftrightarrow> bit m i" by (simp add: bit_set_bit_iff)
    then show ?thesis using bits False nth_Cons_diff [of idx i b bs] by auto
  qed
qed

lemma parse_cpumask_bits:
  "\<exists>m'. parse_cpumask (bits_text bs @ CHR '':'' # str) idx m = (m', Some str) \<and>
        bits_added m' m idx bs"
proof (induction bs arbitrary: idx m)
  case Nil
  then show ?case by (auto simp: bits_text_def)
next
  case (Cons b bs)
  let ?m = "if b then set_bit idx m else m"
  obtain m' where m': "parse_cpumask (bits_text bs @ CHR '':'' # str) (Suc idx) ?m = (m', Some str)"
    "bits_added m' ?m (Suc idx) bs" using Cons.IH by blast
  from m'(1) have "parse_cpumask (bits_text (b # bs) @ CHR '':'' # str) idx m = (m', Some str)"
    by (auto simp: bits_text_def)
  with bits_added_Cons [OF m'(2)] show ?case by blast
qed

lemma parse_nodemask_bits:
  "\<forall>k < length bs. bs ! k \<longrightarrow> idx + k < 31 \<Longrightarrow>
   \<exists>m'. parse_nodemask (bits_text bs) idx m = Inr (m', True) \<and> bits_added m' m idx bs"
proof (induction bs arbitrary: idx m)
  case Nil
  then show ?case by (auto simp: bits_text_def)
next
  case (Cons b bs)
  let ?m = "if b then set_bit idx m else m"
  have "\<forall>k < length bs. bs ! k \<longrightarrow> Suc idx + k < 31" using Cons.prems by fastforce
  then obtain m' where m': "parse_nodemask (bits_text bs) (Suc idx) ?m = Inr (m', True)"
    "bits_added m' ?m (Suc idx) bs" using Cons.IH [of "Suc idx" ?m] by auto
  have "b \<Longrightarrow> idx < 31" using Cons.prems by fastforce
  then have "parse_nodemask (bits_text (b # bs)) idx m = Inr (m', True)"
    using m'(1) by (auto simp: bits_text_def)
  with bits_added_Cons [OF m'(2)] show ?case by blast
qed

text \<open>A set bit at index 31 or above is a shift out of \<open>int\<close>.\<close>

lemma parse_nodemask_overflow:
  "31 \<le> k \<Longrightarrow> k < idx + length bs \<Longrightarrow> idx \<le> k \<Longrightarrow> bs ! (k - idx) \<Longrightarrow>
   parse_nodemask (bits_text bs) idx m = Inl Undefined"
proof (induction bs arbitrary: idx m)
  case Nil
  then show ?case by simp
next
  case (Cons b bs)
  show ?case
  proof (cases "k = idx")
    case True
    then show ?thesis using Cons.prems by (simp add: bits_text_def)
  next
    case False
    then have "bs ! (k - Suc idx)" using Cons.prems nth_Cons_diff [of idx k b bs] by simp
    then have "parse_nodemask (bits_text bs) (Suc idx) m' = Inl Undefined" for m'
      using Cons.IH [of "Suc idx" m'] Cons.prems False by simp
    then show ?thesis by (simp add: bits_text_def)
  qed
qed

subsection \<open>Facts about printing\<close>

definition show_range :: "nat \<times> nat \<Rightarrow> string" where
  "show_range r = (let (s, e) = r
     in if s = e then show_int (int s) else show_int (int s) @ ''-'' @ show_int (int e))"

fun join_comma :: "string list \<Rightarrow> string" where
  "join_comma [] = []"
| "join_comma [x] = x"
| "join_comma (x # xs) = x @ '','' @ join_comma xs"

definition covers :: "(nat \<times> nat) list \<Rightarrow> nat \<Rightarrow> bool" where
  "covers rs i \<longleftrightarrow> (\<exists>(s, e) \<in> set rs. s \<le> i \<and> i \<le> e)"

text \<open>Maximal runs in order: each is non-empty and the next starts beyond the gap after it.\<close>

definition separated :: "(nat \<times> nat) list \<Rightarrow> bool" where
  "separated rs \<longleftrightarrow> (\<forall>(s, e) \<in> set rs. s \<le> e) \<and> sorted_wrt (\<lambda>r r'. snd r + 1 < fst r') rs"

lemma join_comma_snoc:
  "join_comma (xs @ [x]) = (if xs = [] then x else join_comma xs @ '','' @ x)"
  by (induction xs rule: join_comma.induct) auto

lemma show_range_nonempty [simp]: "show_range r \<noteq> []"
  by (cases r) (auto simp: show_range_def show_int_def)

lemma join_comma_empty: "[] \<notin> set xs \<Longrightarrow> join_comma xs = [] \<longleftrightarrow> xs = []"
  by (induction xs rule: join_comma.induct) auto

text \<open>
  The state of the scan after \<open>n\<close> bits: the closed runs \<open>rs\<close> are printed and hold exactly
  the set bits below \<open>lim\<close>; an open run reaches from \<open>lim\<close> to \<open>n\<close>.
\<close>

definition scan_inv :: "(nat \<Rightarrow> bool) \<Rightarrow> nat \<Rightarrow> (nat \<times> nat) list \<Rightarrow> int \<times> string \<Rightarrow> bool" where
  "scan_inv b n rs st \<longleftrightarrow>
     (let (start, ret) = st; lim = (if start < 0 then n else nat start)
      in ret = join_comma (map show_range rs) \<and> separated rs \<and>
         (\<forall>(s, e) \<in> set rs. e + 1 < lim) \<and> (\<forall>i. covers rs i \<longleftrightarrow> i < lim \<and> b i) \<and>
         lim \<le> n \<and> (0 < lim \<longrightarrow> \<not> b (lim - 1)) \<and>
         (0 \<le> start \<longrightarrow> lim < n \<and> (\<forall>i. lim \<le> i \<and> i < n \<longrightarrow> b i)))"

lemma scan_inv_init: "scan_inv b 0 [] (-1, [])"
  by (simp add: scan_inv_def separated_def covers_def)

lemma scan_inv_step:
  assumes "scan_inv b n rs st"
  shows "\<exists>rs'. scan_inv b (Suc n) rs' (bits_step b st n)"
proof -
  obtain start ret where st: "st = (start, ret)" by (cases st)
  consider "start < 0" "\<not> b n" | "start < 0" "b n" | "\<not> start < 0" "b n" | "\<not> start < 0" "\<not> b n"
    by blast
  then show ?thesis
  proof cases
    case 4
    define s where "s = nat start"
    have s: "start = int s" "s < n" using 4 assms by (auto simp: s_def scan_inv_def st Let_def)
    have inv: "ret = join_comma (map show_range rs)" "separated rs"
      "\<forall>(s', e) \<in> set rs. e + 1 < s" "\<forall>i. covers rs i \<longleftrightarrow> i < s \<and> b i"
      "\<forall>i. s \<le> i \<and> i < n \<longrightarrow> b i"
      using assms 4 by (auto simp: scan_inv_def st Let_def s_def)
    let ?rs = "rs @ [(s, n - 1)]"
    have "[] \<notin> set (map show_range rs)" by (auto simp del: map_map) (metis show_range_nonempty)
    then have "ret = [] \<longleftrightarrow> rs = []" using inv(1) join_comma_empty by auto
    then have "snd (bits_step b st n) = join_comma (map show_range ?rs)"
      using 4 s inv(1)
      by (auto simp: bits_step_def st join_comma_snoc show_range_def of_nat_diff Let_def)
    moreover have "fst (bits_step b st n) = -1" using 4 by (simp add: bits_step_def st Let_def)
    moreover have "separated ?rs" using inv(2,3) s by (auto simp: separated_def sorted_wrt_append)
    moreover have "\<forall>(s', e) \<in> set ?rs. e + 1 < Suc n" using inv(3) s by auto
    moreover have "\<forall>i. covers ?rs i \<longleftrightarrow> i < Suc n \<and> b i"
    proof
      fix i
      have "covers ?rs i \<longleftrightarrow> covers rs i \<or> (s \<le> i \<and> i < n)" using s by (auto simp: covers_def)
      then show "covers ?rs i \<longleftrightarrow> i < Suc n \<and> b i"
        using inv(4,5) s 4 by (metis less_Suc_eq less_trans not_le)
    qed
    ultimately have "scan_inv b (Suc n) ?rs (bits_step b st n)"
      using 4 by (cases "bits_step b st n") (simp add: scan_inv_def)
    then show ?thesis ..
  qed (use assms in \<open>auto simp: scan_inv_def bits_step_def st Let_def less_Suc_eq
        intro!: exI [of _ rs]\<close>)
qed

lemma scan_inv_scan: "\<exists>rs. scan_inv b n rs (foldl (bits_step b) (-1, []) [0..<n])"
proof (induction n)
  case 0
  show ?case using scan_inv_init by auto
next
  case (Suc n)
  then show ?case using scan_inv_step by fastforce
qed

lemma bits_to_string_runs:
  "\<exists>rs. separated rs \<and>
     (\<forall>i. covers rs i \<longleftrightarrow> i < n \<and> b i \<and> (\<exists>j. i < j \<and> j < n \<and> \<not> b j)) \<and>
     mb_bits_to_string b n [] =
       (let text = join_comma (map show_range rs)
        in if length text < 1024 then Inr text else Inl Undefined)"
proof -
  obtain start ret where st: "foldl (bits_step b) (-1, []) [0..<n] = (start, ret)"
    by (cases "foldl (bits_step b) (-1, []) [0..<n]")
  obtain rs where "scan_inv b n rs (start, ret)" using scan_inv_scan [of b n] st by auto
  moreover define lim where "lim = (if start < 0 then n else nat start)"
  ultimately have inv: "ret = join_comma (map show_range rs)" "separated rs"
    "\<forall>i. covers rs i \<longleftrightarrow> i < lim \<and> b i" "lim \<le> n" "0 < lim \<longrightarrow> \<not> b (lim - 1)"
    "0 \<le> start \<longrightarrow> (\<forall>i. lim \<le> i \<and> i < n \<longrightarrow> b i)"
    by (auto simp: scan_inv_def Let_def)
  have "i < lim \<and> b i \<longleftrightarrow> i < n \<and> b i \<and> (\<exists>j. i < j \<and> j < n \<and> \<not> b j)" for i
  proof
    assume i: "i < lim \<and> b i"
    moreover from this inv(5) have "i \<noteq> lim - 1" "\<not> b (lim - 1)" by auto
    ultimately show "i < n \<and> b i \<and> (\<exists>j. i < j \<and> j < n \<and> \<not> b j)"
      using inv(4) by (intro conjI exI [of _ "lim - 1"]) auto
  next
    assume i: "i < n \<and> b i \<and> (\<exists>j. i < j \<and> j < n \<and> \<not> b j)"
    then obtain j where j: "i < j" "j < n" "\<not> b j" by blast
    have "i < lim"
    proof (cases "start < 0")
      case True
      then show ?thesis using i by (simp add: lim_def)
    next
      case False
      then show ?thesis using inv(6) j by (metis leI less_imp_le order_trans)
    qed
    then show "i < lim \<and> b i" using i by simp
  qed
  with inv(1-3) st show ?thesis
    by (intro exI [of _ rs]) (simp add: mb_bits_to_string_def Let_def)
qed

lemma clear_last_bit:
  "\<not> b k \<Longrightarrow> (i < Suc k \<and> b i \<and> (\<exists>j. i < j \<and> j < Suc k \<and> \<not> b j)) \<longleftrightarrow> i < Suc k \<and> b i"
  by (auto simp: less_Suc_eq)

lemma bits_step_clear:
  "(\<And>i. i \<in> set xs \<Longrightarrow> \<not> b i) \<Longrightarrow> foldl (bits_step b) (-1, s) xs = (-1, s)"
  by (induction xs) (simp_all add: bits_step_def)

lemma bits_to_string_single:
  assumes "\<And>i. i < n \<Longrightarrow> b i \<longleftrightarrow> i = k" and "Suc k < n" and "length (show_int (int k)) < 1024"
  shows "mb_bits_to_string b n [] = Inr (show_int (int k))"
proof -
  have "[0..<n] = [0..<k] @ k # Suc k # [Suc (Suc k)..<n]"
    using assms(2) upt_add_eq_append [of 0 k "n - k"] by (simp add: upt_conv_Cons)
  moreover have "foldl (bits_step b) (-1, []) [0..<k] = (-1, [])"
    using assms(1,2) by (intro bits_step_clear) auto
  moreover have "foldl (bits_step b) (-1, s) [Suc (Suc k)..<n] = (-1, s)" for s
    using assms(1,2) by (intro bits_step_clear) auto
  ultimately show ?thesis
    using assms by (simp add: mb_bits_to_string_def bits_step_def)
qed

lemma affinity_to_string_eq:
  "mb_affinity_to_string (Some a) =
     bind_c (mb_bits_to_string (bit (cpumask a)) 1024 []) (\<lambda>cpus.
       if nodemask a = 0 then Inr (Some (show_int (tid a) @ '':'' @ cpus))
       else bind_c (mb_bits_to_string (bit (nodemask a)) 64 []) (\<lambda>nodes.
              Inr (Some (show_int (tid a) @ '':'' @ cpus @ '':'' @ nodes))))"
  by (cases "mb_bits_to_string (bit (cpumask a)) 1024 []";
      cases "mb_bits_to_string (bit (nodemask a)) 64 []")
    (simp_all add: mb_affinity_to_string_def strcat_in_def Let_def)

lemma parse_affinity_format:
  assumes "in_long t" and "\<forall>k < length ns. ns ! k \<longrightarrow> k < 31"
  shows "\<exists>cm nm. mb_parse_affinity ret
             (show_int t @ '':'' @ bits_text cs @ '':'' @ bits_text ns) =
           Inr (ret\<lparr>tid := to_int t, cpumask := cm, nodemask := nm\<rparr>, True) \<and>
         bits_added cm 0 0 cs \<and> bits_added nm 0 0 ns"
proof -
  let ?rest = "CHR '':'' # bits_text cs @ CHR '':'' # bits_text ns"
  let ?arg = "show_int t @ ?rest"
  have "\<not> c_isdigit (CHR '':'')" by (simp add: c_isdigit_def)
  then have str: "strtol ?arg = (t, ?rest)" using assms(1) by (intro strtol_show_int) auto
  have ne: "?rest \<noteq> ?arg" by (simp add: show_int_def)
  obtain cm where cm: "parse_cpumask (bits_text cs @ CHR '':'' # bits_text ns) 0 0 =
      (cm, Some (bits_text ns))" "bits_added cm 0 0 cs"
    using parse_cpumask_bits by blast
  obtain nm where nm: "parse_nodemask (bits_text ns) 0 0 = Inr (nm, True)" "bits_added nm 0 0 ns"
    using parse_nodemask_bits [of ns 0 0] assms(2) by auto
  have "mb_parse_affinity ret ?arg =
      Inr (ret\<lparr>tid := to_int t, cpumask := cm, nodemask := nm\<rparr>, True)"
    unfolding mb_parse_affinity_def str using ne cm(1) nm(1) by simp
  with cm(2) nm(2) show ?thesis by auto
qed

text \<open>The runs that are printed of the nodes: the last bit of the mask is never among them.\<close>

lemma node_runs:
  fixes nm :: "64 word"
  assumes "bits_added nm 0 0 ns" and "\<forall>k < length ns. ns ! k \<longrightarrow> k < 31" and "separated rs"
    and "\<forall>i. covers rs i \<longleftrightarrow> i < 64 \<and> bit nm i \<and> (\<exists>j. i < j \<and> j < 64 \<and> \<not> bit nm j)"
  shows "\<forall>i. covers rs i \<longleftrightarrow> i < length ns \<and> ns ! i" and "rs = [] \<longleftrightarrow> nm = 0"
proof -
  have nbit: "bit nm i \<longleftrightarrow> i < length ns \<and> ns ! i" if "i < 64" for i
    using assms(1) that by (simp add: bits_added_def)
  have "\<not> bit nm 63" using nbit [of 63] assms(2) by auto
  then have covers: "covers rs i \<longleftrightarrow> i < 64 \<and> bit nm i" for i
    using assms(4) clear_last_bit [of "bit nm" 63 i] by simp
  show nodes: "\<forall>i. covers rs i \<longleftrightarrow> i < length ns \<and> ns ! i"
    using covers nbit assms(2) by fastforce
  show "rs = [] \<longleftrightarrow> nm = 0"
  proof
    assume "rs = []"
    then have "\<not> bit nm i" if "i < 64" for i using nbit [OF that] nodes by (simp add: covers_def)
    then show "nm = 0" by (intro bit_word_eqI) simp
  next
    assume "nm = 0"
    then have "\<not> covers rs i" for i using assms(4) by simp
    then show "rs = []" using assms(3) by (cases rs) (force simp: covers_def separated_def)+
  qed
qed

text \<open>A node list is accepted exactly if its characters from index 31 on are 0.\<close>

lemma parse_affinity_overflow:
  assumes "in_long t" and "31 \<le> k" and "k < length ns" and "ns ! k"
  shows "mb_parse_affinity ret (show_int t @ '':'' @ bits_text cs @ '':'' @ bits_text ns) =
         Inl Undefined"
proof -
  let ?rest = "CHR '':'' # bits_text cs @ CHR '':'' # bits_text ns"
  let ?arg = "show_int t @ ?rest"
  have "\<not> c_isdigit (CHR '':'')" by (simp add: c_isdigit_def)
  then have str: "strtol ?arg = (t, ?rest)" using assms(1) by (intro strtol_show_int) auto
  have ne: "?rest \<noteq> ?arg" by (simp add: show_int_def)
  obtain cm where cm: "parse_cpumask (bits_text cs @ CHR '':'' # bits_text ns) 0 0 =
      (cm, Some (bits_text ns))"
    using parse_cpumask_bits by blast
  have nm: "parse_nodemask (bits_text ns) 0 0 = Inl Undefined"
    using parse_nodemask_overflow [of k 0 ns] assms by simp
  have "mb_parse_affinity ret ?arg = Inl Undefined"
    unfolding mb_parse_affinity_def str using ne cm nm by simp
  then show ?thesis by simp
qed

subsection \<open>Properties\<close>

text \<open>
  C32: \<open>mb_parse_affinity\<close> on \<open>tid:cpubits:nodebits\<close>, with any bit strings and at most 31
  node bits, returns the structure with that thread id (converted to \<open>pid_t\<close>), with CPU \<open>i\<close>
  in the mask exactly if character \<open>i\<close> of the CPU bits is 1 (below 1024), and node \<open>i\<close>
  likewise.
\<close>

theorem mb_parse_affinity_masks:
  assumes "in_long t" and "length ns \<le> 31"
  shows "\<exists>a. mb_parse_affinity ret
             (show_int t @ '':'' @ bits_text cs @ '':'' @ bits_text ns) = Inr (a, True) \<and>
           tid a = to_int t \<and>
           (\<forall>i < 1024. bit (cpumask a) i \<longleftrightarrow> i < length cs \<and> cs ! i) \<and>
           (\<forall>i < 64. bit (nodemask a) i \<longleftrightarrow> i < length ns \<and> ns ! i)"
  using parse_affinity_format [OF assms(1), of ns ret cs] assms(2) by (force simp: bits_added_def)

text \<open>
  A node bit set at index 31 or above is undefined behaviour: the source shifts an
  \<open>int\<close> although the mask is an \<open>unsigned long\<close>.
\<close>

theorem mb_parse_affinity_node_overflow:
  assumes "in_long t" and "31 \<le> k" and "k < length ns" and "ns ! k"
  shows "mb_parse_affinity ret (show_int t @ '':'' @ bits_text cs @ '':'' @ bits_text ns) =
         Inl Undefined"
  using assms by (rule parse_affinity_overflow)

text \<open>
  \<open>__mb_bits_to_string\<close> prints, as comma-separated numbers and ranges in increasing
  order, the maximal runs of set bits that are followed by a clear bit below \<open>nbits\<close>; a run
  that reaches the last bit is not printed. It overruns its 1024-byte buffer exactly if the
  text is longer than 1023 characters.
\<close>

theorem mb_bits_to_string_prints_runs:
  "\<exists>rs. separated rs \<and>
     (\<forall>i. covers rs i \<longleftrightarrow> i < n \<and> b i \<and> (\<exists>j. i < j \<and> j < n \<and> \<not> b j)) \<and>
     mb_bits_to_string b n [] =
       (let text = join_comma (map show_range rs)
        in if length text < 1024 then Inr text else Inl Undefined)"
  by (rule bits_to_string_runs)

text \<open>
  C33: what \<open>mb_affinity_to_string\<close> prints for an argument \<open>tid:cpubits:nodebits\<close> that was parsed,
  with bit strings of any length. It prints the thread, then the maximal runs of the CPUs whose
  character was 1, but for a run that reaches the last CPU of the set (1023), then the maximal runs
  of exactly the nodes whose character was 1, and leaves the last part out if there is none. If one of the
  two lists is longer than 1023 characters it overruns its buffer; otherwise the text fits the block it is built in.
\<close>

theorem affinity_parse_print:
  assumes "in_int t"
    and "mb_parse_affinity ret (show_int t @ '':'' @ bits_text cs @ '':'' @ bits_text ns) =
         Inr (a, True)"
  shows "\<exists>rs rs'. separated rs \<and>
         (\<forall>i. covers rs i \<longleftrightarrow> i < 1024 \<and> i < length cs \<and> cs ! i \<and>
            (\<exists>j. i < j \<and> j < 1024 \<and> \<not> (j < length cs \<and> cs ! j))) \<and>
         separated rs' \<and> (\<forall>i. covers rs' i \<longleftrightarrow> i < length ns \<and> ns ! i) \<and>
         mb_affinity_to_string (Some a) =
           (let cpus = join_comma (map show_range rs); nodes = join_comma (map show_range rs')
            in if length cpus < 1024 \<and> length nodes < 1024
               then Inr (Some (show_int t @ '':'' @ cpus @ (if rs' = [] then [] else '':'' @ nodes)))
               else Inl Undefined)"
proof -
  have long: "in_long t" using assms(1) by (simp add: in_int_def in_long_def)
  then have low: "\<forall>k < length ns. ns ! k \<longrightarrow> k < 31"
    using parse_affinity_overflow [of t _ ns ret cs] assms(2) by (metis Inl_Inr_False not_less)
  then obtain cm nm where "a = ret\<lparr>tid := to_int t, cpumask := cm, nodemask := nm\<rparr>"
    and add: "bits_added cm 0 0 cs" "bits_added nm 0 0 ns"
    using parse_affinity_format [OF long low, of ret cs] assms(2) by auto
  then have a: "tid a = t" "cpumask a = cm" "nodemask a = nm"
    using assms(1) by (simp_all add: to_int_id)
  have cbit: "bit cm i \<longleftrightarrow> i < length cs \<and> cs ! i" if "i < 1024" for i
    using add(1) that by (simp add: bits_added_def)
  obtain rs where rs: "separated rs"
    "\<forall>i. covers rs i \<longleftrightarrow> i < 1024 \<and> bit cm i \<and> (\<exists>j. i < j \<and> j < 1024 \<and> \<not> bit cm j)"
    "mb_bits_to_string (bit cm) 1024 [] =
       (let text = join_comma (map show_range rs)
        in if length text < 1024 then Inr text else Inl Undefined)"
    using bits_to_string_runs by blast
  obtain rs' where rs': "separated rs'"
    "\<forall>i. covers rs' i \<longleftrightarrow> i < 64 \<and> bit nm i \<and> (\<exists>j. i < j \<and> j < 64 \<and> \<not> bit nm j)"
    "mb_bits_to_string (bit nm) 64 [] =
       (let text = join_comma (map show_range rs')
        in if length text < 1024 then Inr text else Inl Undefined)"
    using bits_to_string_runs by blast
  have cpus: "covers rs i \<longleftrightarrow> i < 1024 \<and> i < length cs \<and> cs ! i \<and>
      (\<exists>j. i < j \<and> j < 1024 \<and> \<not> (j < length cs \<and> cs ! j))" for i
    using rs(2) cbit by blast
  note nodes = node_runs [OF add(2) low rs'(1,2)]
  have "mb_affinity_to_string (Some a) =
      (let cpus = join_comma (map show_range rs); nodes = join_comma (map show_range rs')
       in if length cpus < 1024 \<and> length nodes < 1024
          then Inr (Some (show_int t @ '':'' @ cpus @ (if rs' = [] then [] else '':'' @ nodes)))
          else Inl Undefined)"
    using rs(3) rs'(3) nodes(2) unfolding affinity_to_string_eq a by (auto simp: Let_def)
  with rs(1) rs'(1) cpus nodes(1) show ?thesis by blast
qed

theorem mb_parse_affinity_masks_witness:
  "in_long 2 \<and>
   (\<exists>a. mb_parse_affinity mb_make_affinity ''2:0001:01'' = Inr (a, True) \<and> tid a = 2 \<and>
        bit (cpumask a) 3 \<and> \<not> bit (cpumask a) 0 \<and> bit (nodemask a) 1)"
proof -
  have arg: "''2:0001:01'' = show_int 2 @ '':'' @ bits_text [False, False, False, True] @ '':'' @
      bits_text [False, True]"
    by code_simp
  show ?thesis
    using mb_parse_affinity_masks
      [of 2 "[False, True]" mb_make_affinity "[False, False, False, True]"]
    unfolding arg by (auto simp: in_long_def to_int_def)
qed

theorem affinity_parse_print_witness:
  "\<exists>a rs rs'. mb_parse_affinity mb_make_affinity ''2:01:1'' = Inr (a, True) \<and>
     mb_affinity_to_string (Some a) =
       Inr (Some (show_int 2 @ '':'' @ join_comma (map show_range rs) @ '':'' @
                  join_comma (map show_range rs'))) \<and>
     covers rs 1 \<and> \<not> covers rs 0 \<and> covers rs' 0"
proof -
  have arg: "''2:01:1'' = show_int 2 @ '':'' @ bits_text [False, True] @ '':'' @ bits_text [True]"
    by code_simp
  obtain cm nm where a: "mb_parse_affinity mb_make_affinity ''2:01:1'' =
      Inr (mb_make_affinity\<lparr>tid := to_int 2, cpumask := cm, nodemask := nm\<rparr>, True)"
    and add: "bits_added cm 0 0 [False, True]" "bits_added nm 0 0 [True]"
    using parse_affinity_format [of 2 "[True]" mb_make_affinity "[False, True]"]
    unfolding arg by (auto simp: in_long_def)
  have "mb_bits_to_string (bit cm) 1024 [] = Inr (show_int (int 1))"
    using add(1) by (intro bits_to_string_single)
      (auto simp: bits_added_def nth_Cons' show_int_def show_nat.simps)
  moreover have "mb_bits_to_string (bit nm) 64 [] = Inr (show_int (int 0))"
    using add(2) by (intro bits_to_string_single)
      (auto simp: bits_added_def nth_Cons' show_int_def show_nat.simps)
  ultimately have fits: "mb_affinity_to_string
      (Some (mb_make_affinity\<lparr>tid := to_int 2, cpumask := cm, nodemask := nm\<rparr>)) \<noteq> Inl Undefined"
    by (simp add: affinity_to_string_eq)
  obtain rs rs' where print: "mb_affinity_to_string
        (Some (mb_make_affinity\<lparr>tid := to_int 2, cpumask := cm, nodemask := nm\<rparr>)) =
      (let cpus = join_comma (map show_range rs); nodes = join_comma (map show_range rs')
       in if length cpus < 1024 \<and> length nodes < 1024
          then Inr (Some (show_int 2 @ '':'' @ cpus @ (if rs' = [] then [] else '':'' @ nodes)))
          else Inl Undefined)"
    and cov: "\<forall>i. covers rs i \<longleftrightarrow> i < 1024 \<and> i < length [False, True] \<and> [False, True] ! i \<and>
      (\<exists>j. i < j \<and> j < 1024 \<and> \<not> (j < length [False, True] \<and> [False, True] ! j))"
    "\<forall>i. covers rs' i \<longleftrightarrow> i < length [True] \<and> [True] ! i"
    using affinity_parse_print [of 2 mb_make_affinity "[False, True]" "[True]"
        "mb_make_affinity\<lparr>tid := to_int 2, cpumask := cm, nodemask := nm\<rparr>"] a
    unfolding arg by (auto simp: in_int_def)
  have "(1 :: nat) < 2 \<and> (2 :: nat) < 1024 \<and> \<not> ((2 :: nat) < length [False, True] \<and> [False, True] ! 2)" by simp
  then have "\<exists>j. 1 < j \<and> j < 1024 \<and> \<not> (j < length [False, True] \<and> [False, True] ! j)" by blast
  then have c: "covers rs 1 \<and> \<not> covers rs 0 \<and> covers rs' 0" using cov by simp
  then have some: "rs' \<noteq> []" by (auto simp: covers_def)
  have "mb_affinity_to_string
      (Some (mb_make_affinity\<lparr>tid := to_int 2, cpumask := cm, nodemask := nm\<rparr>)) =
    Inr (Some (show_int 2 @ '':'' @ join_comma (map show_range rs) @ '':'' @ join_comma (map show_range rs')))"
    using print fits some by (simp add: Let_def split: if_splits)
  with a c show ?thesis by blast
qed

theorem mb_parse_affinity_node_overflow_witness:
  "mb_parse_affinity mb_make_affinity
     (show_int 0 @ '':'' @ bits_text [True] @ '':'' @ bits_text (replicate 31 False @ [True])) =
   Inl Undefined"
  using mb_parse_affinity_node_overflow
    [of 0 31 "replicate 31 False @ [True]" mb_make_affinity "[True]"]
  by (simp add: in_long_def nth_append)

end
