(* ===== verification/CDouble.thy ===== *)
theory CDouble
  imports Prelude Complex_Main "HOL-Library.Log_Nat"
begin

section \<open>IEEE doubles\<close>

text \<open>
  The double arithmetic of the option parser, of the run-time clocks and of the reports: a
  finite double is the rational it stands for, every operation rounds its exact result to 53
  significant bits (nearest, ties to even), and the operations the programs use follow
  IEEE 754 on infinities and NaN. The sign of a zero, subnormal numbers and overflow of the
  exponent are left out: no value here is below \<open>10^-9\<close> or above \<open>2^128\<close> in magnitude, and
  no negative zero is divided by.
\<close>

datatype c_double = Fin rat | PInf | NInf | NaN

subsection \<open>Rounding\<close>

text \<open>The exponent \<open>e\<close> with \<open>2^e \<le> a / b < 2^(e+1)\<close>, for positive \<open>a\<close> and \<open>b\<close>.\<close>

definition ratio_exp :: "int \<Rightarrow> int \<Rightarrow> int" where
  "ratio_exp a b =
     (let d = bitlen a - bitlen b
      in if (if 0 \<le> d then b * 2 ^ nat d \<le> a else b \<le> a * 2 ^ nat (- d)) then d else d - 1)"

definition round_half_even :: "int \<Rightarrow> int \<Rightarrow> int" where
  "round_half_even n d =
     (let q = n div d; r = n mod d
      in if 2 * r < d \<or> (2 * r = d \<and> even q) then q else q + 1)"

text \<open>Rounding a positive ratio \<open>a / b\<close>: scale to 53 bits, round to an integer, scale back.\<close>

definition rnd_pos :: "int \<Rightarrow> int \<Rightarrow> rat" where
  "rnd_pos a b =
     (let s = 52 - ratio_exp a b
      in if 0 \<le> s then of_int (round_half_even (a * 2 ^ nat s) b) / 2 ^ nat s
         else of_int (round_half_even a (b * 2 ^ nat (- s))) * 2 ^ nat (- s))"

definition rnd_rat :: "rat \<Rightarrow> rat" where
  "rnd_rat q =
     (if q = 0 then 0
      else let (a, b) = quotient_of \<bar>q\<bar> in sgn q * rnd_pos a b)"

subsection \<open>Operations\<close>

definition d_of_int :: "int \<Rightarrow> c_double" where
  "d_of_int i = Fin (rnd_rat (of_int i))"

fun d_add :: "c_double \<Rightarrow> c_double \<Rightarrow> c_double" where
  "d_add (Fin x) (Fin y) = Fin (rnd_rat (x + y))"
| "d_add NaN y = NaN"
| "d_add x NaN = NaN"
| "d_add PInf NInf = NaN"
| "d_add NInf PInf = NaN"
| "d_add PInf y = PInf"
| "d_add NInf y = NInf"
| "d_add x PInf = PInf"
| "d_add x NInf = NInf"

fun d_neg :: "c_double \<Rightarrow> c_double" where
  "d_neg (Fin x) = Fin (- x)"
| "d_neg PInf = NInf"
| "d_neg NInf = PInf"
| "d_neg NaN = NaN"

definition d_sub :: "c_double \<Rightarrow> c_double \<Rightarrow> c_double" where
  "d_sub x y = d_add x (d_neg y)"

definition d_inf :: "bool \<Rightarrow> c_double" where
  "d_inf neg = (if neg then NInf else PInf)"

fun d_mul :: "c_double \<Rightarrow> c_double \<Rightarrow> c_double" where
  "d_mul (Fin x) (Fin y) = Fin (rnd_rat (x * y))"
| "d_mul NaN y = NaN"
| "d_mul x NaN = NaN"
| "d_mul (Fin x) y = (if x = 0 then NaN else d_inf ((x < 0) = (y = PInf)))"
| "d_mul x (Fin y) = (if y = 0 then NaN else d_inf ((y < 0) = (x = PInf)))"
| "d_mul x y = d_inf (x \<noteq> y)"

fun d_div :: "c_double \<Rightarrow> c_double \<Rightarrow> c_double" where
  "d_div (Fin x) (Fin y) =
     (if y = 0 then (if x = 0 then NaN else d_inf (x < 0)) else Fin (rnd_rat (x / y)))"
| "d_div NaN y = NaN"
| "d_div x NaN = NaN"
| "d_div (Fin x) y = Fin 0"
| "d_div x (Fin y) = d_inf ((y < 0) = (x = PInf))"
| "d_div x y = NaN"

fun d_less :: "c_double \<Rightarrow> c_double \<Rightarrow> bool" where
  "d_less (Fin x) (Fin y) \<longleftrightarrow> x < y"
| "d_less NInf (Fin y) \<longleftrightarrow> True"
| "d_less NInf PInf \<longleftrightarrow> True"
| "d_less (Fin x) PInf \<longleftrightarrow> True"
| "d_less x y \<longleftrightarrow> False"

subsection \<open>Facts about rounding\<close>

lemma round_half_even_exact [simp]: "0 < d \<Longrightarrow> round_half_even (k * d) d = k"
  by (simp add: round_half_even_def)

lemma round_half_even_one [simp]: "round_half_even n 1 = n"
  by (simp add: round_half_even_def)

lemma bitlen_less_power: "0 \<le> n \<Longrightarrow> n < 2 ^ k \<Longrightarrow> bitlen n \<le> int k"
  by (cases "n = 0") (simp_all add: bitlen_le_iff_power)

lemma ratio_exp_int_le:
  assumes "0 < a" and "a < 2 ^ 53"
  shows "ratio_exp a 1 \<le> 52"
proof -
  have b: "bitlen (1::int) = 1" by (simp add: bitlen_def floorlog_def)
  have "bitlen a \<le> 53" using assms bitlen_less_power [of a 53] by simp
  then show ?thesis unfolding ratio_exp_def Let_def b by auto
qed

lemma rnd_pos_small_int: "0 < a \<Longrightarrow> a < 2 ^ 53 \<Longrightarrow> rnd_pos a 1 = of_int a"
  using ratio_exp_int_le [of a] by (simp add: rnd_pos_def Let_def)

lemma quotient_of_of_int: "quotient_of (rat_of_int n) = (n, 1)"
  by (simp add: of_int_rat quotient_of_Fract)

text \<open>An integer of at most 53 bits is a double.\<close>

lemma rnd_rat_small_int:
  assumes "\<bar>i\<bar> < 2 ^ 53"
  shows "rnd_rat (of_int i) = of_int i"
proof (cases "i = 0")
  case True
  then show ?thesis by (simp add: rnd_rat_def)
next
  case False
  have q: "quotient_of \<bar>rat_of_int i\<bar> = (\<bar>i\<bar>, 1)"
    using quotient_of_of_int [of "\<bar>i\<bar>"] by simp
  have "sgn (rat_of_int i) * of_int \<bar>i\<bar> = of_int i"
    by (simp add: sgn_mult_abs)
  then show ?thesis
    using False assms rnd_pos_small_int [of "\<bar>i\<bar>"] by (simp add: rnd_rat_def q)
qed

lemma d_of_int_small: "\<bar>i\<bar> < 2 ^ 53 \<Longrightarrow> d_of_int i = Fin (of_int i)"
  by (simp add: d_of_int_def rnd_rat_small_int)


subsection \<open>The error of rounding\<close>

lemma round_half_even_error:
  assumes "0 < d"
  shows "2 * \<bar>d * round_half_even n d - n\<bar> \<le> d"
proof -
  have n: "n = d * (n div d) + n mod d" and r: "0 \<le> n mod d" "n mod d < d"
    using assms by simp_all
  have "round_half_even n d = n div d \<and> 2 * (n mod d) \<le> d \<or>
        round_half_even n d = n div d + 1 \<and> d \<le> 2 * (n mod d)"
    unfolding round_half_even_def Let_def by auto
  then show ?thesis
  proof
    assume "round_half_even n d = n div d \<and> 2 * (n mod d) \<le> d"
    then have "d * round_half_even n d = d * (n div d)" "2 * (n mod d) \<le> d" by simp_all
    then have "d * round_half_even n d - n = - (n mod d)" "2 * (n mod d) \<le> d"
      using n by linarith+
    then show ?thesis using r by simp
  next
    assume "round_half_even n d = n div d + 1 \<and> d \<le> 2 * (n mod d)"
    then have "d * round_half_even n d = d * (n div d) + d" "d \<le> 2 * (n mod d)"
      by (simp_all add: distrib_left)
    then have "d * round_half_even n d - n = d - n mod d" "d \<le> 2 * (n mod d)"
      using n by linarith+
    then show ?thesis using r by simp
  qed
qed

lemma bitlen_gt_zero: "0 < n \<Longrightarrow> 0 < bitlen n"
  using bitlen_eq_zero_iff [of n] bitlen_nonneg [of n] by linarith

lemma ratio_exp_le:
  assumes "0 < a" and "0 < b"
  shows "2 powi ratio_exp a b \<le> rat_of_int a / of_int b"
proof -
  define d where "d = bitlen a - bitlen b"
  have pos: "0 < rat_of_int b" using assms(2) by simp
  show ?thesis
  proof (cases "if 0 \<le> d then b * 2 ^ nat d \<le> a else b \<le> a * 2 ^ nat (- d)")
    case True
    have "2 powi d \<le> rat_of_int a / of_int b"
    proof (cases "0 \<le> d")
      case nonneg: True
      with True have "rat_of_int (b * 2 ^ nat d) \<le> of_int a" by (simp only: of_int_le_iff if_True)
      then show ?thesis using pos nonneg by (simp add: power_int_def field_simps)
    next
      case neg: False
      with True have "rat_of_int b \<le> of_int (a * 2 ^ nat (- d))"
        by (simp only: of_int_le_iff if_False)
      then show ?thesis using pos neg by (simp add: power_int_def field_simps)
    qed
    moreover have "ratio_exp a b = d"
      using True unfolding ratio_exp_def Let_def d_def [symmetric] by (rule if_P)
    ultimately show ?thesis by simp
  next
    case False
    then have e: "ratio_exp a b = d - 1"
      unfolding ratio_exp_def Let_def d_def [symmetric] by (rule if_not_P)
    define i j where "i = nat (bitlen a - 1)" and "j = nat (bitlen b)"
    have ij: "bitlen a - 1 = int i" "bitlen b = int j"
      using bitlen_gt_zero [OF assms(1)] bitlen_gt_zero [OF assms(2)]
      by (simp_all add: i_def j_def)
    have "2 ^ i \<le> a" "b < 2 ^ j"
      using bitlen_bounds [OF assms(1)] bitlen_bounds [OF assms(2)] by (simp_all add: i_def j_def)
    then have "rat_of_int (2 ^ i) \<le> of_int a" "rat_of_int b \<le> of_int (2 ^ j)"
      by (simp_all only: of_int_le_iff)
    then have bounds: "(2::rat) ^ i \<le> of_int a" "rat_of_int b \<le> 2 ^ j" by simp_all
    have "2 powi (d - 1) = (2::rat) powi (int i - int j)"
      by (rule arg_cong [of _ _ "power_int 2"]) (use ij in \<open>simp add: d_def\<close>)
    also have "\<dots> = 2 ^ i / 2 ^ j" by (simp add: power_int_diff)
    also have "\<dots> \<le> of_int a / of_int b" using bounds pos assms(1) by (intro frac_le) auto
    finally show ?thesis unfolding e .
  qed
qed

lemma rnd_pos_error:
  assumes "0 < a" and "0 < b"
  shows "2 ^ 53 * \<bar>rnd_pos a b - of_int a / of_int b\<bar> \<le> of_int a / of_int b"
proof -
  define s where "s = 52 - ratio_exp a b"
  have pos: "0 < rat_of_int b" using assms(2) by simp
  have low: "(2::rat) powi (52 - s) \<le> of_int a / of_int b"
    using ratio_exp_le [OF assms] by (simp add: s_def)
  have err: "2 * \<bar>rnd_pos a b - of_int a / of_int b\<bar> \<le> 2 powi (- s)"
  proof (cases "0 \<le> s")
    case True
    define r where "r = round_half_even (a * 2 ^ nat s) b"
    have "rat_of_int (2 * \<bar>b * r - a * 2 ^ nat s\<bar>) \<le> of_int b"
      using round_half_even_error [OF assms(2), of "a * 2 ^ nat s"]
      unfolding r_def of_int_le_iff .
    then have "2 * \<bar>of_int b * of_int r - of_int a * 2 ^ nat s\<bar> \<le> rat_of_int b" by simp
    moreover have "of_int b * rat_of_int r - of_int a * 2 ^ nat s =
        of_int b * 2 ^ nat s * (of_int r / 2 ^ nat s - of_int a / of_int b)"
      using pos by (simp add: field_simps)
    ultimately have "of_int b * (2 ^ nat s * (2 * \<bar>of_int r / 2 ^ nat s - of_int a / of_int b\<bar>))
        \<le> rat_of_int b * 1"
      using pos by (simp add: abs_mult mult_ac)
    then have "2 ^ nat s * (2 * \<bar>of_int r / 2 ^ nat s - rat_of_int a / of_int b\<bar>) \<le> 1"
      using pos by (simp only: mult_le_cancel_left_pos)
    moreover have "rnd_pos a b = of_int r / 2 ^ nat s"
      using True by (simp add: rnd_pos_def s_def r_def Let_def)
    ultimately have "2 ^ nat s * (2 * \<bar>rnd_pos a b - rat_of_int a / of_int b\<bar>) \<le> 1" by simp
    then have "2 * \<bar>rnd_pos a b - rat_of_int a / of_int b\<bar> \<le> 1 / 2 ^ nat s"
      by (simp add: pos_le_divide_eq mult.commute)
    also have "1 / 2 ^ nat s = (2::rat) powi (- s)"
      using True by (simp add: power_int_minus power_int_nonneg_exp inverse_eq_divide)
    finally show ?thesis .
  next
    case False
    define m where "m = b * 2 ^ nat (- s)"
    define r where "r = round_half_even a m"
    have m: "0 < m" using assms(2) by (simp add: m_def)
    have "rat_of_int (2 * \<bar>m * r - a\<bar>) \<le> of_int m"
      using round_half_even_error [OF m, of a] unfolding r_def of_int_le_iff .
    then have "2 * \<bar>of_int m * of_int r - of_int a\<bar> \<le> rat_of_int m" by simp
    moreover have "of_int m * rat_of_int r - of_int a =
        of_int b * (of_int r * 2 ^ nat (- s) - of_int a / of_int b)"
      using pos by (simp add: m_def field_simps)
    ultimately have "of_int b * (2 * \<bar>of_int r * 2 ^ nat (- s) - of_int a / of_int b\<bar>)
        \<le> rat_of_int b * 2 ^ nat (- s)"
      using pos by (simp add: abs_mult m_def mult_ac)
    then have "2 * \<bar>of_int r * 2 ^ nat (- s) - rat_of_int a / of_int b\<bar> \<le> 2 ^ nat (- s)"
      using pos by (simp only: mult_le_cancel_left_pos)
    moreover have "rnd_pos a b = of_int r * 2 ^ nat (- s)"
      using False by (simp add: rnd_pos_def s_def r_def m_def Let_def)
    ultimately show ?thesis using False by (simp add: power_int_def)
  qed
  have "(2::rat) ^ 52 * 2 powi (- s) = 2 powi (52 - s)"
    using power_int_add [of "2::rat" 52 "- s"] by simp
  moreover have "(2::rat) ^ 52 * (2 * \<bar>rnd_pos a b - of_int a / of_int b\<bar>) \<le> 2 ^ 52 * 2 powi (- s)"
    using err by (intro mult_left_mono) simp_all
  ultimately have "(2::rat) ^ 52 * (2 * \<bar>rnd_pos a b - of_int a / of_int b\<bar>) \<le> of_int a / of_int b"
    using low by simp
  then show ?thesis by simp
qed

text \<open>Rounding changes a number by at most one part in \<open>2^53\<close>.\<close>

lemma rnd_rat_error: "2 ^ 53 * \<bar>rnd_rat q - q\<bar> \<le> \<bar>q\<bar>"
proof (cases "q = 0")
  case True
  then show ?thesis by (simp add: rnd_rat_def)
next
  case False
  obtain a b where ab: "quotient_of \<bar>q\<bar> = (a, b)" by fastforce
  have b: "0 < b" using quotient_of_denom_pos [OF ab] .
  have div: "\<bar>q\<bar> = of_int a / of_int b" using quotient_of_div [OF ab] .
  have "0 < rat_of_int a / of_int b" using False div by (metis zero_less_abs_iff)
  then have "0 < a" using b by (simp add: zero_less_divide_iff)
  then have "2 ^ 53 * \<bar>rnd_pos a b - \<bar>q\<bar>\<bar> \<le> \<bar>q\<bar>" using rnd_pos_error [OF _ b] div by simp
  moreover have "rnd_rat q - q = sgn q * (rnd_pos a b - \<bar>q\<bar>)"
    using False ab by (simp add: rnd_rat_def right_diff_distrib sgn_mult_abs)
  then have "\<bar>rnd_rat q - q\<bar> = \<bar>rnd_pos a b - \<bar>q\<bar>\<bar>"
    using False by (simp add: abs_mult)
  ultimately show ?thesis by simp
qed

text \<open>
  Comparing an elapsed time in seconds, computed as microseconds divided by \<open>1.0e6\<close>, with a
  whole number of seconds is exact.
\<close>

lemma usec_less_sec:
  assumes "\<bar>T\<bar> < 2 ^ 32"
  shows "rnd_rat (of_int x / 1000000) < of_int T \<longleftrightarrow> x < T * 1000000"
proof -
  define q where "q = rat_of_int x / 1000000"
  have q: "of_int x = q * 1000000" by (simp add: q_def)
  have err: "2 ^ 53 * \<bar>rnd_rat q - q\<bar> \<le> \<bar>q\<bar>" by (rule rnd_rat_error)
  have T: "\<bar>rat_of_int T\<bar> < 2 ^ 32" using assms by (metis of_int_abs of_int_less_iff of_int_numeral of_int_power)
  consider "x \<le> T * 1000000 - 1" | "x = T * 1000000" | "x \<ge> T * 1000000 + 1" by linarith
  then show ?thesis
  proof cases
    case 1
    then have "rat_of_int x \<le> of_int (T * 1000000 - 1)" by (simp only: of_int_le_iff)
    then have "q \<le> of_int T - 1 / 1000000" using q by simp
    with err T have "rnd_rat q < of_int T" by (simp add: abs_if split: if_splits)
    with 1 show ?thesis unfolding q_def by simp
  next
    case 2
    then have "q = of_int T" by (simp add: q_def)
    then have "rnd_rat q = of_int T" using assms rnd_rat_small_int [of T] by simp
    with 2 show ?thesis unfolding q_def by simp
  next
    case 3
    then have "rat_of_int x \<ge> of_int (T * 1000000 + 1)" by (simp only: of_int_le_iff)
    then have "q \<ge> of_int T + 1 / 1000000" using q by simp
    with err T have "\<not> rnd_rat q < of_int T" by (simp add: abs_if split: if_splits)
    with 3 show ?thesis unfolding q_def by simp
  qed
qed

text \<open>The same for the number of microseconds itself, which is rounded first if it is large.\<close>

lemma rnd_rat_far:
  assumes "2 ^ 53 \<le> \<bar>x\<bar>"
  shows "x < 0 \<Longrightarrow> rnd_rat (of_int x) \<le> - (2 ^ 52)" and "0 \<le> x \<Longrightarrow> 2 ^ 52 \<le> rnd_rat (of_int x)"
proof -
  define y where "y = rnd_rat (rat_of_int x)"
  have y: "2 ^ 53 * \<bar>y - of_int x\<bar> \<le> \<bar>of_int x\<bar>" unfolding y_def by (rule rnd_rat_error)
  have "rat_of_int (2 ^ 53) \<le> of_int \<bar>x\<bar>" using assms by (simp only: of_int_le_iff)
  then have x: "2 ^ 53 \<le> \<bar>rat_of_int x\<bar>" by simp
  show "rnd_rat (of_int x) \<le> - (2 ^ 52)" if "x < 0"
  proof -
    have "rat_of_int x < 0" using that by simp
    then show ?thesis using x y unfolding y_def by (simp add: abs_if split: if_splits)
  qed
  show "2 ^ 52 \<le> rnd_rat (of_int x)" if "0 \<le> x"
  proof -
    have "rat_of_int x \<ge> 0" using that by simp
    then show ?thesis using x y unfolding y_def by (simp add: abs_if split: if_splits)
  qed
qed

lemma of_int_abs_less:
  assumes "\<bar>T\<bar> < 2 ^ k"
  shows "\<bar>rat_of_int T\<bar> < 2 ^ k"
proof -
  have "rat_of_int \<bar>T\<bar> < of_int (2 ^ k)" using assms by (simp only: of_int_less_iff)
  then show ?thesis by simp
qed

lemma far_usec:
  assumes "2 ^ 53 \<le> \<bar>x\<bar>" and "\<bar>T\<bar> < (2 :: int) ^ 32"
  shows "rnd_rat (rnd_rat (of_int x) / 1000000) < of_int T \<longleftrightarrow> x < 0"
proof -
  define y where "y = rnd_rat (rat_of_int x)"
  define z where "z = rnd_rat (y / 1000000)"
  have z: "2 ^ 53 * \<bar>z - y / 1000000\<bar> \<le> \<bar>y / 1000000\<bar>" unfolding z_def by (rule rnd_rat_error)
  have T: "\<bar>rat_of_int T\<bar> < 2 ^ 32" by (rule of_int_abs_less [OF assms(2)])
  show ?thesis
  proof (cases "x < 0")
    case True
    then have "y \<le> - (2 ^ 52)" using rnd_rat_far(1) [OF assms(1)] by (simp add: y_def)
    then have "z \<le> - (2 ^ 32)" using z by (simp add: abs_if split: if_splits)
    then show ?thesis using T True unfolding z_def y_def by (simp add: abs_if split: if_splits)
  next
    case False
    then have "y \<ge> 2 ^ 52" using rnd_rat_far(2) [OF assms(1)] by (simp add: y_def)
    then have "z \<ge> 2 ^ 32" using z by (simp add: abs_if split: if_splits)
    then show ?thesis using T False unfolding z_def y_def by (simp add: abs_if split: if_splits)
  qed
qed

lemma elapsed_less:
  assumes "in_int T"
  shows "d_less (d_div (d_of_int x) (Fin 1000000)) (d_of_int T) \<longleftrightarrow> x < T * 1000000"
proof -
  have T: "\<bar>T\<bar> < 2 ^ 32" using assms by (auto simp: in_int_def abs_if)
  then have dT: "d_of_int T = Fin (of_int T)" by (intro d_of_int_small) simp
  show ?thesis
  proof (cases "\<bar>x\<bar> < 2 ^ 53")
    case True
    then show ?thesis using usec_less_sec [OF T, of x] by (simp add: d_of_int_small dT)
  next
    case False
    then have "x < 0 \<longleftrightarrow> x < T * 1000000" using T by (simp add: abs_if split: if_splits)
    then show ?thesis using far_usec [of x T] False T by (simp add: d_of_int_def [of x] dT)
  qed
qed

lemma usec_less:
  assumes "in_int T"
  shows "d_less (d_of_int x) (d_of_int (T * 1000000)) \<longleftrightarrow> x < T * 1000000"
proof -
  have T: "\<bar>T * 1000000\<bar> < 2 ^ 52" using assms by (auto simp: in_int_def abs_mult abs_if)
  then have dT: "d_of_int (T * 1000000) = Fin (of_int (T * 1000000))" by (intro d_of_int_small) simp
  show ?thesis
  proof (cases "\<bar>x\<bar> < 2 ^ 53")
    case True
    then show ?thesis by (simp add: d_of_int_small dT del: of_int_mult)
  next
    case False
    define y where "y = rnd_rat (rat_of_int x)"
    have Tr: "\<bar>rat_of_int (T * 1000000)\<bar> < 2 ^ 52" by (rule of_int_abs_less [OF T])
    have "x < 0 \<Longrightarrow> y \<le> - (2 ^ 52)" "0 \<le> x \<Longrightarrow> 2 ^ 52 \<le> y"
      using rnd_rat_far [of x] False unfolding y_def by simp_all
    then have "y < of_int (T * 1000000) \<longleftrightarrow> x < 0"
      using Tr by (cases "x < 0") (simp_all add: abs_if del: of_int_mult split: if_splits)
    moreover have "x < 0 \<longleftrightarrow> x < T * 1000000" using False T by (simp add: abs_if split: if_splits)
    ultimately show ?thesis by (simp add: d_of_int_def [of x] dT y_def del: of_int_mult)
  qed
qed

end
