(* ===== verification/Rand48.thy ===== *)
theory Rand48
  imports Prelude
begin

section \<open>Random numbers: rand48, double arithmetic and ranges\<close>

text \<open>
  The generator behind every random choice of the benchmarks: the 48-bit linear
  congruential generator of \<open>srand48_r\<close>, \<open>drand48_r\<close> and \<open>lrand48_r\<close>, the IEEE double
  arithmetic the source does on its output, and \<open>mb_rand_range_ulong\<close>,
  \<open>mb_rand_range_long\<close> and \<open>mb_rand_buf\<close> of src/src/micbench-utils.c.

  A value of \<open>drand48\<close> is \<open>x / 2^48\<close> for the new state \<open>x\<close>, so every double the source
  computes from it is kept as an integer scaled by \<open>2^48\<close>; none is subnormal or overflows,
  and rounding such a double is rounding the scaled integer to 53 significant bits.
\<close>

type_synonym rand48 = "48 word"

subsection \<open>The generator\<close>

definition rand48_next :: "rand48 \<Rightarrow> rand48" where
  "rand48_next x = 0x5DEECE66D * x + 0xB"

text \<open>\<open>srand48_r\<close> keeps the low 32 bits of the seed.\<close>

definition srand48_r :: "int \<Rightarrow> rand48" where
  "srand48_r seed = word_of_int ((seed mod 2 ^ 32) * 2 ^ 16 + 0x330E)"

text \<open>The draw of \<open>drand48_r\<close>, scaled by \<open>2^48\<close>, and of \<open>lrand48_r\<close> (31 bits).\<close>

definition drand48_r :: "rand48 \<Rightarrow> nat \<times> rand48" where
  "drand48_r x = (let x' = rand48_next x in (unat x', x'))"

definition lrand48_r :: "rand48 \<Rightarrow> int \<times> rand48" where
  "lrand48_r x = (let x' = rand48_next x in (int (unat x' div 2 ^ 17), x'))"

subsection \<open>Rounding to double\<close>

fun bit_length :: "nat \<Rightarrow> nat" where
  "bit_length n = (if n = 0 then 0 else Suc (bit_length (n div 2)))"

declare bit_length.simps [simp del]

text \<open>Round to nearest, ties to even, at 53 significant bits.\<close>

definition rnd53 :: "nat \<Rightarrow> nat" where
  "rnd53 m =
     (if m < 2 ^ 53 then m
      else let s = bit_length m - 53; q = m div 2 ^ s; r = m mod 2 ^ s
           in if 2 * r < 2 ^ s \<or> (2 * r = 2 ^ s \<and> even q) then q * 2 ^ s
              else Suc q * 2 ^ s)"

definition rnd53_int :: "int \<Rightarrow> int" where
  "rnd53_int i = sgn i * int (rnd53 (nat \<bar>i\<bar>))"

subsection \<open>Ranges\<close>

text \<open>
  \<open>ret * width + from\<close> in double arithmetic, truncated to an integer. The conversion of a
  double that does not fit the integer type is undefined.
\<close>

definition mb_rand_range_ulong ::
  "rand48 \<Rightarrow> 64 word \<Rightarrow> 64 word \<Rightarrow> (64 word \<times> rand48) c_result" where
  "mb_rand_range_ulong rand from to =
     (let width = to - from; (x, rand') = drand48_r rand;
          prod = rnd53 (x * rnd53 (unat width));
          sum = rnd53 (prod + 2 ^ 48 * rnd53 (unat from));
          v = sum div 2 ^ 48
      in if v < 2 ^ 64 then Inr (word_of_nat v, rand') else Inl Undefined)"

definition mb_rand_range_long :: "rand48 \<Rightarrow> int \<Rightarrow> int \<Rightarrow> (int \<times> rand48) c_result" where
  "mb_rand_range_long rand from to =
     (let width = to - from; (x, rand') = drand48_r rand;
          prod = rnd53_int (int x * rnd53_int width);
          sum = rnd53_int (prod + 2 ^ 48 * rnd53_int from);
          v = cdiv sum (2 ^ 48)
      in if in_long width \<and> in_long v then Inr (v, rand') else Inl Undefined)"

text \<open>
  \<open>mb_rand_buf\<close> fills the whole \<open>long\<close>s of the buffer with one draw and leaves a remainder
  of fewer than 8 bytes as it was; \<open>buf_size / sizeof(num)\<close> is an unsigned division.
\<close>

definition le_bytes :: "nat \<Rightarrow> nat \<Rightarrow> 8 word list" where
  "le_bytes n v = map (\<lambda>i. word_of_nat (v div 256 ^ i)) [0..<n]"

definition mb_rand_buf :: "rand48 \<Rightarrow> 8 word list \<Rightarrow> int \<times> 8 word list \<times> rand48" where
  "mb_rand_buf rand buf =
     (let (num, rand') = lrand48_r rand; n = length buf div 8
      in (0, concat (replicate n (le_bytes 8 (nat num))) @ drop (8 * n) buf, rand'))"

subsection \<open>Facts about rounding\<close>

lemma bit_length_bounds: "0 < n \<Longrightarrow> 2 ^ (bit_length n - 1) \<le> n \<and> n < 2 ^ bit_length n"
proof (induction n rule: bit_length.induct)
  case (1 n)
  show ?case
  proof (cases "n = 1")
    case True
    then show ?thesis by (simp add: bit_length.simps)
  next
    case False
    with "1.prems" have h: "0 < n div 2" by simp
    then have ih: "2 ^ (bit_length (n div 2) - 1) \<le> n div 2" "n div 2 < 2 ^ bit_length (n div 2)"
      using "1.IH" "1.prems" by auto
    have "bit_length (n div 2) \<noteq> 0" using h by (simp add: bit_length.simps)
    then obtain k where k: "bit_length (n div 2) = Suc k" by (metis not0_implies_Suc)
    have "bit_length n = Suc (Suc k)" using "1.prems" k by (simp add: bit_length.simps [of n])
    with ih k show ?thesis by auto
  qed
qed

lemma rnd53_small [simp]: "m < 2 ^ 53 \<Longrightarrow> rnd53 m = m"
  by (simp add: rnd53_def)

text \<open>
  The rounded value and the argument at a common shift: \<open>m = q * 2^s + r\<close> with a 53-bit \<open>q\<close>
  (or \<open>s = 0\<close>), and rounding keeps or increments \<open>q\<close>.
\<close>

lemma rnd53_shape:
  obtains s q r where "m = q * 2 ^ s + r" "r < 2 ^ s" "s \<noteq> 0 \<longrightarrow> 2 ^ 52 \<le> q"
    "rnd53 m = q * 2 ^ s \<and> 2 * r \<le> 2 ^ s \<or> rnd53 m = Suc q * 2 ^ s \<and> 2 ^ s \<le> 2 * r \<and> 0 < r"
proof (cases "m < 2 ^ 53")
  case True
  then show ?thesis by (intro that [of m 0 0]) auto
next
  case False
  define s where "s = bit_length m - 53"
  have b: "2 ^ (bit_length m - 1) \<le> m" "m < 2 ^ bit_length m"
    using False bit_length_bounds [of m] by auto
  have "(2::nat) ^ 53 < 2 ^ bit_length m" using b False by linarith
  then have "53 < bit_length m" using power_less_imp_less_exp one_less_numeral_iff
      semiring_norm(76) by blast
  then have bl: "bit_length m - 1 = 52 + s" by (simp add: s_def)
  have "2 ^ 52 * 2 ^ s \<le> m" using b(1) unfolding bl power_add .
  then have q: "2 ^ 52 \<le> m div 2 ^ s" by (simp add: less_eq_div_iff_mult_less_eq)
  let ?q = "m div 2 ^ s"
  let ?r = "m mod 2 ^ s"
  have m: "m = ?q * 2 ^ s + ?r" "?r < 2 ^ s"
    by (rule div_mult_mod_eq [symmetric], simp)
  have "rnd53 m = ?q * 2 ^ s \<and> 2 * ?r \<le> 2 ^ s \<or>
      rnd53 m = Suc ?q * 2 ^ s \<and> 2 ^ s \<le> 2 * ?r \<and> 0 < ?r"
    using False unfolding rnd53_def s_def [symmetric] Let_def by (cases "?r = 0") auto
  with m q that show ?thesis by blast
qed

lemma rnd53_error: "2 ^ 53 * rnd53 m \<le> (2 ^ 53 + 1) * m" "(2 ^ 53 - 1) * m \<le> 2 ^ 53 * rnd53 m"
proof -
  obtain s q r where m: "m = q * 2 ^ s + r" "r < 2 ^ s" and q: "s \<noteq> 0 \<longrightarrow> 2 ^ 52 \<le> q"
    and rnd: "rnd53 m = q * 2 ^ s \<and> 2 * r \<le> 2 ^ s \<or>
      rnd53 m = Suc q * 2 ^ s \<and> 2 ^ s \<le> 2 * r \<and> 0 < r"
    by (rule rnd53_shape)
  have half: "2 ^ 52 * 2 ^ s \<le> m \<or> s = 0"
    using q m(1) by (metis le_add1 mult_le_mono1 order_trans)
  from half rnd m show "2 ^ 53 * rnd53 m \<le> (2 ^ 53 + 1) * m"
    by (auto simp: algebra_simps)
  from half rnd m show "(2 ^ 53 - 1) * m \<le> 2 ^ 53 * rnd53 m"
    by (auto simp: algebra_simps)
qed

text \<open>A multiple of a power of two with at most 53 significant bits bounds what rounds to it.\<close>

lemma shifted_multiple:
  assumes "(e::nat) \<ge> s"
  shows "\<exists>j. k * 2 ^ e = j * (2::nat) ^ s"
  by (rule exI [of _ "k * 2 ^ (e - s)"]) (simp add: mult.assoc power_add [symmetric] assms)

lemma rnd53_le_representable:
  assumes "m \<le> k * 2 ^ e" and "k \<le> 2 ^ 53"
  shows "rnd53 m \<le> k * 2 ^ e"
proof -
  obtain s q r where m: "m = q * 2 ^ s + r" "r < 2 ^ s" and q: "s \<noteq> 0 \<longrightarrow> 2 ^ 52 \<le> q"
    and rnd: "rnd53 m = q * 2 ^ s \<and> 2 * r \<le> 2 ^ s \<or>
      rnd53 m = Suc q * 2 ^ s \<and> 2 ^ s \<le> 2 * r \<and> 0 < r"
    by (rule rnd53_shape)
  show ?thesis
  proof (cases "rnd53 m = q * 2 ^ s")
    case True
    then show ?thesis using m assms(1) by simp
  next
    case False
    then have up: "rnd53 m = Suc q * 2 ^ s" and r: "0 < r" using rnd by auto
    show ?thesis
    proof (cases "s \<le> e")
      case True
      then obtain j where j: "k * 2 ^ e = j * 2 ^ s" using shifted_multiple by blast
      have "q * 2 ^ s < j * 2 ^ s" using m r assms(1) j by linarith
      then have "q < j" by simp
      then have "Suc q * 2 ^ s \<le> j * 2 ^ s" by (intro mult_le_mono1) simp
      then show ?thesis using up j by simp
    next
      case False
      then obtain d where d: "s = Suc (e + d)" by (metis less_imp_Suc_add not_le)
      have "k * 2 ^ e \<le> 2 ^ 53 * 2 ^ e" using assms(2) by (rule mult_le_mono1)
      also have "\<dots> \<le> 2 ^ 52 * 2 ^ s" by (simp add: d power_add)
      also have "\<dots> \<le> q * 2 ^ s" using q False by (intro mult_le_mono1) simp
      finally show ?thesis using m r assms(1) by linarith
    qed
  qed
qed

lemma rnd53_ge_representable:
  assumes "k * 2 ^ e \<le> m" and "k \<le> 2 ^ 53"
  shows "k * 2 ^ e \<le> rnd53 m"
proof -
  obtain s q r where m: "m = q * 2 ^ s + r" "r < 2 ^ s" and q: "s \<noteq> 0 \<longrightarrow> 2 ^ 52 \<le> q"
    and rnd: "rnd53 m = q * 2 ^ s \<and> 2 * r \<le> 2 ^ s \<or>
      rnd53 m = Suc q * 2 ^ s \<and> 2 ^ s \<le> 2 * r \<and> 0 < r"
    by (rule rnd53_shape)
  have "k * 2 ^ e \<le> q * 2 ^ s"
  proof (cases "s \<le> e")
    case True
    then obtain j where j: "k * 2 ^ e = j * 2 ^ s" using shifted_multiple by blast
    have "j * 2 ^ s < Suc q * 2 ^ s" using m assms(1) j by simp
    then have "j \<le> q" by (metis less_Suc_eq_le mult_less_cancel2)
    then show ?thesis using j by simp
  next
    case False
    then obtain d where d: "s = Suc (e + d)" by (metis less_imp_Suc_add not_le)
    have "k * 2 ^ e \<le> 2 ^ 53 * 2 ^ e" using assms(2) by (rule mult_le_mono1)
    also have "\<dots> \<le> 2 ^ 52 * 2 ^ s" by (simp add: d power_add)
    also have "\<dots> \<le> q * 2 ^ s" using q False by (intro mult_le_mono1) simp
    finally show ?thesis .
  qed
  then show ?thesis using rnd by auto
qed

lemma rnd53_exact: "k \<le> 2 ^ 53 \<Longrightarrow> rnd53 (k * 2 ^ e) = k * 2 ^ e"
  by (intro order_antisym rnd53_le_representable rnd53_ge_representable) simp_all

lemma rnd53_exact_int [simp]: "k \<le> 2 ^ 53 \<Longrightarrow> rnd53 k = k"
  using rnd53_exact [of k 0] by simp

lemma rnd53_int_nonneg: "0 \<le> i \<Longrightarrow> rnd53_int i = int (rnd53 (nat i))"
  by (cases "i = 0") (simp_all add: rnd53_int_def)

subsection \<open>Facts about ranges\<close>

text \<open>The scaled arithmetic of both range functions on natural numbers.\<close>

definition range_draw :: "nat \<Rightarrow> nat \<Rightarrow> nat \<Rightarrow> nat" where
  "range_draw x w from = rnd53 (rnd53 (x * rnd53 w) + 2 ^ 48 * rnd53 from) div 2 ^ 48"

lemma range_draw_bounds:
  assumes "x < 2 ^ 48" and "from + w \<le> 2 ^ 53"
  shows "from \<le> range_draw x w from" and "range_draw x w from \<le> from + w"
proof -
  have w: "rnd53 w = w" "rnd53 from = from" using assms(2) by simp_all
  have "x * w \<le> w * 2 ^ 48" using assms(1) by (simp add: mult.commute)
  then have p: "rnd53 (x * w) \<le> w * 2 ^ 48"
    using assms(2) by (intro rnd53_le_representable) simp_all
  have "rnd53 (rnd53 (x * w) + 2 ^ 48 * from) \<le> (from + w) * 2 ^ 48"
    using p assms(2) by (intro rnd53_le_representable) (simp_all add: algebra_simps)
  then show "range_draw x w from \<le> from + w"
    unfolding range_draw_def w by (metis div_le_mono nonzero_mult_div_cancel_right
        power_not_zero zero_neq_numeral)
  have "from * 2 ^ 48 \<le> rnd53 (rnd53 (x * w) + 2 ^ 48 * from)"
    using assms(2) by (intro rnd53_ge_representable) simp_all
  then show "from \<le> range_draw x w from"
    unfolding range_draw_def w by (simp add: less_eq_div_iff_mult_less_eq)
qed

lemma range_draw_strict:
  assumes "x < 2 ^ 48" and "from + w \<le> 2 ^ 53" and "0 < w" and "from + w \<le> 16 * w"
  shows "range_draw x w from < from + w"
proof -
  have w: "rnd53 w = w" "rnd53 from = from" using assms(2) by simp_all
  define p where "p = rnd53 (x * w)"
  define t where "t = rnd53 (p + 2 ^ 48 * from)"
  have "x * w \<le> (2 ^ 48 - 1) * w" using assms(1) by (intro mult_le_mono1) simp
  then have "2 ^ 53 * p \<le> (2 ^ 53 + 1) * ((2 ^ 48 - 1) * w)"
    using rnd53_error(1) [of "x * w"] unfolding p_def
    by (meson mult_le_mono2 order_trans)
  moreover have "2 ^ 53 * t \<le> (2 ^ 53 + 1) * (p + 2 ^ 48 * from)"
    unfolding t_def by (rule rnd53_error(1))
  ultimately have "t < (from + w) * 2 ^ 48" using assms(3,4) by simp
  then show ?thesis
    unfolding range_draw_def w p_def [symmetric] t_def [symmetric]
    by (simp add: div_less_iff_less_mult)
qed

lemma unat_rand48: "unat (x :: rand48) < 2 ^ 48"
proof -
  have "unat x < 2 ^ LENGTH(48)" by (rule unsigned_less)
  then show ?thesis by simp
qed

lemma drand48_r_bound: "fst (drand48_r x) < 2 ^ 48"
  using unat_rand48 by (simp add: drand48_r_def Let_def)

lemma mb_rand_range_ulong_draw:
  assumes "unat to \<le> 2 ^ 53" and "from \<le> to"
  shows "mb_rand_range_ulong rand from to =
     Inr (word_of_nat (range_draw (unat (rand48_next rand)) (unat to - unat from) (unat from)),
          rand48_next rand)"
proof -
  have w: "unat (to - from) = unat to - unat from" using assms(2) by (simp add: unat_sub)
  have le: "unat from \<le> unat to" using assms(2) by (simp add: word_le_nat_alt)
  have "unat (rand48_next rand) < 2 ^ 48" by (rule unat_rand48)
  from range_draw_bounds(2) [OF this, of "unat from" "unat to - unat from"] assms(1) le
  have "range_draw (unat (rand48_next rand)) (unat to - unat from) (unat from) < 2 ^ 64" by simp
  then show ?thesis
    by (simp add: mb_rand_range_ulong_def drand48_r_def Let_def w range_draw_def)
qed

lemma mb_rand_range_long_draw:
  assumes "0 \<le> from" and "from \<le> to" and "to \<le> 2 ^ 53"
  shows "mb_rand_range_long rand from to =
     Inr (int (range_draw (unat (rand48_next rand)) (nat (to - from)) (nat from)),
          rand48_next rand)"
proof -
  define x where "x = unat (rand48_next rand)"
  have x: "x < 2 ^ 48" unfolding x_def by (rule unat_rand48)
  have "range_draw x (nat (to - from)) (nat from) \<le> nat from + nat (to - from)"
    using assms by (intro range_draw_bounds(2) [OF x]) (simp add: nat_add_distrib [symmetric])
  then have "in_long (int (range_draw x (nat (to - from)) (nat from)))"
    using assms by (simp add: in_long_def)
  moreover have "in_long (to - from)" using assms by (simp add: in_long_def)
  moreover have "rnd53_int (int x * rnd53_int (to - from)) =
      int (rnd53 (x * rnd53 (nat (to - from))))"
    using assms by (simp add: rnd53_int_nonneg nat_mult_distrib)
  moreover have "cdiv (int n) (2 ^ 48) = int (n div 2 ^ 48)" for n
    by (simp add: cdiv_nonneg zdiv_int)
  ultimately show ?thesis
    using assms
    by (simp add: mb_rand_range_long_def drand48_r_def Let_def x_def [symmetric]
        rnd53_int_nonneg range_draw_def nat_add_distrib nat_mult_distrib)
qed

lemma range_ulong_below:
  assumes "0 < unat to" and "unat to \<le> 2 ^ 53"
  shows "\<exists>v rand'. mb_rand_range_ulong rand 0 to = Inr (v, rand') \<and> unat v < unat to"
proof -
  have lt: "range_draw (unat (rand48_next rand)) (unat to) 0 < unat to"
    using range_draw_strict [OF unat_rand48, of 0 "unat to"] assms by simp
  moreover have "unat to < 2 ^ LENGTH(64)" by (rule unsigned_less)
  ultimately have "unat (word_of_nat (range_draw (unat (rand48_next rand)) (unat to) 0) :: 64 word)
      = range_draw (unat (rand48_next rand)) (unat to) 0"
    by (simp add: unat_of_nat)
  then show ?thesis using lt mb_rand_range_ulong_draw [OF assms(2), of 0] by simp
qed

lemma range_long_bounds:
  assumes "0 \<le> from" and "from \<le> to" and "to \<le> 2 ^ 53"
  shows "\<exists>v rand'. mb_rand_range_long rand from to = Inr (v, rand') \<and> from \<le> v \<and> v \<le> to \<and>
           (from < to \<and> to \<le> 16 * (to - from) \<longrightarrow> v < to)"
proof -
  let ?w = "nat (to - from)"
  let ?x = "unat (rand48_next rand)"
  have sum: "nat from + ?w = nat to" using assms by (simp add: nat_add_distrib [symmetric])
  then have le: "nat from + ?w \<le> 2 ^ 53" using assms by simp
  have "from \<le> int (range_draw ?x ?w (nat from))" "int (range_draw ?x ?w (nat from)) \<le> to"
    using range_draw_bounds [OF unat_rand48 le, of "rand48_next rand"] sum assms
    by (simp_all add: nat_le_iff le_nat_iff)
  moreover have "int (range_draw ?x ?w (nat from)) < to"
    if "from < to" "to \<le> 16 * (to - from)"
  proof -
    have "nat to \<le> 16 * ?w" using that assms by (simp add: nat_le_iff)
    then have "range_draw ?x ?w (nat from) < nat from + ?w"
      using that sum by (intro range_draw_strict [OF unat_rand48 le]) simp_all
    then show ?thesis using sum assms by simp
  qed
  ultimately show ?thesis using mb_rand_range_long_draw [OF assms] by blast
qed

subsection \<open>Properties\<close>

text \<open>
  C34: a draw of \<open>mb_rand_range_ulong\<close> from \<open>0\<close> up to \<open>to\<close> is always below \<open>to\<close>, rounding of
  the double arithmetic included, for every non-empty range of at most \<open>2^53\<close> values. The
  index computation of the pointer-loop shuffle relies on it.
\<close>

theorem mb_rand_range_ulong_below:
  assumes "0 < unat to" and "unat to \<le> 2 ^ 53"
  shows "\<exists>v rand'. mb_rand_range_ulong rand 0 to = Inr (v, rand') \<and> unat v < unat to"
  using assms by (rule range_ulong_below)

text \<open>
  A draw of \<open>mb_rand_range_long\<close> between \<open>from\<close> and \<open>to\<close> (block numbers up to \<open>2^53\<close>) is
  never below \<open>from\<close> and never above \<open>to\<close>, and it is strictly below \<open>to\<close> when the range is
  at least a sixteenth of \<open>to\<close>.
\<close>

theorem mb_rand_range_long_bounds:
  assumes "0 \<le> from" and "from \<le> to" and "to \<le> 2 ^ 53"
  shows "\<exists>v rand'. mb_rand_range_long rand from to = Inr (v, rand') \<and> from \<le> v \<and> v \<le> to \<and>
           (from < to \<and> to \<le> 16 * (to - from) \<longrightarrow> v < to)"
  using assms by (rule range_long_bounds)

text \<open>
  The upper bound can be reached. In a range that is narrow against its position the
  sum is rounded up to \<open>to\<close> itself, so a random block number can be one past the last block
  of the range.
\<close>

theorem mb_rand_range_long_reaches_to:
  "\<exists>rand rand'. mb_rand_range_long rand 1048576 1048577 = Inr (1048577, rand')"
proof -
  have "unat (rand48_next 0x817BB27B1744) = 0xFFFFFFFFFFFF"
    by (simp add: rand48_next_def)
  then have "mb_rand_range_long 0x817BB27B1744 1048576 1048577 =
      Inr (1048577, rand48_next 0x817BB27B1744)"
    by (simp add: mb_rand_range_long_draw range_draw_def rnd53_def Let_def bit_length.simps)
  then show ?thesis by blast
qed

theorem mb_rand_range_ulong_below_witness:
  "0 < unat (1024 :: 64 word) \<and> unat (1024 :: 64 word) \<le> 2 ^ 53 \<and>
   (\<exists>v rand'. mb_rand_range_ulong 1 0 1024 = Inr (v, rand') \<and> unat v < unat (1024 :: 64 word))"
  using mb_rand_range_ulong_below [of 1024 1] by simp

theorem mb_rand_range_long_bounds_witness:
  "(0::int) \<le> 100 \<and> (100::int) \<le> 200 \<and>
   (\<exists>v rand'. mb_rand_range_long 1 100 200 = Inr (v, rand') \<and> 100 \<le> v \<and> v < 200)"
  using mb_rand_range_long_bounds [of 100 200 1] by auto

end
