(* ===== verification/IoUtil.thy ===== *)
theory IoUtil
  imports CDouble Rand48
begin

section \<open>I/O helpers of micbench-utils\<close>

text \<open>
  The system-call wrappers of src/src/micbench-utils.h and src/src/micbench-utils.c:
  \<open>mb_readall\<close>, \<open>mb_writeall\<close>, \<open>mb_preadall\<close>, \<open>mb_pwriteall\<close>, \<open>mb_getsize\<close> and the clock
  helpers. The kernel is a parameter: a record of the system calls as functions on an
  arbitrary world \<open>'w\<close>, so nothing is assumed of it but what a hypothesis says.
\<close>

subsection \<open>The kernel\<close>

record timeval =
  tv_sec :: int
  tv_usec :: int

text \<open>
  A reading call returns \<open>ssize_t\<close> and the bytes it put at the start of the buffer it got; a
  writing call is given the bytes. The world is threaded through.
\<close>

record 'w kernel =
  k_read :: "int \<Rightarrow> 64 word \<Rightarrow> 'w \<Rightarrow> int \<times> 8 word list \<times> 'w"
  k_write :: "int \<Rightarrow> 8 word list \<Rightarrow> 'w \<Rightarrow> int \<times> 'w"
  k_pread64 :: "int \<Rightarrow> 64 word \<Rightarrow> int \<Rightarrow> 'w \<Rightarrow> int \<times> 8 word list \<times> 'w"
  k_pwrite64 :: "int \<Rightarrow> 8 word list \<Rightarrow> int \<Rightarrow> 'w \<Rightarrow> int \<times> 'w"
  k_lseek64 :: "int \<Rightarrow> int \<Rightarrow> 'w \<Rightarrow> int \<times> 'w"
  k_gettimeofday :: "'w \<Rightarrow> timeval \<times> 'w"
  k_usleep :: "int \<Rightarrow> 'w \<Rightarrow> 'w"

subsection \<open>Clocks\<close>

definition TV2LONG :: "timeval \<Rightarrow> int" where
  "TV2LONG tv = tv_sec tv * 1000000 + tv_usec tv"

definition TV2DOUBLE :: "timeval \<Rightarrow> c_double" where
  "TV2DOUBLE tv = d_add (d_of_int (tv_sec tv)) (d_div (d_of_int (tv_usec tv)) (Fin 1000000))"

definition mb_elapsed_time_from :: "('w, 'k) kernel_scheme \<Rightarrow> timeval \<Rightarrow> 'w \<Rightarrow> c_double \<times> 'w" where
  "mb_elapsed_time_from K tv w =
     (let (now, w') = k_gettimeofday K w
      in (d_div (d_of_int (TV2LONG now - TV2LONG tv)) (Fin 1000000), w'))"

definition mb_elapsed_usec_from :: "('w, 'k) kernel_scheme \<Rightarrow> timeval \<Rightarrow> 'w \<Rightarrow> int \<times> 'w" where
  "mb_elapsed_usec_from K tv w =
     (let (now, w') = k_gettimeofday K w in (TV2LONG now - TV2LONG tv, w'))"

subsection \<open>Reading and writing a whole buffer\<close>

text \<open>Bytes stored into a buffer from an offset on.\<close>

definition splice :: "'a list \<Rightarrow> nat \<Rightarrow> 'a list \<Rightarrow> 'a list" where
  "splice buf ofs bytes = take ofs buf @ bytes @ drop (ofs + length bytes) buf"

text \<open>
  The loop of \<open>mb_readall\<close>; \<open>ofs\<close> is how far \<open>buf\<close> has been advanced. The test \<open>ret < sz\<close>
  compares \<open>ssize_t\<close> with \<open>size_t\<close>, so it is unsigned: \<open>-1\<close> counts as the largest value.
  The loop may run forever (\<open>None\<close>).
\<close>

partial_function (option) readall_loop ::
  "('w, 'k) kernel_scheme \<Rightarrow> int \<Rightarrow> bool \<Rightarrow> 8 word list \<Rightarrow> nat \<Rightarrow> 64 word \<Rightarrow> 'w \<Rightarrow>
     (8 word list \<times> 'w) c_result option" where
  "readall_loop K fd continue_on_error buf ofs sz w =
     (let (ret, bytes, w') = k_read K fd sz w; buf' = splice buf ofs bytes
      in if ret = -1 \<and> \<not> continue_on_error then Some (Inl Exit_Failure)
         else if (word_of_int ret :: 64 word) < sz
         then readall_loop K fd continue_on_error buf' (ofs + nat ret) (sz - word_of_int ret) w'
         else Some (Inr (buf', w')))"

definition mb_readall ::
  "('w, 'k) kernel_scheme \<Rightarrow> int \<Rightarrow> 8 word list \<Rightarrow> 64 word \<Rightarrow> bool \<Rightarrow> 'w \<Rightarrow>
     (64 word \<times> 8 word list \<times> 'w) c_result option" where
  "mb_readall K fd buf sz continue_on_error w =
     (case readall_loop K fd continue_on_error buf 0 sz w of
        None \<Rightarrow> None
      | Some r \<Rightarrow> Some (bind_c r (\<lambda>(buf', w'). Inr (sz, buf', w'))))"

text \<open>The loop of \<open>mb_writeall\<close>: each call is given the \<open>sz\<close> bytes from \<open>ofs\<close> on.\<close>

partial_function (option) writeall_loop ::
  "('w, 'k) kernel_scheme \<Rightarrow> int \<Rightarrow> bool \<Rightarrow> 8 word list \<Rightarrow> nat \<Rightarrow> 64 word \<Rightarrow> 'w \<Rightarrow> 'w c_result option" where
  "writeall_loop K fd continue_on_error buf ofs sz w =
     (let (ret, w') = k_write K fd (take (unat sz) (drop ofs buf)) w
      in if ret = -1 \<and> \<not> continue_on_error then Some (Inl Exit_Failure)
         else if (word_of_int ret :: 64 word) < sz
         then writeall_loop K fd continue_on_error buf (ofs + nat ret) (sz - word_of_int ret) w'
         else Some (Inr w'))"

definition mb_writeall ::
  "('w, 'k) kernel_scheme \<Rightarrow> int \<Rightarrow> 8 word list \<Rightarrow> 64 word \<Rightarrow> bool \<Rightarrow> 'w \<Rightarrow> (64 word \<times> 'w) c_result option" where
  "mb_writeall K fd buf sz continue_on_error w =
     (case writeall_loop K fd continue_on_error buf 0 sz w of
        None \<Rightarrow> None
      | Some r \<Rightarrow> Some (bind_c r (\<lambda>w'. Inr (sz, w'))))"

text \<open>
  The positioned variants make one call; a short count is only reported on the error stream.
\<close>

definition mb_preadall ::
  "('w, 'k) kernel_scheme \<Rightarrow> int \<Rightarrow> 8 word list \<Rightarrow> 64 word \<Rightarrow> int \<Rightarrow> bool \<Rightarrow> 'w \<Rightarrow>
     (64 word \<times> 8 word list \<times> 'w) c_result" where
  "mb_preadall K fd buf sz offset continue_on_error w =
     (let (ret, bytes, w') = k_pread64 K fd sz offset w
      in if ret = -1 \<and> \<not> continue_on_error then Inl Exit_Failure
         else Inr (sz, splice buf 0 bytes, w'))"

definition mb_pwriteall ::
  "('w, 'k) kernel_scheme \<Rightarrow> int \<Rightarrow> 8 word list \<Rightarrow> 64 word \<Rightarrow> int \<Rightarrow> bool \<Rightarrow> 'w \<Rightarrow> (64 word \<times> 'w) c_result" where
  "mb_pwriteall K fd buf sz offset continue_on_error w =
     (let (ret, w') = k_pwrite64 K fd (take (unat sz) buf) offset w
      in if ret = -1 \<and> \<not> continue_on_error then Inl Exit_Failure else Inr (sz, w'))"

subsection \<open>The size of a file or device\<close>

text \<open>
  What \<open>fstat\<close> and \<open>ioctl(BLKGETSIZE64)\<close> report of a path that can be opened: a regular file
  with its size, a block device with its size (\<open>None\<close> if the \<open>ioctl\<close> fails), anything else.
\<close>

datatype file_kind = Regular int | Block_dev "64 word option" | Other_file

datatype open_mode = O_RDONLY | O_WRONLY | O_RDWR

record file_env =
  fe_open :: "string \<Rightarrow> open_mode \<Rightarrow> bool"
  fe_fstat :: "string \<Rightarrow> file_kind option"

definition mb_getsize :: "'a file_env_scheme \<Rightarrow> string \<Rightarrow> int" where
  "mb_getsize fe path =
     (if \<not> fe_open fe path O_RDONLY then -1
      else case fe_fstat fe path of
             None \<Rightarrow> -1
           | Some (Regular st_size) \<Rightarrow> st_size
           | Some (Block_dev None) \<Rightarrow> -1
           | Some (Block_dev (Some dev_sz)) \<Rightarrow> sint dev_sz
           | Some Other_file \<Rightarrow> -1)"

subsection \<open>What the loops do on a file\<close>

text \<open>
  The documented behaviour of \<open>read(2)\<close> on a file with the contents \<open>file\<close>: it returns the
  number of bytes it stored, which are the next bytes of the file and at most as many as
  asked for; the number is 0 only at the end of the file or if nothing was asked for.
\<close>

definition reads_file :: "('w, 'k) kernel_scheme \<Rightarrow> int \<Rightarrow> 8 word list \<Rightarrow> ('w \<Rightarrow> nat) \<Rightarrow> bool" where
  "reads_file K fd file pos \<longleftrightarrow>
     (\<forall>sz w. case k_read K fd sz w of (ret, bytes, w') \<Rightarrow>
        ret = int (length bytes) \<and> length bytes \<le> unat sz \<and>
        bytes = take (length bytes) (drop (pos w) file) \<and>
        (0 < sz \<and> pos w < length file \<longrightarrow> bytes \<noteq> []) \<and> pos w' = pos w + length bytes)"

text \<open>
  The same for \<open>write(2)\<close>: it takes a prefix of the bytes it is given, not an empty one.
\<close>

definition writes_file :: "('w, 'k) kernel_scheme \<Rightarrow> int \<Rightarrow> ('w \<Rightarrow> 8 word list) \<Rightarrow> bool" where
  "writes_file K fd out \<longleftrightarrow>
     (\<forall>bytes w. case k_write K fd bytes w of (ret, w') \<Rightarrow>
        \<exists>n \<le> length bytes. ret = int n \<and> (bytes \<noteq> [] \<longrightarrow> 0 < n) \<and> out w' = out w @ take n bytes)"

lemma splice_splice:
  "ofs + length bs \<le> length buf \<Longrightarrow>
     splice (splice buf ofs bs) (ofs + length bs) cs = splice buf ofs (bs @ cs)"
  by (simp add: splice_def ac_simps)

lemma length_splice: "ofs + length bs \<le> length buf \<Longrightarrow> length (splice buf ofs bs) = length buf"
  by (simp add: splice_def)

lemma chunk_less:
  fixes sz :: "64 word"
  assumes "n \<le> unat sz"
  shows "(word_of_int (int n) < sz) = (n < unat sz)"
    and "unat (sz - word_of_int (int n)) = unat sz - n"
proof -
  have "n < 2 ^ 64" using assms unsigned_less [of sz, where ?'a = nat] by simp
  then have n: "unat (word_of_int (int n) :: 64 word) = n" 
    by (simp add: unsigned_of_nat take_bit_nat_eq_self)
  then show "(word_of_int (int n) < sz) = (n < unat sz)" by (simp add: word_less_nat_alt)
  show "unat (sz - word_of_int (int n)) = unat sz - n"
    using assms n by (simp add: unat_sub word_le_nat_alt)
qed

text \<open>What every single call does to the world, if it is transitive, the whole loop does.\<close>

lemma readall_loop_rel:
  assumes "readall_loop K fd c buf ofs sz w = Some (Inr (buf', w'))"
    and "\<forall>sz w. R w (snd (snd (k_read K fd sz w)))" and "transp R"
  shows "R w w'"
proof -
  let ?P = "\<lambda>K fd w r. (\<forall>sz w. R w (snd (snd (k_read K fd sz w)))) \<longrightarrow>
    (\<forall>buf' w'. r = Inr (buf', w') \<longrightarrow> R w w')"
  have "?P K fd w r" if "readall_loop K fd c buf ofs sz w = Some r" for r
  proof (rule readall_loop.raw_induct [OF _ that])
    fix loop K fd c buf ofs sz and w :: 'a and r
    assume IH: "\<And>K fd c buf ofs sz w r. loop K fd c buf ofs sz w = Some r \<Longrightarrow> ?P K fd w r"
      and eq: "(let (ret, bytes, w') = k_read K fd sz w; buf' = splice buf ofs bytes
        in if ret = -1 \<and> \<not> c then Some (Inl Exit_Failure)
           else if (word_of_int ret :: 64 word) < sz
           then loop K fd c buf' (ofs + nat ret) (sz - word_of_int ret) w'
           else Some (Inr (buf', w'))) = Some r"
    obtain ret bytes w1 where k: "k_read K fd sz w = (ret, bytes, w1)" by (metis prod_cases3)
    show "?P K fd w r"
    proof (intro impI allI)
      fix buf' w'
      assume law: "\<forall>sz w. R w (snd (snd (k_read K fd sz w)))" and r: "r = Inr (buf', w')"
      have first: "R w w1" using law k by (metis snd_conv)
      from eq r k consider "w' = w1" | buf2 ofs2 sz2 where "loop K fd c buf2 ofs2 sz2 w1 = Some r"
        by (auto simp: Let_def split: if_splits)
      then show "R w w'"
      proof cases
        case 2
        then have "R w1 w'" using IH [OF 2] law r by simp
        with first show ?thesis by (rule transpD [OF assms(3)])
      qed (use first in simp)
    qed
  qed
  then show ?thesis using assms(1,2) by blast
qed

lemma writeall_loop_rel:
  assumes "writeall_loop K fd c buf ofs sz w = Some (Inr w')"
    and "\<forall>bytes w. R w (snd (k_write K fd bytes w))" and "transp R"
  shows "R w w'"
proof -
  let ?P = "\<lambda>K fd w r. (\<forall>bytes w. R w (snd (k_write K fd bytes w))) \<longrightarrow> (\<forall>w'. r = Inr w' \<longrightarrow> R w w')"
  have "?P K fd w r" if "writeall_loop K fd c buf ofs sz w = Some r" for r
  proof (rule writeall_loop.raw_induct [OF _ that])
    fix loop K fd c buf ofs sz and w :: 'a and r
    assume IH: "\<And>K fd c buf ofs sz w r. loop K fd c buf ofs sz w = Some r \<Longrightarrow> ?P K fd w r"
      and eq: "(let (ret, w') = k_write K fd (take (unat sz) (drop ofs buf)) w
        in if ret = -1 \<and> \<not> c then Some (Inl Exit_Failure)
           else if (word_of_int ret :: 64 word) < sz
           then loop K fd c buf (ofs + nat ret) (sz - word_of_int ret) w'
           else Some (Inr w')) = Some r"
    obtain ret w1 where k: "k_write K fd (take (unat sz) (drop ofs buf)) w = (ret, w1)" by fastforce
    show "?P K fd w r"
    proof (intro impI allI)
      fix w' assume law: "\<forall>bytes w. R w (snd (k_write K fd bytes w))" and r: "r = Inr w'"
      have first: "R w w1" using law k by (metis snd_conv)
      have "w' = w1 \<or> loop K fd c buf (ofs + nat ret) (sz - word_of_int ret) w1 = Some r"
      proof (cases "(word_of_int ret :: 64 word) < sz")
        case True
        then show ?thesis using eq r unfolding k Let_def prod.case by (cases "ret = -1 \<and> \<not> c") simp_all
      next
        case False
        then show ?thesis using eq r unfolding k Let_def prod.case by (cases "ret = -1 \<and> \<not> c") simp_all
      qed
      then consider "w' = w1" | "loop K fd c buf (ofs + nat ret) (sz - word_of_int ret) w1 = Some r" by blast
      then show "R w w'"
      proof cases
        case 2
        then have "R w1 w'" using IH [OF 2] law r by simp
        with first show ?thesis by (rule transpD [OF assms(3)])
      qed (use first in simp)
    qed
  qed
  then show ?thesis using assms(1,2) by blast
qed

text \<open>The next bytes of the file arrive at their place, in however many calls it takes.\<close>

lemma readall_loop_reads:
  assumes "reads_file K fd file pos" and "ofs + unat sz \<le> length buf"
    and "pos w + unat sz \<le> length file"
  shows "\<exists>w'. readall_loop K fd c buf ofs sz w =
           Some (Inr (splice buf ofs (take (unat sz) (drop (pos w) file)), w')) \<and>
         pos w' = pos w + unat sz"
  using assms(2,3)
proof (induction "unat sz" arbitrary: sz ofs buf w rule: less_induct)
  case less
  obtain ret bytes w1 where r: "k_read K fd sz w = (ret, bytes, w1)" by (metis prod_cases3)
  let ?n = "length bytes"
  from assms(1) r have law: "ret = int ?n" "?n \<le> unat sz"
    "bytes = take ?n (drop (pos w) file)" "0 < sz \<and> pos w < length file \<longrightarrow> bytes \<noteq> []"
    "pos w1 = pos w + ?n"
    unfolding reads_file_def by (auto dest!: spec [of _ sz] spec [of _ w])
  have step: "readall_loop K fd c buf ofs sz w =
      (if ?n < unat sz then readall_loop K fd c (splice buf ofs bytes) (ofs + ?n)
                              (sz - word_of_int (int ?n)) w1
       else Some (Inr (splice buf ofs bytes, w1)))"
    using chunk_less(1) [OF law(2)] law(1)
    by (subst readall_loop.simps) (simp add: r Let_def)
  show ?case
  proof (cases "?n < unat sz")
    case False
    then have "?n = unat sz" using law(2) by simp
    with law step show ?thesis by auto
  next
    case True
    let ?sz = "sz - word_of_int (int ?n)"
    have sz: "unat ?sz = unat sz - ?n" by (rule chunk_less(2) [OF law(2)])
    have "0 < unat sz" using True by simp
    then have "0 < sz" by (simp add: word_less_nat_alt)
    moreover have "pos w < length file" using True less.prems(2) by linarith
    ultimately have "bytes \<noteq> []" using law(4) by simp
    then have lt: "unat ?sz < unat sz" using sz True by (cases bytes) auto
    have fits: "ofs + ?n + unat ?sz \<le> length (splice buf ofs bytes)"
      using less.prems(1) sz True by (simp add: length_splice)
    have left: "pos w1 + unat ?sz \<le> length file" using less.prems(2) law(5) sz True by simp
    obtain w' where w': "readall_loop K fd c (splice buf ofs bytes) (ofs + ?n) ?sz w1 =
        Some (Inr (splice (splice buf ofs bytes) (ofs + ?n)
          (take (unat ?sz) (drop (pos w1) file)), w'))" "pos w' = pos w1 + unat ?sz"
      using less.hyps [OF lt fits left] by blast
    have "bytes @ take (unat sz - ?n) (drop (pos w + ?n) file) =
        take (unat sz) (drop (pos w) file)"
      using law(3) True
      by (metis drop_drop take_add add.commute le_add_diff_inverse law(2))
    then have "splice (splice buf ofs bytes) (ofs + ?n) (take (unat ?sz) (drop (pos w1) file)) =
        splice buf ofs (take (unat sz) (drop (pos w) file))"
      using less.prems(1) law(2,5) sz by (simp add: splice_splice)
    with step True w' law(5) sz law(2) show ?thesis by auto
  qed
qed

text \<open>A file that ends before the buffer is full: the loop asks for the rest forever.\<close>

lemma readall_loop_eof:
  assumes "readall_loop K fd c buf ofs sz w = Some r"
    and "reads_file K fd file pos" and "pos w \<le> length file"
  shows "pos w + unat sz \<le> length file"
proof -
  have "reads_file K fd file pos \<longrightarrow> pos w \<le> length file \<longrightarrow> pos w + unat sz \<le> length file"
  proof (rule readall_loop.raw_induct [OF _ assms(1)])
    fix loop K fd c buf ofs sz and w :: 'a and r
    assume IH: "\<And>K fd c buf ofs sz w r. loop K fd c buf ofs sz w = Some r \<Longrightarrow>
        reads_file K fd file pos \<longrightarrow> pos w \<le> length file \<longrightarrow> pos w + unat sz \<le> length file"
      and eq: "(let (ret, bytes, w') = k_read K fd sz w; buf' = splice buf ofs bytes
        in if ret = -1 \<and> \<not> c then Some (Inl Exit_Failure)
           else if (word_of_int ret :: 64 word) < sz
           then loop K fd c buf' (ofs + nat ret) (sz - word_of_int ret) w'
           else Some (Inr (buf', w'))) = Some r"
    show "reads_file K fd file pos \<longrightarrow> pos w \<le> length file \<longrightarrow> pos w + unat sz \<le> length file"
    proof (intro impI)
      assume law: "reads_file K fd file pos" and le: "pos w \<le> length file"
      obtain ret bytes w1 where r: "k_read K fd sz w = (ret, bytes, w1)" by (metis prod_cases3)
      let ?n = "length bytes"
      from law r have law': "ret = int ?n" "?n \<le> unat sz"
        "bytes = take ?n (drop (pos w) file)" "pos w1 = pos w + ?n"
        unfolding reads_file_def by (auto dest!: spec [of _ sz] spec [of _ w])
      have n: "pos w + ?n \<le> length file"
        using law'(3) le by (metis add.commute drop_drop length_drop length_take
            min.absorb_iff2 min.commute nat_le_linear le_diff_conv2)
      show "pos w + unat sz \<le> length file"
      proof (cases "?n < unat sz")
        case True
        then have "loop K fd c (splice buf ofs bytes) (ofs + ?n) (sz - word_of_int (int ?n)) w1 = Some r"
          using eq chunk_less(1) [OF law'(2)] law'(1) by (simp add: r Let_def)
        from IH [OF this] law n law'(4)
        have "pos w1 + unat (sz - word_of_int (int ?n)) \<le> length file" by simp
        then show ?thesis using chunk_less(2) [OF law'(2)] law'(2,4) by simp
      qed (use n law'(2) in simp)
    qed
  qed
  with assms(2,3) show ?thesis by simp
qed

lemma writeall_loop_writes:
  assumes "writes_file K fd out" and "ofs + unat sz \<le> length buf"
  shows "\<exists>w'. writeall_loop K fd c buf ofs sz w = Some (Inr w') \<and>
         out w' = out w @ take (unat sz) (drop ofs buf)"
  using assms(2)
proof (induction "unat sz" arbitrary: sz ofs w rule: less_induct)
  case less
  let ?bytes = "take (unat sz) (drop ofs buf)"
  obtain ret w1 where r: "k_write K fd ?bytes w = (ret, w1)" by fastforce
  have len: "length ?bytes = unat sz" using less.prems by simp
  from assms(1) r len obtain n where n: "n \<le> unat sz" "ret = int n" "?bytes \<noteq> [] \<longrightarrow> 0 < n"
    "out w1 = out w @ take n ?bytes"
    unfolding writes_file_def by (auto dest!: spec [of _ ?bytes] spec [of _ w])
  have step: "writeall_loop K fd c buf ofs sz w =
      (if n < unat sz then writeall_loop K fd c buf (ofs + n) (sz - word_of_int (int n)) w1
       else Some (Inr w1))"
    using chunk_less(1) [OF n(1)] n(2) by (subst writeall_loop.simps) (simp add: r Let_def)
  show ?case
  proof (cases "n < unat sz")
    case False
    with n step len show ?thesis by (auto simp: min_def)
  next
    case True
    let ?sz = "sz - word_of_int (int n)"
    have sz: "unat ?sz = unat sz - n" by (rule chunk_less(2) [OF n(1)])
    have "?bytes \<noteq> []" using len True by auto
    then have lt: "unat ?sz < unat sz" using sz True n(3) by simp
    have fits: "ofs + n + unat ?sz \<le> length buf" using less.prems sz True by simp
    obtain w' where w': "writeall_loop K fd c buf (ofs + n) ?sz w1 = Some (Inr w')"
      "out w' = out w1 @ take (unat ?sz) (drop (ofs + n) buf)"
      using less.hyps [OF lt fits] by blast
    have "take n ?bytes @ take (unat sz - n) (drop (ofs + n) buf) = ?bytes"
      using True less.prems take_add [of n "unat sz - n" "drop ofs buf"]
      by (simp add: min_absorb1 add.commute less_imp_le)
    then show ?thesis using step True w' n(4) sz by auto
  qed
qed

subsection \<open>Properties\<close>

text \<open>
  C28: \<open>mb_readall\<close> on a file that \<open>read(2)\<close> delivers in pieces of any size: it returns
  exactly if the file still holds as many bytes as the buffer asks for, and then the buffer
  holds the next bytes of the file and the file position has moved by as many. If the file
  is shorter, the call never returns: a read that returns 0 at the end of the file only
  makes the loop ask again.
\<close>

theorem mb_readall_reads:
  assumes "reads_file K fd file pos" and "unat sz \<le> length buf" and "pos w \<le> length file"
  shows "if pos w + unat sz \<le> length file
         then \<exists>w'. mb_readall K fd buf sz continue_on_error w =
                Some (Inr (sz, take (unat sz) (drop (pos w) file) @ drop (unat sz) buf, w')) \<and>
              pos w' = pos w + unat sz
         else mb_readall K fd buf sz continue_on_error w = None"
proof (cases "pos w + unat sz \<le> length file")
  case True
  obtain w' where w': "readall_loop K fd continue_on_error buf 0 sz w =
      Some (Inr (splice buf 0 (take (unat sz) (drop (pos w) file)), w'))" "pos w' = pos w + unat sz"
    using readall_loop_reads [OF assms(1), of 0 sz buf w] assms(2) True by auto
  moreover have "splice buf 0 (take (unat sz) (drop (pos w) file)) =
      take (unat sz) (drop (pos w) file) @ drop (unat sz) buf"
    using True by (simp add: splice_def)
  ultimately show ?thesis using True by (simp add: mb_readall_def)
next
  case False
  have "readall_loop K fd continue_on_error buf 0 sz w = None"
    using readall_loop_eof [OF _ assms(1) assms(3)] False by (cases "readall_loop K fd continue_on_error buf 0 sz w") auto
  with False show ?thesis by (simp add: mb_readall_def)
qed

text \<open>
  C29: \<open>mb_writeall\<close> to a file that \<open>write(2)\<close> takes in pieces of any size always returns, and
  it has then written exactly the first \<open>size\<close> bytes of the buffer, in order.
\<close>

theorem mb_writeall_writes:
  assumes "writes_file K fd out" and "unat sz \<le> length buf"
  shows "\<exists>w'. mb_writeall K fd buf sz continue_on_error w = Some (Inr (sz, w')) \<and>
         out w' = out w @ take (unat sz) buf"
  using writeall_loop_writes [OF assms(1), of 0 sz buf continue_on_error w] assms(2)
  by (auto simp: mb_writeall_def)

subsection \<open>A kernel that moves at most two bytes at a time\<close>

definition demo_kernel :: "8 word list \<Rightarrow> (nat \<times> 8 word list) kernel" where
  "demo_kernel file =
     \<lparr>k_read = \<lambda>fd sz (p, out).
        (let bytes = take (min 2 (unat sz)) (drop p file)
         in (int (length bytes), bytes, p + length bytes, out)),
      k_write = \<lambda>fd bytes (p, out). (int (min 2 (length bytes)), p, out @ take 2 bytes),
      k_pread64 = \<lambda>fd sz offset w.
        (let bytes = take (unat sz) (drop (nat offset) file)
         in (int (length bytes), bytes, w)),
      k_pwrite64 = \<lambda>fd bytes offset (p, out). (int (length bytes), p, out @ bytes),
      k_lseek64 = \<lambda>fd offset (p, out). (offset, nat offset, out),
      k_gettimeofday = \<lambda>w. (\<lparr>tv_sec = int (length (snd w)), tv_usec = 0\<rparr>, w),
      k_usleep = \<lambda>usec w. w\<rparr>"

lemma demo_kernel_reads: "reads_file (demo_kernel file) fd file fst"
  by (auto simp: reads_file_def demo_kernel_def Let_def word_less_nat_alt)
    (simp add: min.commute min_def)

lemma demo_kernel_writes: "writes_file (demo_kernel file) fd snd"
proof -
  have "\<exists>n \<le> length bytes. int (min 2 (length bytes)) = int n \<and> (bytes \<noteq> [] \<longrightarrow> 0 < n) \<and>
      take 2 bytes = take n bytes" for bytes :: "8 word list"
    by (rule exI [of _ "min 2 (length bytes)"]) (auto simp: min_def)
  then show ?thesis by (auto simp: writes_file_def demo_kernel_def)
qed

theorem mb_readall_reads_witness:
  "(\<exists>w'. mb_readall (demo_kernel [1, 2, 3, 4, 5]) 3 [0, 0, 0, 9] 3 False (1, []) =
      Some (Inr (3, [2, 3, 4, 9], w')) \<and> fst w' = 4) \<and>
   mb_readall (demo_kernel [1, 2]) 3 [0, 0, 0, 9] 3 False (0, []) = None"
  using mb_readall_reads [OF demo_kernel_reads [of "[1, 2, 3, 4, 5]" 3], of 3 "[0, 0, 0, 9]" "(1, [])" False]
    mb_readall_reads [OF demo_kernel_reads [of "[1, 2]" 3], of 3 "[0, 0, 0, 9]" "(0, [])" False]
  by simp

theorem mb_writeall_writes_witness:
  "\<exists>w'. mb_writeall (demo_kernel []) 3 [1, 2, 3, 4] 3 False (0, [7]) = Some (Inr (3, w')) \<and>
     snd w' = [7, 1, 2, 3]"
  using mb_writeall_writes [OF demo_kernel_writes [of "[]" 3], of 3 "[1, 2, 3, 4]" False "(0, [7])"]
  by simp

end
