(* ===== verification/IoOption.thy ===== *)
theory IoOption
  imports Affinity IoUtil
begin

section \<open>Options of micbench-io\<close>

text \<open>
  \<open>micbench_io_option_t\<close> (src/src/micbench-io.h) and \<open>parse_args\<close> of src/src/micbench-io.c: the
  defaults, the loop over the options, the checks of the files and the final checks. What the
  function asks of the system is a parameter: which files can be opened, their sizes, the user
  id, \<open>strtod\<close>, and whether the program was built with io_uring.
\<close>

subsection \<open>Data\<close>

datatype mb_io_pattern = PATTERN_SEQ | PATTERN_RAND | PATTERN_SEEKDIST | PATTERN_SEEKINCR

datatype mb_aio_engine = AIO_LIBAIO | AIO_IOURING

text \<open>
  The fields keep the source's names with the prefix \<open>o_\<close>. \<open>open_flags\<close> is an access mode and
  the flag \<open>O_DIRECT\<close>; a stream is whether it is open; a pointer that may be \<open>NULL\<close> is an
  option. The arrays of paths and sizes hold the entries filled so far.
\<close>

record micbench_io_option =
  o_multi :: int
  o_pattern :: mb_io_pattern
  o_direct :: bool
  o_read :: bool
  o_write :: bool
  o_rwmix :: c_double
  o_aio :: bool
  o_aio_engine :: mb_aio_engine
  o_aio_nr_events :: int
  o_aio_tracefile :: "string option"
  o_logfile_path :: "string option"
  o_logfile :: bool
  o_affinities :: affinities
  o_timeout :: int
  o_blk_sz :: int
  o_ofst_start :: int
  o_ofst_end :: int
  o_seekdist_stride :: int
  o_misalign :: int
  o_open_flags :: "open_mode \<times> bool"
  o_nr_files :: int
  o_file_path_list :: "string list option"
  o_file_size_list :: "int list option"
  o_bogus_comp :: int
  o_iosleep :: int
  o_continue_on_error :: bool
  o_json :: bool
  o_verbose :: bool
  o_noop :: bool

record io_env = file_env +
  ie_strtod :: "string \<Rightarrow> c_double"
  ie_fopen_w :: "string \<Rightarrow> bool"
  ie_getuid :: int
  ie_have_io_uring :: bool

subsection \<open>The option loop\<close>

definition io_default_option :: "micbench_io_option \<Rightarrow> micbench_io_option" where
  "io_default_option opt = opt\<lparr>
     o_noop := False, o_multi := 1, o_affinities := None, o_timeout := 60, o_bogus_comp := 0,
     o_iosleep := 0, o_read := True, o_write := False, o_rwmix := Fin 0, o_pattern := PATTERN_SEQ,
     o_direct := False, o_aio := False, o_aio_engine := AIO_LIBAIO, o_aio_nr_events := 64,
     o_aio_tracefile := None, o_blk_sz := 4 * 1024, o_seekdist_stride := 16 * 1024,
     o_ofst_start := -1, o_ofst_end := -1, o_misalign := 0, o_continue_on_error := False,
     o_logfile := False, o_logfile_path := None, o_json := False, o_verbose := False,
     o_open_flags := (O_RDONLY, False), o_file_path_list := None, o_file_size_list := None\<rparr>"

text \<open>The option string \<open>+Nm:a:t:RSDIdAg:E:T:WM:b:s:e:B:z:c:i:Cl:jv\<close>.\<close>

definition io_optspec :: optspec where
  "io_optspec =
     map (\<lambda>c. (c, False)) ''NRSDIdAWCjv'' @ map (\<lambda>c. (c, True)) ''matgETMbseBzcil''"

text \<open>One round of the \<open>switch\<close>: the new option record, and \<open>False\<close> for \<open>goto error\<close>.\<close>

definition io_clamp_rwmix :: "c_double \<Rightarrow> c_double" where
  "io_clamp_rwmix x =
     (let x1 = (if d_less x (Fin 0) then Fin 0 else x)
      in if d_less (Fin 1) x1 then Fin 1 else x1)"

definition io_set_flag :: "char \<Rightarrow> micbench_io_option \<Rightarrow> micbench_io_option \<times> bool" where
  "io_set_flag c opt =
     (if c = CHR ''N'' then (opt\<lparr>o_noop := True\<rparr>, True)
      else if c = CHR ''R'' then (opt\<lparr>o_pattern := PATTERN_RAND\<rparr>, True)
      else if c = CHR ''S'' then (opt\<lparr>o_pattern := PATTERN_SEQ\<rparr>, True)
      else if c = CHR ''D'' then (opt\<lparr>o_pattern := PATTERN_SEEKDIST\<rparr>, True)
      else if c = CHR ''I'' then (opt\<lparr>o_pattern := PATTERN_SEEKINCR\<rparr>, True)
      else if c = CHR ''d'' then (opt\<lparr>o_direct := True\<rparr>, True)
      else if c = CHR ''A'' then (opt\<lparr>o_aio := True\<rparr>, True)
      else if c = CHR ''W'' then (opt\<lparr>o_write := True, o_read := False\<rparr>, True)
      else if c = CHR ''C'' then (opt\<lparr>o_continue_on_error := True\<rparr>, True)
      else if c = CHR ''j'' then (opt\<lparr>o_json := True\<rparr>, True)
      else if c = CHR ''v'' then (opt\<lparr>o_verbose := True\<rparr>, True)
      else (opt, False))"

definition io_set_engine :: "io_env \<Rightarrow> string \<Rightarrow> micbench_io_option \<Rightarrow> micbench_io_option \<times> bool" where
  "io_set_engine env arg opt =
     (if arg = ''libaio'' then (opt\<lparr>o_aio_engine := AIO_LIBAIO\<rparr>, True)
      else if arg = ''io_uring'' then
        if ie_have_io_uring env then (opt\<lparr>o_aio_engine := AIO_IOURING\<rparr>, True) else (opt, False)
      else (opt, False))"

definition io_set_value ::
  "io_env \<Rightarrow> char \<Rightarrow> string \<Rightarrow> string list \<Rightarrow> micbench_io_option \<Rightarrow>
     (micbench_io_option \<times> bool) c_result" where
  "io_set_value env c arg rest opt =
     (let num = fst (strtol arg)
      in if c = CHR ''m'' then Inr (opt\<lparr>o_multi := to_int num\<rparr>, True)
         else if c = CHR ''a'' then
           bind_c (add_affinity (o_multi opt) (o_affinities opt) arg rest)
             (\<lambda>(affs, ok). Inr (opt\<lparr>o_affinities := affs\<rparr>, ok))
         else if c = CHR ''t'' then Inr (opt\<lparr>o_timeout := to_int num\<rparr>, True)
         else if c = CHR ''g'' then Inr (io_set_engine env arg opt)
         else if c = CHR ''E'' then Inr (opt\<lparr>o_aio_nr_events := to_int num\<rparr>, True)
         else if c = CHR ''T'' then Inr (opt\<lparr>o_aio_tracefile := Some arg\<rparr>, True)
         else if c = CHR ''M'' then
           Inr (opt\<lparr>o_rwmix := io_clamp_rwmix (ie_strtod env arg), o_read := False,
                    o_write := False\<rparr>, True)
         else if c = CHR ''b'' then Inr (opt\<lparr>o_blk_sz := to_int num\<rparr>, True)
         else if c = CHR ''s'' then Inr (opt\<lparr>o_ofst_start := num\<rparr>, True)
         else if c = CHR ''e'' then Inr (opt\<lparr>o_ofst_end := num\<rparr>, True)
         else if c = CHR ''B'' then Inr (opt\<lparr>o_seekdist_stride := num\<rparr>, True)
         else if c = CHR ''z'' then Inr (opt\<lparr>o_misalign := num\<rparr>, True)
         else if c = CHR ''c'' then Inr (opt\<lparr>o_bogus_comp := num\<rparr>, True)
         else if c = CHR ''i'' then Inr (opt\<lparr>o_iosleep := num mod 2 ^ 32\<rparr>, True)
         else if c = CHR ''l'' then Inr (opt\<lparr>o_logfile_path := Some arg\<rparr>, True)
         else Inr (opt, False))"

definition io_option_step ::
  "io_env \<Rightarrow> opt_event \<times> string list \<Rightarrow> micbench_io_option \<Rightarrow>
     (micbench_io_option \<times> bool) c_result" where
  "io_option_step env er opt =
     (let (ev, rest) = er
      in case ev of
           Opt c \<Rightarrow> Inr (io_set_flag c opt)
         | OptArg c arg \<Rightarrow> io_set_value env c arg rest opt
         | OptBad \<Rightarrow> Inr (opt, False))"

fun io_option_loop ::
  "io_env \<Rightarrow> (opt_event \<times> string list) list \<Rightarrow> micbench_io_option \<Rightarrow>
     (micbench_io_option \<times> bool) c_result" where
  "io_option_loop env [] opt = Inr (opt, True)"
| "io_option_loop env (er # evs) opt =
     bind_c (io_option_step env er opt)
       (\<lambda>(opt', ok). if ok then io_option_loop env evs opt' else Inr (opt', False))"

subsection \<open>The files\<close>

definition io_open_mode :: "micbench_io_option \<Rightarrow> open_mode" where
  "io_open_mode opt = (if o_read opt then O_RDONLY else if o_write opt then O_WRONLY else O_RDWR)"

text \<open>
  \<open>blk_sz * ofst > path_sz\<close>, a product of 64 bits; the message divides the size by \<open>blk_sz\<close>.
\<close>

definition io_offset_beyond :: "int \<Rightarrow> int \<Rightarrow> int \<Rightarrow> bool c_result" where
  "io_offset_beyond blk ofst path_sz =
     (if \<not> in_long (blk * ofst) then Inl Undefined
      else if blk * ofst > path_sz then
        if blk = 0 \<or> (blk = -1 \<and> path_sz = - (2 ^ 63)) then Inl Undefined else Inr True
      else Inr False)"

definition append_opt :: "'a list option \<Rightarrow> 'a \<Rightarrow> 'a list option" where
  "append_opt xs x = (case xs of None \<Rightarrow> None | Some l \<Rightarrow> Some (l @ [x]))"

fun io_file_loop ::
  "io_env \<Rightarrow> string list \<Rightarrow> micbench_io_option \<Rightarrow> (micbench_io_option \<times> bool) c_result" where
  "io_file_loop env [] opt = Inr (opt, True)"
| "io_file_loop env (path # paths) opt =
     (let opt1 = opt\<lparr>o_file_path_list := append_opt (o_file_path_list opt) path\<rparr>;
          path_sz = mb_getsize env path
      in if \<not> o_noop opt \<and> \<not> fe_open env path (io_open_mode opt) then Inr (opt1, False)
         else bind_c (io_offset_beyond (o_blk_sz opt) (o_ofst_start opt) path_sz) (\<lambda>bad_start.
              if bad_start then Inr (opt1, False)
              else bind_c (io_offset_beyond (o_blk_sz opt) (o_ofst_end opt) path_sz) (\<lambda>bad_end.
                   if bad_end then Inr (opt1, False)
                   else io_file_loop env paths
                     (opt1\<lparr>o_file_size_list := append_opt (o_file_size_list opt) path_sz\<rparr>))))"

subsection \<open>parse_args\<close>

text \<open>The checks after the file loop; \<open>False\<close> is \<open>goto error\<close>.\<close>

definition io_final_checks :: "io_env \<Rightarrow> micbench_io_option \<Rightarrow> micbench_io_option \<times> bool" where
  "io_final_checks env opt =
     (if o_direct opt \<and> crem (o_blk_sz opt) 512 \<noteq> 0 then (opt, False)
      else if o_direct opt \<and> ie_getuid env \<noteq> 0 then (opt, False)
      else if o_aio_tracefile opt \<noteq> None \<and> \<not> o_aio opt then (opt, False)
      else case o_logfile_path opt of
             None \<Rightarrow> (opt, True)
           | Some path \<Rightarrow>
               if ie_fopen_w env path then (opt\<lparr>o_logfile := True\<rparr>, True)
               else (opt\<lparr>o_logfile := False\<rparr>, False))"

definition io_parse_error :: "micbench_io_option \<Rightarrow> int \<times> micbench_io_option" where
  "io_parse_error opt = (1, opt\<lparr>o_file_path_list := None, o_file_size_list := None\<rparr>)"

definition io_parse_args ::
  "io_env \<Rightarrow> string list \<Rightarrow> micbench_io_option \<Rightarrow> (int \<times> micbench_io_option) c_result" where
  "io_parse_args env argv option =
     (let (evs, files) = getopt_scan io_optspec argv
      in bind_c (io_option_loop env evs (io_default_option option)) (\<lambda>(opt, ok).
         if \<not> ok then Inr (io_parse_error opt)
         else if files = [] then Inr (io_parse_error opt)
         else bind_c
           (io_file_loop env files
             (opt\<lparr>o_nr_files := int (length files), o_file_path_list := Some [],
                  o_file_size_list := Some []\<rparr>))
           (\<lambda>(opt1, ok1).
              if \<not> ok1 then Inr (io_parse_error opt1)
              else let (opt2, ok2) = io_final_checks env opt1
                   in if ok2 then Inr (0, opt2) else Inr (io_parse_error opt2))))"

subsection \<open>The invariant of the option loop\<close>

definition rwmix_ok :: "c_double \<Rightarrow> bool" where
  "rwmix_ok x = (case x of Fin q \<Rightarrow> 0 \<le> q \<and> q \<le> 1 | NaN \<Rightarrow> True | _ \<Rightarrow> False)"

definition io_option_invar :: "io_env \<Rightarrow> micbench_io_option \<Rightarrow> bool" where
  "io_option_invar env opt \<longleftrightarrow>
     \<not> (o_read opt \<and> o_write opt) \<and> rwmix_ok (o_rwmix opt) \<and> affinities_ok (o_affinities opt) \<and>
     (o_aio_engine opt = AIO_IOURING \<longrightarrow> ie_have_io_uring env) \<and>
     in_int (o_multi opt) \<and> in_int (o_timeout opt) \<and> in_int (o_blk_sz opt) \<and>
     in_int (o_aio_nr_events opt) \<and> in_long (o_ofst_start opt) \<and> in_long (o_ofst_end opt) \<and>
     in_long (o_seekdist_stride opt) \<and> in_long (o_misalign opt) \<and> in_long (o_bogus_comp opt) \<and>
     0 \<le> o_iosleep opt \<and> o_iosleep opt < 2 ^ 32 \<and> \<not> o_logfile opt"

lemma rwmix_ok_clamp: "rwmix_ok (io_clamp_rwmix x)"
  by (cases x) (auto simp: io_clamp_rwmix_def rwmix_ok_def Let_def not_less)

lemma io_default_invar: "io_option_invar env (io_default_option opt)"
  by (simp add: io_option_invar_def io_default_option_def rwmix_ok_def affinities_ok_def
      in_int_def in_long_def)

text \<open>The invariant under the update of one field.\<close>

lemma io_option_invar_upd:
  assumes "io_option_invar env opt"
  shows "io_option_invar env (opt\<lparr>o_noop := b\<rparr>)" "io_option_invar env (opt\<lparr>o_pattern := p\<rparr>)"
    "io_option_invar env (opt\<lparr>o_direct := b\<rparr>)" "io_option_invar env (opt\<lparr>o_aio := b\<rparr>)"
    "io_option_invar env (opt\<lparr>o_write := b, o_read := False\<rparr>)"
    "io_option_invar env (opt\<lparr>o_continue_on_error := b\<rparr>)"
    "io_option_invar env (opt\<lparr>o_json := b\<rparr>)" "io_option_invar env (opt\<lparr>o_verbose := b\<rparr>)"
    "in_int n \<Longrightarrow> io_option_invar env (opt\<lparr>o_multi := n\<rparr>)"
    "affinities_ok affs \<Longrightarrow> io_option_invar env (opt\<lparr>o_affinities := affs\<rparr>)"
    "in_int n \<Longrightarrow> io_option_invar env (opt\<lparr>o_timeout := n\<rparr>)"
    "ie_have_io_uring env \<or> e \<noteq> AIO_IOURING \<Longrightarrow> io_option_invar env (opt\<lparr>o_aio_engine := e\<rparr>)"
    "in_int n \<Longrightarrow> io_option_invar env (opt\<lparr>o_aio_nr_events := n\<rparr>)"
    "io_option_invar env (opt\<lparr>o_aio_tracefile := f\<rparr>)"
    "rwmix_ok x \<Longrightarrow> io_option_invar env (opt\<lparr>o_rwmix := x, o_read := False, o_write := b\<rparr>)"
    "in_int n \<Longrightarrow> io_option_invar env (opt\<lparr>o_blk_sz := n\<rparr>)"
    "in_long n \<Longrightarrow> io_option_invar env (opt\<lparr>o_ofst_start := n\<rparr>)"
    "in_long n \<Longrightarrow> io_option_invar env (opt\<lparr>o_ofst_end := n\<rparr>)"
    "in_long n \<Longrightarrow> io_option_invar env (opt\<lparr>o_seekdist_stride := n\<rparr>)"
    "in_long n \<Longrightarrow> io_option_invar env (opt\<lparr>o_misalign := n\<rparr>)"
    "in_long n \<Longrightarrow> io_option_invar env (opt\<lparr>o_bogus_comp := n\<rparr>)"
    "io_option_invar env (opt\<lparr>o_iosleep := n mod 4294967296\<rparr>)"
    "io_option_invar env (opt\<lparr>o_logfile_path := f\<rparr>)"
  using assms unfolding io_option_invar_def by (simp_all, blast)

lemma io_set_flag_invar:
  "io_option_invar env opt \<Longrightarrow> io_option_invar env (fst (io_set_flag c opt))"
  unfolding io_set_flag_def by (simp add: io_option_invar_upd)

lemma io_set_engine_invar:
  "io_option_invar env opt \<Longrightarrow> io_option_invar env (fst (io_set_engine env arg opt))"
  unfolding io_set_engine_def by (simp add: io_option_invar_upd)

definition result_all :: "('a \<Rightarrow> bool) \<Rightarrow> ('a \<times> bool) c_result \<Rightarrow> bool" where
  "result_all P r \<longleftrightarrow> (\<forall>x ok. r = Inr (x, ok) \<longrightarrow> P x)"

lemma result_all_simps [simp]:
  "result_all P (Inr y) = P (fst y)" "result_all P (Inl e)"
  by (cases y) (auto simp: result_all_def)

lemma result_all_if: "(b \<Longrightarrow> result_all P x) \<Longrightarrow> (\<not> b \<Longrightarrow> result_all P y) \<Longrightarrow>
    result_all P (if b then x else y)"
  by simp

lemma io_affinity_invar:
  assumes "io_option_invar env opt"
  shows "result_all (io_option_invar env)
    (bind_c (add_affinity (o_multi opt) (o_affinities opt) arg rest)
       (\<lambda>(affs, ok). Inr (opt\<lparr>o_affinities := affs\<rparr>, ok)))"
proof -
  have "affinities_ok (o_affinities opt)" using assms by (simp add: io_option_invar_def)
  then show ?thesis
    using add_affinity_ok io_option_invar_upd(10) [OF assms]
    by (auto simp: result_all_def bind_c_eq_Inr)
qed

lemma io_set_value_invar:
  assumes "io_option_invar env opt"
  shows "result_all (io_option_invar env) (io_set_value env c arg rest opt)"
  unfolding io_set_value_def Let_def
  by (intro result_all_if io_affinity_invar [OF assms])
    (simp_all add: io_option_invar_upd [OF assms] io_set_engine_invar assms rwmix_ok_clamp)

lemma io_option_step_invar:
  assumes "io_option_invar env opt"
  shows "result_all (io_option_invar env) (io_option_step env er opt)"
  using io_set_flag_invar [OF assms] io_set_value_invar [OF assms] assms
  by (cases er; cases "fst er") (auto simp: io_option_step_def)

lemma io_option_loop_invar:
  "io_option_invar env opt \<Longrightarrow> io_option_loop env evs opt = Inr (opt', ok) \<Longrightarrow>
     io_option_invar env opt'"
proof (induction evs arbitrary: opt)
  case (Cons er evs)
  from Cons.prems(2) obtain opt1 ok1 where st: "io_option_step env er opt = Inr (opt1, ok1)"
    and rest: "(if ok1 then io_option_loop env evs opt1 else Inr (opt1, False)) = Inr (opt', ok)"
    by (auto simp: bind_c_eq_Inr)
  have "io_option_invar env opt1"
    using io_option_step_invar [OF Cons.prems(1), of er] unfolding st by simp
  with Cons.IH rest show ?case by (auto split: if_splits)
qed simp

subsection \<open>The files and the final checks\<close>

definition io_files_ok :: "io_env \<Rightarrow> micbench_io_option \<Rightarrow> string list \<Rightarrow> bool" where
  "io_files_ok env opt files \<longleftrightarrow>
     (\<forall>path \<in> set files.
        (o_noop opt \<or> fe_open env path (io_open_mode opt)) \<and>
        o_blk_sz opt * o_ofst_start opt \<le> mb_getsize env path \<and>
        o_blk_sz opt * o_ofst_end opt \<le> mb_getsize env path)"

lemma io_open_mode_upd [simp]:
  "io_open_mode (opt\<lparr>o_nr_files := n\<rparr>) = io_open_mode opt"
  "io_open_mode (opt\<lparr>o_file_path_list := ps\<rparr>) = io_open_mode opt"
  "io_open_mode (opt\<lparr>o_file_size_list := ss\<rparr>) = io_open_mode opt"
  "io_open_mode (opt\<lparr>o_logfile := lf\<rparr>) = io_open_mode opt"
  by (simp_all add: io_open_mode_def)

lemma io_files_ok_upd [simp]:
  "io_files_ok env (opt\<lparr>o_nr_files := n\<rparr>) files = io_files_ok env opt files"
  "io_files_ok env (opt\<lparr>o_file_path_list := ps\<rparr>) files = io_files_ok env opt files"
  "io_files_ok env (opt\<lparr>o_file_size_list := ss\<rparr>) files = io_files_ok env opt files"
  "io_files_ok env (opt\<lparr>o_logfile := lf\<rparr>) files = io_files_ok env opt files"
  by (simp_all add: io_files_ok_def)

lemma io_offset_beyond_False [simp]:
  "io_offset_beyond blk ofst sz = Inr False \<longleftrightarrow> in_long (blk * ofst) \<and> blk * ofst \<le> sz"
  by (auto simp: io_offset_beyond_def)

lemma io_file_loop_step:
  "io_file_loop env (path # paths) opt = Inr (opt', True) \<longleftrightarrow>
     (o_noop opt \<or> fe_open env path (io_open_mode opt)) \<and>
     io_offset_beyond (o_blk_sz opt) (o_ofst_start opt) (mb_getsize env path) = Inr False \<and>
     io_offset_beyond (o_blk_sz opt) (o_ofst_end opt) (mb_getsize env path) = Inr False \<and>
     io_file_loop env paths
       (opt\<lparr>o_file_path_list := append_opt (o_file_path_list opt) path,
            o_file_size_list := append_opt (o_file_size_list opt) (mb_getsize env path)\<rparr>) =
       Inr (opt', True)"
proof -
  have if_ok: "(if bad then Inr (x, False) else r) = Inr (y, True) \<longleftrightarrow> \<not> bad \<and> r = Inr (y, True)"
    for bad and r :: "(micbench_io_option \<times> bool) c_result" and x y
    by simp
  have "(\<exists>b. r = Inr b \<and> \<not> b \<and> P) \<longleftrightarrow> r = Inr False \<and> P" for r :: "bool c_result" and P
    by auto
  then show ?thesis by (simp add: Let_def bind_c_eq_Inr if_ok)
qed

lemma io_file_loop_ok:
  assumes "io_file_loop env files opt = Inr (opt', True)"
    and "o_file_path_list opt = Some ps" and "o_file_size_list opt = Some ss"
  shows "opt' = opt\<lparr>o_file_path_list := Some (ps @ files),
                    o_file_size_list := Some (ss @ map (mb_getsize env) files)\<rparr> \<and>
         io_files_ok env opt files"
  using assms
proof (induction files arbitrary: opt ps ss)
  case Nil
  then show ?case by (simp add: io_files_ok_def)
next
  case (Cons path files)
  let ?opt = "opt\<lparr>o_file_path_list := Some (ps @ [path]),
                  o_file_size_list := Some (ss @ [mb_getsize env path])\<rparr>"
  from Cons.prems have path: "o_noop opt \<or> fe_open env path (io_open_mode opt)"
    "o_blk_sz opt * o_ofst_start opt \<le> mb_getsize env path"
    "o_blk_sz opt * o_ofst_end opt \<le> mb_getsize env path"
    and loop: "io_file_loop env files ?opt = Inr (opt', True)"
    by (simp_all add: io_file_loop_step append_opt_def del: io_file_loop.simps)
  from Cons.IH [OF loop] have
    "opt' = opt\<lparr>o_file_path_list := Some (ps @ path # files),
                o_file_size_list := Some (ss @ map (mb_getsize env) (path # files))\<rparr>"
    "io_files_ok env opt files" by simp_all
  moreover from this(2) path have "io_files_ok env opt (path # files)"
    by (simp add: io_files_ok_def)
  ultimately show ?case by simp
qed

definition io_ready :: "io_env \<Rightarrow> micbench_io_option \<Rightarrow> bool" where
  "io_ready env opt \<longleftrightarrow>
     (\<exists>files. files \<noteq> [] \<and> o_nr_files opt = int (length files) \<and>
        o_file_path_list opt = Some files \<and>
        o_file_size_list opt = Some (map (mb_getsize env) files) \<and> io_files_ok env opt files) \<and>
     (o_direct opt \<longrightarrow> crem (o_blk_sz opt) 512 = 0 \<and> ie_getuid env = 0) \<and>
     (o_aio_tracefile opt \<noteq> None \<longrightarrow> o_aio opt) \<and>
     (o_logfile opt \<longleftrightarrow> o_logfile_path opt \<noteq> None)"

lemma io_final_checks_ok:
  assumes "io_final_checks env opt = (opt', True)" and "\<not> o_logfile opt"
  shows "\<exists>lf. opt' = opt\<lparr>o_logfile := lf\<rparr> \<and> (lf \<longleftrightarrow> o_logfile_path opt \<noteq> None) \<and>
    (o_direct opt \<longrightarrow> crem (o_blk_sz opt) 512 = 0 \<and> ie_getuid env = 0) \<and>
    (o_aio_tracefile opt \<noteq> None \<longrightarrow> o_aio opt)"
proof (cases "o_logfile_path opt")
  case None
  have "opt = opt\<lparr>o_logfile := False\<rparr>" using assms(2) by simp
  then show ?thesis
    using assms(1) None unfolding io_final_checks_def by (auto split: if_splits)
next
  case (Some path)
  then show ?thesis
    using assms(1) unfolding io_final_checks_def by (auto split: if_splits)
qed

lemma io_parse_ready:
  assumes opt: "\<not> o_logfile opt" and files: "files \<noteq> []"
    and loop: "io_file_loop env files
      (opt\<lparr>o_nr_files := int (length files), o_file_path_list := Some [],
           o_file_size_list := Some []\<rparr>) = Inr (opt1, True)"
    and final: "io_final_checks env opt1 = (opt2, True)"
  shows "io_ready env opt2 \<and>
    (\<exists>n ps ss lf. opt2 = opt\<lparr>o_nr_files := n, o_file_path_list := ps, o_file_size_list := ss,
                             o_logfile := lf\<rparr>)"
proof -
  have opt1: "opt1 = opt\<lparr>o_nr_files := int (length files), o_file_path_list := Some files,
        o_file_size_list := Some (map (mb_getsize env) files)\<rparr>"
    and ok: "io_files_ok env opt files"
    using io_file_loop_ok [OF loop, of "[]" "[]"] by simp_all
  have "\<not> o_logfile opt1" using opt opt1 by simp
  from io_final_checks_ok [OF final this] obtain lf where opt2: "opt2 = opt1\<lparr>o_logfile := lf\<rparr>"
    "lf \<longleftrightarrow> o_logfile_path opt1 \<noteq> None"
    "o_direct opt1 \<longrightarrow> crem (o_blk_sz opt1) 512 = 0 \<and> ie_getuid env = 0"
    "o_aio_tracefile opt1 \<noteq> None \<longrightarrow> o_aio opt1" by blast
  have "io_ready env opt2"
    unfolding io_ready_def using opt2 files ok
    by (simp add: opt1)
  then show ?thesis using opt2(1) opt1 by auto
qed

lemma io_option_invar_rest:
  "io_option_invar env opt \<Longrightarrow>
     io_option_invar env (opt\<lparr>o_nr_files := n, o_file_path_list := ps, o_file_size_list := ss,
                              o_logfile := False\<rparr>)"
  by (simp add: io_option_invar_def)

subsection \<open>Command lines for given options\<close>

text \<open>
  A command line for a record of options: every number, the pattern, the engine, the flags that
  are set, and the files after \<open>--\<close>. It is what the tests of the repository and the driver
  script write out option by option.
\<close>

definition io_pattern_flag :: "mb_io_pattern \<Rightarrow> char" where
  "io_pattern_flag p =
     (case p of PATTERN_SEQ \<Rightarrow> CHR ''S'' | PATTERN_RAND \<Rightarrow> CHR ''R''
      | PATTERN_SEEKDIST \<Rightarrow> CHR ''D'' | PATTERN_SEEKINCR \<Rightarrow> CHR ''I'')"

definition flag_if :: "bool \<Rightarrow> char \<Rightarrow> string list" where
  "flag_if b c = (if b then [[CHR ''-'', c]] else [])"

definition arg_if :: "char \<Rightarrow> string option \<Rightarrow> string list" where
  "arg_if c x = (case x of None \<Rightarrow> [] | Some v \<Rightarrow> [[CHR ''-'', c], v])"

definition io_argv :: "micbench_io_option \<Rightarrow> string list \<Rightarrow> string list" where
  "io_argv opt files =
     ''-m'' # show_int (o_multi opt) # ''-t'' # show_int (o_timeout opt) #
     ''-E'' # show_int (o_aio_nr_events opt) # ''-b'' # show_int (o_blk_sz opt) #
     ''-s'' # show_int (o_ofst_start opt) # ''-e'' # show_int (o_ofst_end opt) #
     ''-B'' # show_int (o_seekdist_stride opt) # ''-z'' # show_int (o_misalign opt) #
     ''-c'' # show_int (o_bogus_comp opt) # ''-i'' # show_int (o_iosleep opt) #
     ''-g'' # (if o_aio_engine opt = AIO_LIBAIO then ''libaio'' else ''io_uring'') #
     [CHR ''-'', io_pattern_flag (o_pattern opt)] #
     arg_if (CHR ''T'') (o_aio_tracefile opt) @ arg_if (CHR ''l'') (o_logfile_path opt) @
     flag_if (o_noop opt) (CHR ''N'') @ flag_if (o_direct opt) (CHR ''d'') @
     flag_if (o_aio opt) (CHR ''A'') @ flag_if (o_write opt) (CHR ''W'') @
     flag_if (o_continue_on_error opt) (CHR ''C'') @ flag_if (o_json opt) (CHR ''j'') @
     flag_if (o_verbose opt) (CHR ''v'') @ ''--'' # files"

text \<open>The scan and the option loop together, so that a command line is read from the left.\<close>

definition io_run_options ::
  "io_env \<Rightarrow> string list \<Rightarrow> micbench_io_option \<Rightarrow>
     (micbench_io_option \<times> bool \<times> string list) c_result" where
  "io_run_options env args opt =
     (let (evs, files) = getopts io_optspec [] args
      in bind_c (io_option_loop env evs opt) (\<lambda>(opt', ok). Inr (opt', ok, files)))"

lemma io_run_flag:
  assumes "map_of io_optspec c = Some False" and "c \<noteq> CHR ''-''"
    and "io_set_flag c opt = (opt', True)"
  shows "io_run_options env ([CHR ''-'', c] # args) opt = io_run_options env args opt'"
  unfolding io_run_options_def getopts_flag [OF assms(1,2)]
  by (simp add: io_option_step_def assms(3) split: prod.splits)

lemma io_run_arg:
  assumes "map_of io_optspec c = Some True" and "c \<noteq> CHR ''-''"
    and "\<And>rest. io_set_value env c arg rest opt = Inr (opt', True)"
  shows "io_run_options env ([CHR ''-'', c] # arg # args) opt = io_run_options env args opt'"
  unfolding io_run_options_def getopts_arg [OF assms(1,2)]
  by (simp add: io_option_step_def assms(3) split: prod.splits)

lemma io_run_flag_if:
  assumes "map_of io_optspec c = Some False" and "c \<noteq> CHR ''-''"
    and "io_set_flag c opt = (opt', True)"
  shows "io_run_options env (flag_if b c @ args) opt =
    io_run_options env args (if b then opt' else opt)"
  using io_run_flag [OF assms] by (simp add: flag_if_def)

lemma io_run_end: "io_run_options env (''--'' # files) opt = Inr (opt, True, files)"
  by (simp add: io_run_options_def del: getopts.simps) (simp add: getopts_end)

lemma strtol_show_int_all: "in_long i \<Longrightarrow> fst (strtol (show_int i)) = i"
  using strtol_show_int [of i "[]"] by simp

lemma in_int_long: "in_int i \<Longrightarrow> in_long i"
  by (simp add: in_int_def in_long_def)

lemma io_run_value:
  "in_int n \<Longrightarrow> io_run_options env (''-m'' # show_int n # args) opt =
     io_run_options env args (opt\<lparr>o_multi := n\<rparr>)"
  "in_int n \<Longrightarrow> io_run_options env (''-t'' # show_int n # args) opt =
     io_run_options env args (opt\<lparr>o_timeout := n\<rparr>)"
  "in_int n \<Longrightarrow> io_run_options env (''-E'' # show_int n # args) opt =
     io_run_options env args (opt\<lparr>o_aio_nr_events := n\<rparr>)"
  "in_int n \<Longrightarrow> io_run_options env (''-b'' # show_int n # args) opt =
     io_run_options env args (opt\<lparr>o_blk_sz := n\<rparr>)"
  "in_long n \<Longrightarrow> io_run_options env (''-s'' # show_int n # args) opt =
     io_run_options env args (opt\<lparr>o_ofst_start := n\<rparr>)"
  "in_long n \<Longrightarrow> io_run_options env (''-e'' # show_int n # args) opt =
     io_run_options env args (opt\<lparr>o_ofst_end := n\<rparr>)"
  "in_long n \<Longrightarrow> io_run_options env (''-B'' # show_int n # args) opt =
     io_run_options env args (opt\<lparr>o_seekdist_stride := n\<rparr>)"
  "in_long n \<Longrightarrow> io_run_options env (''-z'' # show_int n # args) opt =
     io_run_options env args (opt\<lparr>o_misalign := n\<rparr>)"
  "in_long n \<Longrightarrow> io_run_options env (''-c'' # show_int n # args) opt =
     io_run_options env args (opt\<lparr>o_bogus_comp := n\<rparr>)"
  "0 \<le> n \<Longrightarrow> n < 2 ^ 32 \<Longrightarrow> io_run_options env (''-i'' # show_int n # args) opt =
     io_run_options env args (opt\<lparr>o_iosleep := n\<rparr>)"
  by (rule io_run_arg;
      simp add: io_optspec_def io_set_value_def strtol_show_int_all in_int_long to_int_id;
      simp add: strtol_show_int_all in_long_def)+

lemma io_run_engine:
  assumes "e = AIO_IOURING \<longrightarrow> ie_have_io_uring env"
  shows "io_run_options env
      (''-g'' # (if e = AIO_LIBAIO then ''libaio'' else ''io_uring'') # args) opt =
    io_run_options env args (opt\<lparr>o_aio_engine := e\<rparr>)"
  using assms
  by (intro io_run_arg; cases e)
    (simp_all add: io_optspec_def io_set_value_def io_set_engine_def)

lemma io_run_pattern:
  "io_run_options env ([CHR ''-'', io_pattern_flag p] # args) opt =
     io_run_options env args (opt\<lparr>o_pattern := p\<rparr>)"
  by (cases p)
    (auto intro!: io_run_flag simp: io_optspec_def io_set_flag_def io_pattern_flag_def
      simp del: getopts.simps)

lemma io_run_arg_if:
  assumes "\<And>v. io_run_options env ([CHR ''-'', c] # v # args) opt = io_run_options env args (upd v)"
  shows "io_run_options env (arg_if c f @ args) opt =
    io_run_options env args (case f of None \<Rightarrow> opt | Some v \<Rightarrow> upd v)"
  by (cases f) (simp_all add: arg_if_def assms)

lemma io_run_paths:
  "io_run_options env (arg_if (CHR ''T'') f @ args) opt =
     io_run_options env args (opt\<lparr>o_aio_tracefile := (if f = None then o_aio_tracefile opt else f)\<rparr>)"
  "io_run_options env (arg_if (CHR ''l'') f @ args) opt =
     io_run_options env args (opt\<lparr>o_logfile_path := (if f = None then o_logfile_path opt else f)\<rparr>)"
proof -
  have "io_run_options env (''-T'' # v # args) opt =
      io_run_options env args (opt\<lparr>o_aio_tracefile := Some v\<rparr>)"
    "io_run_options env (''-l'' # v # args) opt =
      io_run_options env args (opt\<lparr>o_logfile_path := Some v\<rparr>)" for v
    by (rule io_run_arg; simp add: io_optspec_def io_set_value_def)+
  from this [THEN io_run_arg_if] show
    "io_run_options env (arg_if (CHR ''T'') f @ args) opt =
     io_run_options env args (opt\<lparr>o_aio_tracefile := (if f = None then o_aio_tracefile opt else f)\<rparr>)"
    "io_run_options env (arg_if (CHR ''l'') f @ args) opt =
     io_run_options env args (opt\<lparr>o_logfile_path := (if f = None then o_logfile_path opt else f)\<rparr>)"
    by (simp_all split: option.split)
qed

lemma io_run_flags:
  "io_run_options env (flag_if b (CHR ''N'') @ args) opt =
     io_run_options env args (opt\<lparr>o_noop := (o_noop opt \<or> b)\<rparr>)"
  "io_run_options env (flag_if b (CHR ''d'') @ args) opt =
     io_run_options env args (opt\<lparr>o_direct := (o_direct opt \<or> b)\<rparr>)"
  "io_run_options env (flag_if b (CHR ''A'') @ args) opt =
     io_run_options env args (opt\<lparr>o_aio := (o_aio opt \<or> b)\<rparr>)"
  "io_run_options env (flag_if b (CHR ''C'') @ args) opt =
     io_run_options env args (opt\<lparr>o_continue_on_error := (o_continue_on_error opt \<or> b)\<rparr>)"
  "io_run_options env (flag_if b (CHR ''j'') @ args) opt =
     io_run_options env args (opt\<lparr>o_json := (o_json opt \<or> b)\<rparr>)"
  "io_run_options env (flag_if b (CHR ''v'') @ args) opt =
     io_run_options env args (opt\<lparr>o_verbose := (o_verbose opt \<or> b)\<rparr>)"
  "io_run_options env (flag_if b (CHR ''W'') @ args) opt =
     io_run_options env args (opt\<lparr>o_write := (o_write opt \<or> b), o_read := (o_read opt \<and> \<not> b)\<rparr>)"
  by (simp_all add: flag_if_def, (intro impI io_run_flag; simp add: io_optspec_def io_set_flag_def)+)

lemmas io_run_simps = io_run_value io_run_pattern io_run_paths io_run_flags io_run_end

lemma io_run_argv:
  assumes "io_option_invar env opt" and "o_affinities opt = None" and "o_rwmix opt = Fin 0"
    and "o_read opt = (\<not> o_write opt)"
  shows "io_run_options env (io_argv opt files) (io_default_option old) =
    Inr (opt\<lparr>o_nr_files := o_nr_files old, o_open_flags := (O_RDONLY, False),
             o_file_path_list := None, o_file_size_list := None\<rparr>, True, files)"
proof -
  have opt: "in_int (o_multi opt)" "in_int (o_timeout opt)" "in_int (o_blk_sz opt)"
    "in_int (o_aio_nr_events opt)" "in_long (o_ofst_start opt)" "in_long (o_ofst_end opt)"
    "in_long (o_seekdist_stride opt)" "in_long (o_misalign opt)" "in_long (o_bogus_comp opt)"
    "0 \<le> o_iosleep opt" "o_iosleep opt < 2 ^ 32" "\<not> o_logfile opt"
    "o_aio_engine opt = AIO_IOURING \<longrightarrow> ie_have_io_uring env"
    using assms(1) unfolding io_option_invar_def by blast+
  show ?thesis
    unfolding io_argv_def
    by (simp only: io_run_simps io_run_engine [OF opt(13)] opt(1-12))
      (simp add: assms opt io_default_option_def)
qed

lemma io_file_loop_complete:
  assumes "io_files_ok env opt files" and "in_long (o_blk_sz opt * o_ofst_start opt)"
    and "in_long (o_blk_sz opt * o_ofst_end opt)"
    and "o_file_path_list opt = Some ps" and "o_file_size_list opt = Some ss"
  shows "io_file_loop env files opt =
    Inr (opt\<lparr>o_file_path_list := Some (ps @ files),
             o_file_size_list := Some (ss @ map (mb_getsize env) files)\<rparr>, True)"
  using assms
proof (induction files arbitrary: opt ps ss)
  case Nil
  then have "opt\<lparr>o_file_path_list := Some ps, o_file_size_list := Some ss\<rparr> = opt"
    by (cases opt) simp
  then show ?case by simp
next
  case (Cons path files)
  let ?opt = "opt\<lparr>o_file_path_list := Some (ps @ [path]),
                  o_file_size_list := Some (ss @ [mb_getsize env path])\<rparr>"
  have "io_file_loop env files ?opt =
      Inr (?opt\<lparr>o_file_path_list := Some ((ps @ [path]) @ files),
               o_file_size_list := Some ((ss @ [mb_getsize env path]) @ map (mb_getsize env) files)\<rparr>,
           True)"
    using Cons.prems by (intro Cons.IH) (simp_all add: io_files_ok_def)
  then show ?case
    using Cons.prems unfolding io_file_loop_step
    by (simp add: io_files_ok_def append_opt_def)
qed

lemma io_final_checks_complete:
  assumes "o_direct opt \<longrightarrow> crem (o_blk_sz opt) 512 = 0 \<and> ie_getuid env = 0"
    and "o_aio_tracefile opt \<noteq> None \<longrightarrow> o_aio opt" and "\<not> o_logfile opt"
    and "\<And>path. o_logfile_path opt = Some path \<Longrightarrow> ie_fopen_w env path"
  shows "io_final_checks env opt = (opt\<lparr>o_logfile := (o_logfile_path opt \<noteq> None)\<rparr>, True)"
proof -
  have "opt\<lparr>o_logfile := False\<rparr> = opt" using assms(3) by (cases opt) simp
  then show ?thesis
    using assms by (cases "o_logfile_path opt") (auto simp: io_final_checks_def)
qed

lemma io_parse_argv:
  assumes "io_ready env opt" and "io_option_invar env (opt\<lparr>o_logfile := False\<rparr>)"
    and "o_affinities opt = None" and "o_rwmix opt = Fin 0" and "o_read opt = (\<not> o_write opt)"
    and "o_open_flags opt = (O_RDONLY, False)" and "o_file_path_list opt = Some files"
    and "in_long (o_blk_sz opt * o_ofst_start opt)" and "in_long (o_blk_sz opt * o_ofst_end opt)"
    and "\<And>path. o_logfile_path opt = Some path \<Longrightarrow> ie_fopen_w env path"
  shows "io_parse_args env (prog # io_argv opt files) old = Inr (0, opt)"
proof -
  let ?opt0 = "opt\<lparr>o_logfile := False, o_nr_files := o_nr_files old, o_file_path_list := None,
                   o_file_size_list := None\<rparr>"
  have ready: "files \<noteq> []" "o_nr_files opt = int (length files)"
    "o_file_size_list opt = Some (map (mb_getsize env) files)" "io_files_ok env opt files"
    "o_direct opt \<longrightarrow> crem (o_blk_sz opt) 512 = 0 \<and> ie_getuid env = 0"
    "o_aio_tracefile opt \<noteq> None \<longrightarrow> o_aio opt" "o_logfile opt \<longleftrightarrow> o_logfile_path opt \<noteq> None"
    using assms(1,7) unfolding io_ready_def by auto
  have argv: "io_argv (opt\<lparr>o_logfile := False\<rparr>) files = io_argv opt files"
    by (simp add: io_argv_def)
  have "opt\<lparr>o_open_flags := (O_RDONLY, False)\<rparr> = opt" using assms(6) by (cases opt) simp
  then have flags: "opt\<lparr>o_logfile := False, o_nr_files := o_nr_files old,
      o_open_flags := (O_RDONLY, False), o_file_path_list := None, o_file_size_list := None\<rparr> = ?opt0"
    by (cases opt) simp
  have "io_run_options env (io_argv opt files) (io_default_option old) = Inr (?opt0, True, files)"
    using io_run_argv [OF assms(2), of files old] assms(3-5) flags by (simp add: argv)
  then obtain evs where scan: "getopt_scan io_optspec (prog # io_argv opt files) = (evs, files)"
    and opts: "io_option_loop env evs (io_default_option old) = Inr (?opt0, True)"
    unfolding io_run_options_def getopt_scan_def
    by (auto simp: bind_c_eq_Inr split: prod.splits)
  let ?opt1 = "opt\<lparr>o_logfile := False, o_nr_files := int (length files), o_file_path_list := Some [],
                     o_file_size_list := Some []\<rparr>"
  let ?opt2 = "opt\<lparr>o_logfile := False, o_nr_files := int (length files), o_file_path_list := Some files,
                     o_file_size_list := Some (map (mb_getsize env) files)\<rparr>"
  have loop: "io_file_loop env files ?opt1 = Inr (?opt2, True)"
    using io_file_loop_complete [of env ?opt1 files "[]" "[]"] ready(4) assms(8,9) by simp
  have "io_final_checks env ?opt2 = (?opt2\<lparr>o_logfile := (o_logfile_path opt \<noteq> None)\<rparr>, True)"
    using io_final_checks_complete [of ?opt2 env] ready(5,6) assms(10) by simp
  moreover have "?opt2\<lparr>o_logfile := (o_logfile_path opt \<noteq> None)\<rparr> = opt"
    using ready(2,3,7) assms(7) by (cases opt) simp
  ultimately have final: "io_final_checks env ?opt2 = (opt, True)" by simp
  show ?thesis
    unfolding io_parse_args_def scan using ready(1) by (simp add: opts loop final)
qed

subsection \<open>Properties\<close>

lemma io_parse_args_result:
  assumes "io_parse_args env argv option = Inr (ret, opt)"
  shows "ret = 0 \<and> io_ready env opt \<and> io_option_invar env (opt\<lparr>o_logfile := False\<rparr>) \<or>
         ret = 1 \<and> o_file_path_list opt = None \<and> o_file_size_list opt = None"
proof -
  obtain evs files where scan: "getopt_scan io_optspec argv = (evs, files)" by fastforce
  from assms obtain opt0 ok where
    opts: "io_option_loop env evs (io_default_option option) = Inr (opt0, ok)"
    unfolding io_parse_args_def scan by (auto simp: bind_c_eq_Inr)
  have inv: "io_option_invar env opt0"
    using io_option_loop_invar [OF io_default_invar opts] .
  then have nolog: "\<not> o_logfile opt0" by (simp add: io_option_invar_def)
  show ?thesis
  proof (cases "ok \<and> files \<noteq> []")
    case False
    then have "io_parse_args env argv option = Inr (io_parse_error opt0)"
      unfolding io_parse_args_def scan by (cases ok) (simp_all add: opts)
    then show ?thesis using assms by (auto simp: io_parse_error_def)
  next
    case True
    let ?opt = "opt0\<lparr>o_nr_files := int (length files), o_file_path_list := Some [],
        o_file_size_list := Some []\<rparr>"
    from True assms obtain opt1 ok1 where loop: "io_file_loop env files ?opt = Inr (opt1, ok1)"
      and rest: "(if \<not> ok1 then Inr (io_parse_error opt1)
        else let (opt2, ok2) = io_final_checks env opt1
             in if ok2 then Inr (0, opt2) else Inr (io_parse_error opt2)) = (Inr (ret, opt) :: _ c_result)"
      unfolding io_parse_args_def scan by (auto simp: opts bind_c_eq_Inr)
    obtain opt2 ok2 where final: "io_final_checks env opt1 = (opt2, ok2)" by fastforce
    show ?thesis
    proof (cases "ok1 \<and> ok2")
      case False
      then show ?thesis using rest by (auto simp: final io_parse_error_def split: if_splits)
    next
      case both: True
      then have ret: "ret = 0" "opt = opt2" using rest by (simp_all add: final)
      have "io_ready env opt2 \<and> (\<exists>n ps ss lf. opt2 = opt0\<lparr>o_nr_files := n, o_file_path_list := ps,
          o_file_size_list := ss, o_logfile := lf\<rparr>)"
        using io_parse_ready [OF nolog, of files env opt1 opt2] True both loop final by simp
      then show ?thesis using ret io_option_invar_rest [OF inv] by auto
    qed
  qed
qed

text \<open>
  C26: whatever the command line, \<open>parse_args\<close> of micbench-io that returns does so with 0 or 1.
  With 0 the options are ready for the run: at least one file, the recorded sizes are the
  sizes of the files, each file could be opened in the mode the run uses (unless \<open>-N\<close> was
  given), neither offset lies beyond the end of any file, \<open>-d\<close> came with a block size that is
  a multiple of 512 and with root, a trace file only with \<open>-A\<close>, the log file is open exactly if
  one was named, at most one of read and write is chosen, the mixture lies between 0 and 1 (or
  is not a number), every affinity is stored under its own thread, and the numbers fit their
  types. With 1 both arrays of files have been released.
\<close>

theorem io_parse_args_sound:
  assumes "io_parse_args env argv option = Inr (ret, opt)"
  shows "ret = 0 \<and> io_ready env opt \<and> io_option_invar env (opt\<lparr>o_logfile := False\<rparr>) \<or>
         ret = 1 \<and> o_file_path_list opt = None \<and> o_file_size_list opt = None"
  using assms by (rule io_parse_args_result)

text \<open>
  C27: options are printed and read back. For a record of options that is ready for a run and that
  the command line of \<open>io_argv\<close> can express (read mode or write mode but no mixed mode, no
  affinities, the open flags of the default, offsets whose products with the block size fit
  \<open>long\<close>, a log that can be opened), \<open>parse_args\<close> on that command line returns 0 and gives exactly that
  record, every field with its value, whatever the record held before.
\<close>

theorem io_parse_args_roundtrip:
  assumes "io_ready env opt" and "io_option_invar env (opt\<lparr>o_logfile := False\<rparr>)"
    and "o_affinities opt = None" and "o_rwmix opt = Fin 0" and "o_read opt = (\<not> o_write opt)"
    and "o_open_flags opt = (O_RDONLY, False)" and "o_file_path_list opt = Some files"
    and "in_long (o_blk_sz opt * o_ofst_start opt)" and "in_long (o_blk_sz opt * o_ofst_end opt)"
    and "\<And>path. o_logfile_path opt = Some path \<Longrightarrow> ie_fopen_w env path"
  shows "io_parse_args env (prog # io_argv opt files) old = Inr (0, opt)"
  by (rule io_parse_argv [OF assms])

subsection \<open>A command line\<close>

definition demo_env :: io_env where
  "demo_env =
     \<lparr>fe_open = \<lambda>path mode. path = ''f'', fe_fstat = \<lambda>path. Some (Regular 65536),
      ie_strtod = \<lambda>s. Fin 0, ie_fopen_w = \<lambda>path. True, ie_getuid = 0, ie_have_io_uring = False\<rparr>"

definition demo_option :: micbench_io_option where
  "demo_option =
     \<lparr>o_multi = 4, o_pattern = PATTERN_RAND, o_direct = True, o_read = False, o_write = True,
      o_rwmix = Fin 0, o_aio = True, o_aio_engine = AIO_LIBAIO, o_aio_nr_events = 8,
      o_aio_tracefile = None, o_logfile_path = Some ''log'', o_logfile = True,
      o_affinities = None, o_timeout = 5, o_blk_sz = 512, o_ofst_start = 0, o_ofst_end = 128,
      o_seekdist_stride = 16384, o_misalign = 0, o_open_flags = (O_RDONLY, False),
      o_nr_files = 1, o_file_path_list = Some [''f''], o_file_size_list = Some [65536],
      o_bogus_comp = 0, o_iosleep = 0, o_continue_on_error = False, o_json = True,
      o_verbose = False, o_noop = False\<rparr>"

lemma demo_option_ready: "io_ready demo_env demo_option"
  by (simp add: io_ready_def demo_option_def demo_env_def io_files_ok_def mb_getsize_def
      crem_def cdiv_def)

lemma demo_option_invar: "io_option_invar demo_env (demo_option\<lparr>o_logfile := False\<rparr>)"
  by (simp add: io_option_invar_def demo_option_def rwmix_ok_def affinities_ok_def
      in_int_def in_long_def)

lemma demo_option_parsed:
  "io_parse_args demo_env (''micbench-io'' # io_argv demo_option [''f'']) demo_option =
     Inr (0, demo_option)"
  using io_parse_argv
    [OF demo_option_ready demo_option_invar, of "[''f'']" "''micbench-io''" demo_option]
  by (simp add: demo_option_def demo_env_def in_long_def)

theorem io_parse_args_sound_witness:
  "io_parse_args demo_env (''micbench-io'' # io_argv demo_option [''f'']) demo_option =
     Inr (0, demo_option) \<and> io_ready demo_env demo_option"
  using io_parse_args_sound [OF demo_option_parsed] demo_option_parsed by simp

theorem io_parse_args_roundtrip_witness:
  "io_parse_args demo_env (''micbench-io'' # io_argv demo_option [''f'']) demo_option =
     Inr (0, demo_option)"
  using io_parse_args_roundtrip
    [OF demo_option_ready demo_option_invar, of "[''f'']" "''micbench-io''" demo_option]
  by (simp add: demo_option_def demo_env_def in_long_def)

end
