(* ===== verification/CFormat.thy ===== *)
theory CFormat
  imports CString CDouble
begin

section \<open>Formatted output\<close>

text \<open>
  The \<open>%lf\<close> conversion of \<open>printf\<close>: six decimals, the exact value rounded to nearest with ties
  to even. A NaN that reaches a report comes from an invalid operation, whose result on x86-64
  has its sign bit set, so it is printed as \<open>-nan\<close>.
\<close>

definition pad_zeros :: "nat \<Rightarrow> string \<Rightarrow> string" where
  "pad_zeros n s = replicate (n - length s) (CHR ''0'') @ s"

definition fmt_lf :: "c_double \<Rightarrow> string" where
  "fmt_lf d =
     (case d of
        Fin q \<Rightarrow>
          (let (a, b) = quotient_of \<bar>q\<bar>; n = nat (round_half_even (a * 1000000) b)
           in (if q < 0 then ''-'' else '''') @ show_nat (n div 1000000) @ ''.'' @
              pad_zeros 6 (show_nat (n mod 1000000)))
      | PInf \<Rightarrow> ''inf''
      | NInf \<Rightarrow> ''-inf''
      | NaN \<Rightarrow> ''-nan'')"

definition tab :: string where
  "tab = [CHR 0x09]"

definition newline :: string where
  "newline = [CHR 0x0A]"

definition show_bool :: "bool \<Rightarrow> string" where
  "show_bool b = (if b then ''true'' else ''false'')"

text \<open>A text copied into a buffer of a fixed size: it must fit with its terminating zero.\<close>

definition sprintf_into :: "nat \<Rightarrow> string \<Rightarrow> string c_result" where
  "sprintf_into bufsize s = (if length s < bufsize then Inr s else Inl Undefined)"

end
