(* ===== verification/IoLog.thy ===== *)
theory IoLog
  imports IoOption CFormat
begin

section \<open>The I/O activity log\<close>

text \<open>
  \<open>mb_log_io_activity\<close> of src/src/micbench-io.c: one line per completed request, composed in a
  static buffer of 1024 bytes. The state is the static \<open>logcount\<close> and \<open>log_start_usec\<close> and the
  lines given to \<open>fputs\<close>.
\<close>

record io_log =
  lg_count :: int
  lg_start_usec :: int
  lg_lines :: "string list"

definition io_log_line ::
  "int \<Rightarrow> int \<Rightarrow> int \<Rightarrow> c_double \<Rightarrow> string \<Rightarrow> int \<Rightarrow> int \<Rightarrow> string" where
  "io_log_line issue_usec complete_usec since_start rt file blockaddr blocksz =
     show_int issue_usec @ tab @ show_int complete_usec @ tab @ show_int since_start @ tab @
     fmt_lf rt @ tab @ file @ tab @ show_int blockaddr @ tab @ show_int blocksz @ newline"

definition mb_log_io_activity ::
  "micbench_io_option \<Rightarrow> timeval \<Rightarrow> timeval \<Rightarrow> string \<Rightarrow> int \<Rightarrow> int \<Rightarrow> io_log \<Rightarrow> io_log c_result" where
  "mb_log_io_activity opt issue_tv complete_tv file blockaddr blocksz lg =
     (if \<not> o_logfile opt then Inr lg
      else let issue_usec = TV2LONG issue_tv; complete_usec = TV2LONG complete_tv;
               rt = d_sub (TV2DOUBLE complete_tv) (TV2DOUBLE issue_tv);
               start = (if lg_count lg = 0 then issue_usec else lg_start_usec lg)
           in bind_c
                (sprintf_into 1024
                  (io_log_line issue_usec complete_usec (issue_usec - start) rt file blockaddr blocksz))
                (\<lambda>line. Inr (lg\<lparr>lg_start_usec := start, lg_lines := lg_lines lg @ [line],
                              lg_count := lg_count lg + 1\<rparr>)))"

text \<open>A log that is kept has one line per recorded request.\<close>

definition log_ok :: "micbench_io_option \<Rightarrow> io_log \<Rightarrow> bool" where
  "log_ok opt lg \<longleftrightarrow> lg_count lg = int (length (lg_lines lg))"

lemma log_io_activity_ok:
  assumes "log_ok opt lg" and "mb_log_io_activity opt t0 t1 file addr sz lg = Inr lg'"
  shows "log_ok opt lg'"
    and "lg_count lg' = lg_count lg + (if o_logfile opt then 1 else 0)"
  using assms unfolding mb_log_io_activity_def log_ok_def
  by (auto simp: Let_def bind_c_eq_Inr split: if_splits)

lemma log_off: "\<not> o_logfile opt \<Longrightarrow> mb_log_io_activity opt t0 t1 file addr sz lg = Inr lg"
  by (simp add: mb_log_io_activity_def)

end
