(* ===== verification/Aiom.thy ===== *)
theory Aiom
  imports ResPool IoLog "HOL-Library.Multiset"
begin

section \<open>The asynchronous I/O manager\<close>

text \<open>
  \<open>mb_aiom_t\<close> (src/src/micbench-io.h) and the \<open>mb_aiom\<close> functions of src/src/micbench-io.c for both
  engines, libaio and io_uring. Control blocks live at addresses; the free ones are in the
  resource pool, the prepared ones in the array \<open>pending\<close>, the submitted ones with the kernel.
  The kernel is a parameter, as in the theory of the I/O helpers. Left out are the lines that
  \<open>mb_aiom_submit\<close> and \<open>mb_aiom_wait\<close> write to the file of the option \<open>-T\<close> (\<open>aio_tracefile\<close>), if
  there is one.

  The invariant \<open>aiom_invar\<close> says that every control block is in exactly one of the three
  places and that the counters count them.
\<close>

subsection \<open>Data\<close>

datatype mb_io_mode = MB_DO_READ | MB_DO_WRITE

record iovec =
  iov_base :: addr
  iov_len :: "64 word"

record iocb =
  aio_opcode :: mb_io_mode
  aio_fildes :: int
  aio_buf :: addr
  aio_nbytes :: "64 word"
  aio_offset :: int

text \<open>\<open>vec\<close> points into the array \<open>vecs\<close> of the manager: it is the index.\<close>

record aiom_cb =
  cb_iocb :: iocb
  cb_submit_time :: timeval
  cb_queue_time :: timeval
  cb_file_idx :: int
  cb_vec :: nat
  cb_iovec_idx :: int

record io_event =
  ev_obj :: addr
  ev_res :: int
  ev_res2 :: int

text \<open>
  The manager with the memory it owns: the control blocks by address and the buffers by
  address. The arrays \<open>pending\<close> and \<open>events\<close> have \<open>nr_events\<close> entries.
\<close>

record mb_aiom =
  am_cbpool :: pool_state
  am_vecs :: "iovec list"
  am_nr_events :: int
  am_nr_pending :: int
  am_nr_inflight :: int
  am_iocount :: int
  am_iowait :: c_double
  am_pending :: "addr list"
  am_events :: "io_event list"
  am_cbs :: "addr \<rightharpoonup> aiom_cb"
  am_bufs :: "addr \<rightharpoonup> 8 word list"

text \<open>
  The calls of libaio and liburing. A call that waits gives no result if it never returns.
  \<open>a_uring_prep\<close> is \<open>io_uring_get_sqe\<close> with the preparation of the entry; \<open>False\<close> if the
  submission queue is full and \<open>io_uring_get_sqe\<close> returns \<open>NULL\<close>.
\<close>

record 'w aio_kernel = "'w kernel" +
  a_io_setup :: "int \<Rightarrow> 'w \<Rightarrow> int \<times> 'w"
  a_io_destroy :: "'w \<Rightarrow> 'w"
  a_io_submit :: "(addr \<times> iocb) list \<Rightarrow> 'w \<Rightarrow> int \<times> 'w"
  a_io_getevents :: "int \<Rightarrow> int \<Rightarrow> 'w \<Rightarrow> (int \<times> io_event list \<times> 'w) option"
  a_uring_queue_init :: "int \<Rightarrow> 'w \<Rightarrow> int \<times> 'w"
  a_uring_register_buffers :: "iovec list \<Rightarrow> 'w \<Rightarrow> int \<times> 'w"
  a_uring_queue_exit :: "'w \<Rightarrow> 'w"
  a_uring_prep :: "addr \<Rightarrow> iocb \<Rightarrow> int \<Rightarrow> 'w \<Rightarrow> bool \<times> 'w"
  a_uring_submit :: "'w \<Rightarrow> int \<times> 'w"
  a_uring_wait_cqe :: "'w \<Rightarrow> (int \<times> addr \<times> 'w) option"

definition zero_timeval :: timeval where
  "zero_timeval = \<lparr>tv_sec = 0, tv_usec = 0\<rparr>"

definition zero_iocb :: iocb where
  "zero_iocb = \<lparr>aio_opcode = MB_DO_READ, aio_fildes = 0, aio_buf = NULL, aio_nbytes = 0,
                aio_offset = 0\<rparr>"

definition zero_event :: io_event where
  "zero_event = \<lparr>ev_obj = NULL, ev_res = 0, ev_res2 = 0\<rparr>"

subsection \<open>Access to a control block\<close>

definition load_cb :: "mb_aiom \<Rightarrow> addr \<Rightarrow> aiom_cb c_result" where
  "load_cb am a =
     (if a = NULL then Inl Undefined
      else case am_cbs am a of None \<Rightarrow> Inl Undefined | Some cb \<Rightarrow> Inr cb)"

definition load_vec :: "mb_aiom \<Rightarrow> nat \<Rightarrow> iovec c_result" where
  "load_vec am i = (if i < length (am_vecs am) then Inr (am_vecs am ! i) else Inl Undefined)"

subsection \<open>mb_aiom_make\<close>

text \<open>
  The loop that makes the control blocks: \<open>alloc (2 * i)\<close> and \<open>alloc (2 * i + 1)\<close> are what
  \<open>malloc\<close> and \<open>memalign\<close> return in iteration \<open>i\<close>; \<open>k\<close> iterations are left.
\<close>

primrec aiom_make_loop :: "(nat \<Rightarrow> addr) \<Rightarrow> int \<Rightarrow> nat \<Rightarrow> nat \<Rightarrow> mb_aiom \<Rightarrow> mb_aiom c_result" where
  "aiom_make_loop alloc blk_sz 0 i am = Inr am"
| "aiom_make_loop alloc blk_sz (Suc k) i am =
     (let cb = alloc (2 * i); base = alloc (2 * i + 1)
      in if cb = NULL then Inl Exit_Failure
         else if base = NULL then Inl Exit_Failure
         else bind_c (mb_res_pool_push (am_cbpool am) cb) (\<lambda>(ret, pool).
              aiom_make_loop alloc blk_sz k (Suc i)
                (am\<lparr>am_cbpool := pool,
                    am_cbs := (am_cbs am)(cb \<mapsto>
                      \<lparr>cb_iocb = zero_iocb, cb_submit_time = zero_timeval,
                       cb_queue_time = zero_timeval, cb_file_idx = 0, cb_vec = i,
                       cb_iovec_idx = int i\<rparr>),
                    am_vecs := (am_vecs am)[i := \<lparr>iov_base = base, iov_len = word_of_int blk_sz\<rparr>],
                    am_bufs := (am_bufs am)(base \<mapsto> replicate (nat blk_sz) 0)\<rparr>)))"

text \<open>
  \<open>alloc\<close> gives the results of the allocations in the order of the source: the manager,
  \<open>pending\<close>, \<open>events\<close>, \<open>vecs\<close>, the pool and its cells, then the blocks of the loop. \<open>iowait\<close> is
  not initialised: it holds \<open>garbage\<close>. \<open>None\<close> is the return of \<open>NULL\<close>.
\<close>

definition mb_aiom_make ::
  "('w, 'k) aio_kernel_scheme \<Rightarrow> micbench_io_option \<Rightarrow> (nat \<Rightarrow> addr) \<Rightarrow> c_double \<Rightarrow> int \<Rightarrow> 'w \<Rightarrow>
     (mb_aiom option \<times> 'w) c_result" where
  "mb_aiom_make K opt alloc garbage nr_events w =
     (let n = nat nr_events
      in if alloc 0 = NULL then Inl Undefined
         else if alloc 1 = NULL \<or> alloc 2 = NULL \<or> alloc 3 = NULL then Inl Exit_Failure
         else bind_c (mb_res_pool_make (\<lambda>j. alloc (4 + j)) nr_events Map.empty) (\<lambda>pool.
              bind_c (aiom_make_loop (\<lambda>j. alloc (5 + n + j)) (o_blk_sz opt) n 0
                \<lparr>am_cbpool = pool, am_vecs = replicate n \<lparr>iov_base = NULL, iov_len = 0\<rparr>,
                 am_nr_events = nr_events, am_nr_pending = 0, am_nr_inflight = 0,
                 am_iocount = 0, am_iowait = garbage, am_pending = replicate n NULL,
                 am_events = replicate n zero_event, am_cbs = Map.empty, am_bufs = Map.empty\<rparr>)
              (\<lambda>am.
                 case o_aio_engine opt of
                   AIO_LIBAIO \<Rightarrow>
                     (let (ret, w1) = a_io_setup K nr_events w
                      in if ret \<noteq> 0 then Inr (None, w1) else Inr (Some am, w1))
                 | AIO_IOURING \<Rightarrow>
                     (let (ret, w1) = a_uring_queue_init K nr_events w
                      in if ret \<noteq> 0 then Inr (None, w1)
                         else let (ret2, w2) = a_uring_register_buffers K (am_vecs am) w1
                              in if ret2 \<noteq> 0 then Inr (None, w2) else Inr (Some am, w2)))))"

subsection \<open>mb_aiom_submit\<close>

primrec aiom_stamp_loop :: "timeval \<Rightarrow> nat \<Rightarrow> nat \<Rightarrow> mb_aiom \<Rightarrow> mb_aiom c_result" where
  "aiom_stamp_loop tv 0 i am = Inr am"
| "aiom_stamp_loop tv (Suc k) i am =
     (if i < length (am_pending am)
      then bind_c (load_cb am (am_pending am ! i)) (\<lambda>cb.
           aiom_stamp_loop tv k (Suc i)
             (am\<lparr>am_cbs := (am_cbs am)(am_pending am ! i \<mapsto> cb\<lparr>cb_submit_time := tv\<rparr>)\<rparr>))
      else Inl Undefined)"

definition cb_iocb_at :: "mb_aiom \<Rightarrow> addr \<Rightarrow> addr \<times> iocb" where
  "cb_iocb_at am a = (a, case am_cbs am a of None \<Rightarrow> zero_iocb | Some cb \<Rightarrow> cb_iocb cb)"

definition mb_aiom_submit ::
  "('w, 'k) aio_kernel_scheme \<Rightarrow> micbench_io_option \<Rightarrow> mb_aiom \<Rightarrow> 'w \<Rightarrow> (mb_aiom \<times> 'w) c_result" where
  "mb_aiom_submit K opt am w =
     (if am_nr_pending am = 0 then Inr (am, w)
      else let (submit_time, w1) = k_gettimeofday K w
           in bind_c (aiom_stamp_loop submit_time (nat (am_nr_pending am)) 0 am) (\<lambda>am1.
              let (ret, w2) =
                    (case o_aio_engine opt of
                       AIO_LIBAIO \<Rightarrow>
                         a_io_submit K
                           (map (cb_iocb_at am1) (take (nat (am_nr_pending am1)) (am_pending am1))) w1
                     | AIO_IOURING \<Rightarrow> a_uring_submit K w1)
              in if ret \<noteq> am_nr_pending am1 then Inl Exit_Failure
                 else Inr (am1\<lparr>am_nr_inflight := am_nr_inflight am1 + am_nr_pending am1,
                               am_nr_pending := 0\<rparr>, w2)))"

subsection \<open>mb_aiom_prep_pread and mb_aiom_prep_pwrite\<close>

text \<open>The two functions differ in the operation; \<open>count\<close> is not used by the source.\<close>

definition mb_aiom_prep ::
  "('w, 'k) aio_kernel_scheme \<Rightarrow> micbench_io_option \<Rightarrow> mb_io_mode \<Rightarrow> mb_aiom \<Rightarrow> int \<Rightarrow> int \<Rightarrow> addr \<Rightarrow>
     int \<Rightarrow> 'w \<Rightarrow> (mb_aiom \<times> 'w) c_result" where
  "mb_aiom_prep K opt mode am fd file_idx a offset w =
     bind_c (load_cb am a) (\<lambda>cb.
     bind_c (load_vec am (cb_vec cb)) (\<lambda>vec.
     let io = \<lparr>aio_opcode = mode, aio_fildes = fd, aio_buf = iov_base vec,
               aio_nbytes = iov_len vec, aio_offset = offset\<rparr>;
         (ok, cb1, w1) =
           (case o_aio_engine opt of
              AIO_LIBAIO \<Rightarrow> (True, cb\<lparr>cb_iocb := io\<rparr>, w)
            | AIO_IOURING \<Rightarrow>
                (let (got, w') = a_uring_prep K a io (cb_iovec_idx cb) w in (got, cb, w')));
         (now, w2) = k_gettimeofday K w1;
         idx = am_nr_pending am
     in if \<not> ok then Inl Undefined
        else if 0 \<le> idx \<and> idx < int (length (am_pending am))
        then Inr (am\<lparr>am_cbs := (am_cbs am)(a \<mapsto> cb1\<lparr>cb_queue_time := now, cb_file_idx := file_idx\<rparr>),
                     am_pending := (am_pending am)[nat idx := a],
                     am_nr_pending := idx + 1\<rparr>, w2)
        else Inl Undefined))"

definition mb_aiom_prep_pread ::
  "('w, 'k) aio_kernel_scheme \<Rightarrow> micbench_io_option \<Rightarrow> mb_aiom \<Rightarrow> int \<Rightarrow> int \<Rightarrow> addr \<Rightarrow> int \<Rightarrow> 'w \<Rightarrow>
     (mb_aiom \<times> 'w) c_result" where
  "mb_aiom_prep_pread K opt = mb_aiom_prep K opt MB_DO_READ"

definition mb_aiom_prep_pwrite ::
  "('w, 'k) aio_kernel_scheme \<Rightarrow> micbench_io_option \<Rightarrow> mb_aiom \<Rightarrow> int \<Rightarrow> int \<Rightarrow> addr \<Rightarrow> int \<Rightarrow> 'w \<Rightarrow>
     (mb_aiom \<times> 'w) c_result" where
  "mb_aiom_prep_pwrite K opt = mb_aiom_prep K opt MB_DO_WRITE"

subsection \<open>Waiting for completions\<close>

definition io_file_path :: "micbench_io_option \<Rightarrow> int \<Rightarrow> string c_result" where
  "io_file_path opt file_idx =
     (case o_file_path_list opt of
        None \<Rightarrow> Inl Undefined
      | Some paths \<Rightarrow>
          if 0 \<le> file_idx \<and> file_idx < int (length paths) then Inr (paths ! nat file_idx)
          else Inl Undefined)"

text \<open>What is done with one completed control block, from the time stamp to the push.\<close>

definition aiom_complete ::
  "('w, 'k) aio_kernel_scheme \<Rightarrow> micbench_io_option \<Rightarrow> addr \<Rightarrow> mb_aiom \<Rightarrow> io_log \<Rightarrow> 'w \<Rightarrow>
     (mb_aiom \<times> io_log \<times> 'w) c_result" where
  "aiom_complete K opt a am lg w =
     bind_c (load_cb am a) (\<lambda>cb.
     let (t1, w1) = k_gettimeofday K w;
         (elapsed, w2) = mb_elapsed_time_from K (cb_submit_time cb) w1;
         am1 = am\<lparr>am_iowait := d_add (am_iowait am) elapsed\<rparr>
     in bind_c (if cb_file_idx cb = -1 then Inr ''(null)'' else io_file_path opt (cb_file_idx cb))
          (\<lambda>file_path.
        bind_c (mb_log_io_activity opt (cb_submit_time cb) t1 file_path
                  (aio_offset (cb_iocb cb)) (o_blk_sz opt) lg) (\<lambda>lg1.
        bind_c (mb_res_pool_push (am_cbpool am1) a) (\<lambda>(ret, pool).
        Inr (am1\<lparr>am_cbpool := pool\<rparr>, lg1, w2)))))"

text \<open>The loop over the events of libaio: event \<open>i\<close> is read from the array \<open>events\<close>.\<close>

primrec aiom_reap_events ::
  "('w, 'k) aio_kernel_scheme \<Rightarrow> micbench_io_option \<Rightarrow> nat \<Rightarrow> nat \<Rightarrow> mb_aiom \<Rightarrow> io_log \<Rightarrow> 'w \<Rightarrow>
     (mb_aiom \<times> io_log \<times> 'w) c_result" where
  "aiom_reap_events K opt 0 i am lg w = Inr (am, lg, w)"
| "aiom_reap_events K opt (Suc k) i am lg w =
     (if i < length (am_events am)
      then bind_c (aiom_complete K opt (ev_obj (am_events am ! i)) am lg w)
             (\<lambda>(am1, lg1, w1). aiom_reap_events K opt k (Suc i) am1 lg1 w1)
      else Inl Undefined)"

text \<open>The loop over the completions of io_uring; a wait that never returns is \<open>None\<close>.\<close>

primrec aiom_reap_cqes ::
  "('w, 'k) aio_kernel_scheme \<Rightarrow> micbench_io_option \<Rightarrow> nat \<Rightarrow> mb_aiom \<Rightarrow> io_log \<Rightarrow> 'w \<Rightarrow>
     (mb_aiom \<times> io_log \<times> 'w) c_result option" where
  "aiom_reap_cqes K opt 0 am lg w = Some (Inr (am, lg, w))"
| "aiom_reap_cqes K opt (Suc k) am lg w =
     (case a_uring_wait_cqe K w of
        None \<Rightarrow> None
      | Some (ret, a, w1) \<Rightarrow>
          if ret \<noteq> 0 then Some (Inl Exit_Failure)
          else case aiom_complete K opt a am lg w1 of
                 Inl e \<Rightarrow> Some (Inl e)
               | Inr (am1, lg1, w2) \<Rightarrow> aiom_reap_cqes K opt k am1 lg1 w2)"

text \<open>\<open>__mb_aiom_wait\<close>, with \<open>aiom->events\<close> as the array for the events.\<close>

definition aiom_wait_min ::
  "('w, 'k) aio_kernel_scheme \<Rightarrow> micbench_io_option \<Rightarrow> int \<Rightarrow> int \<Rightarrow> mb_aiom \<Rightarrow> io_log \<Rightarrow> 'w \<Rightarrow>
     (int \<times> mb_aiom \<times> io_log \<times> 'w) c_result option" where
  "aiom_wait_min K opt min_nr nr am lg w =
     (case o_aio_engine opt of
        AIO_LIBAIO \<Rightarrow>
          (case a_io_getevents K min_nr nr w of
             None \<Rightarrow> None
           | Some (nr_completed, evs, w1) \<Rightarrow>
               if nr_completed < 0 then Some (Inl Exit_Failure)
               else if length (am_events am) < length evs then Some (Inl Undefined)
               else let am1 = am\<lparr>am_events := splice (am_events am) 0 evs,
                                am_nr_inflight := am_nr_inflight am - nr_completed,
                                am_iocount := am_iocount am + nr_completed\<rparr>
                    in Some (bind_c (aiom_reap_events K opt (nat nr_completed) 0 am1 lg w1)
                               (\<lambda>(am2, lg2, w2). Inr (nr_completed, am2, lg2, w2))))
      | AIO_IOURING \<Rightarrow>
          (let nr_completed = to_int min_nr
           in case aiom_reap_cqes K opt (nat nr_completed) am lg w of
                None \<Rightarrow> None
              | Some r \<Rightarrow> Some (bind_c r (\<lambda>(am2, lg2, w2). Inr (nr_completed, am2, lg2, w2)))))"

definition mb_aiom_wait ::
  "('w, 'k) aio_kernel_scheme \<Rightarrow> micbench_io_option \<Rightarrow> mb_aiom \<Rightarrow> io_log \<Rightarrow> 'w \<Rightarrow>
     (int \<times> mb_aiom \<times> io_log \<times> 'w) c_result option" where
  "mb_aiom_wait K opt am lg w = aiom_wait_min K opt 1 (am_nr_inflight am) am lg w"

definition mb_aiom_waitall ::
  "('w, 'k) aio_kernel_scheme \<Rightarrow> micbench_io_option \<Rightarrow> mb_aiom \<Rightarrow> io_log \<Rightarrow> 'w \<Rightarrow>
     (int \<times> mb_aiom \<times> io_log \<times> 'w) c_result option" where
  "mb_aiom_waitall K opt am lg w =
     aiom_wait_min K opt (am_nr_inflight am) (am_nr_inflight am) am lg w"

definition mb_aiom_nr_submittable :: "mb_aiom \<Rightarrow> int" where
  "mb_aiom_nr_submittable am = nr_avail (fst (am_cbpool am))"

subsection \<open>mb_aiom_destroy\<close>

text \<open>
  The loop pops the free control blocks and frees each with its buffer; freeing what is not
  allocated is undefined.
\<close>

partial_function (option) aiom_destroy_loop :: "mb_aiom \<Rightarrow> mb_aiom c_result option" where
  "aiom_destroy_loop am =
     (case mb_res_pool_pop (am_cbpool am) of
        Inl e \<Rightarrow> Some (Inl e)
      | Inr (a, pool) \<Rightarrow>
          if a = NULL then Some (Inr (am\<lparr>am_cbpool := pool\<rparr>))
          else case bind_c (load_cb am a) (\<lambda>cb. load_vec am (cb_vec cb)) of
                 Inl e \<Rightarrow> Some (Inl e)
               | Inr vec \<Rightarrow>
                   if am_bufs am (iov_base vec) = None then Some (Inl Undefined)
                   else aiom_destroy_loop
                     (am\<lparr>am_cbpool := pool, am_bufs := (am_bufs am)(iov_base vec := None),
                         am_cbs := (am_cbs am)(a := None)\<rparr>))"

text \<open>What is left allocated: control blocks, buffers and cells of the pool.\<close>

definition mb_aiom_destroy ::
  "('w, 'k) aio_kernel_scheme \<Rightarrow> micbench_io_option \<Rightarrow> mb_aiom \<Rightarrow> 'w \<Rightarrow>
     ((addr \<rightharpoonup> aiom_cb) \<times> (addr \<rightharpoonup> 8 word list) \<times> cell_heap \<times> 'w) c_result option" where
  "mb_aiom_destroy K opt am w =
     (let w1 = (case o_aio_engine opt of
                  AIO_LIBAIO \<Rightarrow> a_io_destroy K w | AIO_IOURING \<Rightarrow> a_uring_queue_exit K w)
      in case aiom_destroy_loop am of
           None \<Rightarrow> None
         | Some (Inl e) \<Rightarrow> Some (Inl e)
         | Some (Inr am1) \<Rightarrow>
             (case mb_res_pool_destroy (am_cbpool am1) of
                None \<Rightarrow> None
              | Some (Inl e) \<Rightarrow> Some (Inl e)
              | Some (Inr cells) \<Rightarrow> Some (Inr (am_cbs am1, am_bufs am1, cells, w1))))"

subsection \<open>Ownership of the control blocks\<close>

text \<open>
  The documented behaviour of libaio: \<open>infl w\<close> are the control blocks submitted and not yet
  reported. \<open>io_submit\<close> that returns the number of blocks it was given has taken them all;
  \<open>io_getevents\<close> fails with a negative number or reports between \<open>min_nr\<close> and \<open>nr\<close> of the
  blocks in flight, each once; no other call touches them.
\<close>

definition libaio_ok :: "('w, 'k) aio_kernel_scheme \<Rightarrow> ('w \<Rightarrow> addr list) \<Rightarrow> bool" where
  "libaio_ok K infl \<longleftrightarrow>
     (\<forall>cbs w. case a_io_submit K cbs w of (ret, w') \<Rightarrow>
        ret = int (length cbs) \<longrightarrow> mset (infl w') = mset (infl w) + mset (map fst cbs)) \<and>
     (\<forall>mn nr w. case a_io_getevents K mn nr w of
        None \<Rightarrow> True
      | Some (n, evs, w') \<Rightarrow> n < 0 \<or>
          n = int (length evs) \<and> mn \<le> n \<and> n \<le> nr \<and>
          mset (infl w) = mset (map ev_obj evs) + mset (infl w')) \<and>
     (\<forall>w. infl (snd (k_gettimeofday K w)) = infl w) \<and>
     (\<forall>n w. infl (snd (a_io_setup K n w)) = infl w)"

lemma libaio_submit:
  assumes "libaio_ok K infl" and "a_io_submit K cbs w = (int (length cbs), w')"
  shows "mset (infl w') = mset (infl w) + mset (map fst cbs)"
proof -
  have "case a_io_submit K cbs w of (ret, w') \<Rightarrow>
      ret = int (length cbs) \<longrightarrow> mset (infl w') = mset (infl w) + mset (map fst cbs)"
    by (rule spec [OF spec [OF conjunct1 [OF assms(1) [unfolded libaio_ok_def]]]])
  then show ?thesis using assms(2) by simp
qed

lemma libaio_getevents:
  assumes "libaio_ok K infl" and "a_io_getevents K mn nr w = Some (n, evs, w')" and "0 \<le> n"
  shows "n = int (length evs)" "mn \<le> n" "n \<le> nr"
    "mset (infl w) = mset (map ev_obj evs) + mset (infl w')"
proof -
  have "case a_io_getevents K mn nr w of
        None \<Rightarrow> True
      | Some (n, evs, w') \<Rightarrow> n < 0 \<or>
          n = int (length evs) \<and> mn \<le> n \<and> n \<le> nr \<and>
          mset (infl w) = mset (map ev_obj evs) + mset (infl w')"
    by (rule spec [OF spec [OF spec [OF conjunct1 [OF conjunct2 [OF assms(1) [unfolded libaio_ok_def]]]]]])
  then show "n = int (length evs)" "mn \<le> n" "n \<le> nr"
    "mset (infl w) = mset (map ev_obj evs) + mset (infl w')"
    using assms(2,3) by simp_all
qed

definition file_idx_ok :: "micbench_io_option \<Rightarrow> int \<Rightarrow> bool" where
  "file_idx_ok opt i \<longleftrightarrow>
     i = -1 \<or> (\<exists>paths. o_file_path_list opt = Some paths \<and> 0 \<le> i \<and> i < int (length paths))"

text \<open>Every control block exists and has a buffer of its own.\<close>

definition cb_base :: "mb_aiom \<Rightarrow> addr \<Rightarrow> addr" where
  "cb_base am a =
     (case am_cbs am a of None \<Rightarrow> NULL | Some cb \<Rightarrow> iov_base (am_vecs am ! cb_vec cb))"

definition cbs_ok :: "micbench_io_option \<Rightarrow> addr list \<Rightarrow> mb_aiom \<Rightarrow> bool" where
  "cbs_ok opt blocks am \<longleftrightarrow>
     (\<forall>a \<in> set blocks. \<exists>cb. am_cbs am a = Some cb \<and> cb_vec cb < length (am_vecs am) \<and>
        file_idx_ok opt (cb_file_idx cb)) \<and>
     inj_on (cb_base am) (set blocks) \<and> (\<forall>a \<in> set blocks. am_bufs am (cb_base am a) \<noteq> None)"

lemma cbs_ok_upd:
  assumes "cbs_ok opt blocks am" and "am_cbs am a = Some cb" and "cb_vec cb' = cb_vec cb"
    and "file_idx_ok opt (cb_file_idx cb')"
  shows "cbs_ok opt blocks (am\<lparr>am_cbs := (am_cbs am)(a \<mapsto> cb')\<rparr>)"
proof -
  have "cb_base (am\<lparr>am_cbs := (am_cbs am)(a \<mapsto> cb')\<rparr>) = cb_base am"
    using assms(2,3) by (auto simp: cb_base_def fun_eq_iff split: option.split)
  then show ?thesis using assms by (auto simp: cbs_ok_def)
qed

lemma cbs_ok_cong:
  assumes "cbs_ok opt blocks am" and "am_cbs am' = am_cbs am" and "am_vecs am' = am_vecs am"
    and "am_bufs am' = am_bufs am"
  shows "cbs_ok opt blocks am'"
proof -
  have "cb_base am' = cb_base am" by (rule ext) (simp only: cb_base_def assms(2,3))
  then show ?thesis using assms by (simp add: cbs_ok_def)
qed

lemma cbs_ok_simps [simp]:
  "cbs_ok opt blocks (am\<lparr>am_cbpool := x1\<rparr>) = cbs_ok opt blocks am"
  "cbs_ok opt blocks (am\<lparr>am_pending := x2\<rparr>) = cbs_ok opt blocks am"
  "cbs_ok opt blocks (am\<lparr>am_nr_pending := x3\<rparr>) = cbs_ok opt blocks am"
  "cbs_ok opt blocks (am\<lparr>am_nr_inflight := x4\<rparr>) = cbs_ok opt blocks am"
  "cbs_ok opt blocks (am\<lparr>am_iowait := x5\<rparr>) = cbs_ok opt blocks am"
  "cbs_ok opt blocks (am\<lparr>am_iocount := x6\<rparr>) = cbs_ok opt blocks am"
  "cbs_ok opt blocks (am\<lparr>am_events := x7\<rparr>) = cbs_ok opt blocks am"
  by (auto elim: cbs_ok_cong)

text \<open>
  \<open>aiom_owns opt infl blocks held am w\<close>: the control blocks \<open>blocks\<close> are in the pool, pending,
  in flight, or held by the running function (\<open>held\<close>), each in one place.
\<close>

definition aiom_owns ::
  "micbench_io_option \<Rightarrow> ('w \<Rightarrow> addr list) \<Rightarrow> addr list \<Rightarrow> addr list \<Rightarrow> mb_aiom \<Rightarrow> 'w \<Rightarrow> bool" where
  "aiom_owns opt infl blocks held am w \<longleftrightarrow>
     pool_invar (am_cbpool am) \<and> pool_capacity (am_cbpool am) = length blocks \<and>
     am_nr_events am = int (length blocks) \<and> distinct blocks \<and> NULL \<notin> set blocks \<and>
     cbs_ok opt blocks am \<and>
     length (am_pending am) = length blocks \<and> length (am_events am) = length blocks \<and>
     0 \<le> am_nr_pending am \<and> am_nr_pending am \<le> int (length blocks) \<and>
     am_nr_inflight am = int (length (infl w)) \<and>
     mset (pool_contents (am_cbpool am)) + mset (take (nat (am_nr_pending am)) (am_pending am)) +
       mset (infl w) + mset held = mset blocks"

abbreviation aiom_invar ::
  "micbench_io_option \<Rightarrow> ('w \<Rightarrow> addr list) \<Rightarrow> addr list \<Rightarrow> mb_aiom \<Rightarrow> 'w \<Rightarrow> bool" where
  "aiom_invar opt infl blocks am w \<equiv> aiom_owns opt infl blocks [] am w"

lemma aiom_owns_count:
  assumes "aiom_owns opt infl blocks held am w"
  shows "int (length (pool_contents (am_cbpool am))) + am_nr_pending am + am_nr_inflight am +
           int (length held) = int (length blocks)"
proof -
  have inv: "0 \<le> am_nr_pending am" "am_nr_pending am \<le> int (length (am_pending am))"
    "am_nr_inflight am = int (length (infl w))"
    and eq: "mset (pool_contents (am_cbpool am)) +
      mset (take (nat (am_nr_pending am)) (am_pending am)) + mset (infl w) + mset held = mset blocks"
    using assms unfolding aiom_owns_def by simp_all
  from arg_cong [OF eq, of size] inv show ?thesis by simp
qed

lemma aiom_owns_mem:
  assumes "aiom_owns opt infl blocks held am w"
    and "a \<in> set held \<union> set (infl w) \<union> set (take (nat (am_nr_pending am)) (am_pending am))"
  shows "a \<in> set blocks"
proof -
  have "set_mset (mset (pool_contents (am_cbpool am)) +
      mset (take (nat (am_nr_pending am)) (am_pending am)) + mset (infl w) + mset held) =
      set_mset (mset blocks)"
    using assms(1) unfolding aiom_owns_def by metis
  then show ?thesis using assms(2) by auto
qed

lemma aiom_load_cb:
  assumes "aiom_owns opt infl blocks held am w" and "a \<in> set blocks"
  obtains cb where "load_cb am a = Inr cb" "am_cbs am a = Some cb" "a \<noteq> NULL"
    "cb_vec cb < length (am_vecs am)" "file_idx_ok opt (cb_file_idx cb)"
proof -
  have "a \<noteq> NULL" using assms unfolding aiom_owns_def by metis
  moreover obtain cb where "am_cbs am a = Some cb" "cb_vec cb < length (am_vecs am)"
    "file_idx_ok opt (cb_file_idx cb)"
    using assms by (auto simp: aiom_owns_def cbs_ok_def)
  ultimately show ?thesis using that [of cb] by (simp add: load_cb_def)
qed

lemma aiom_submittable:
  assumes "aiom_owns opt infl blocks held am w"
  shows "mb_aiom_nr_submittable am = int (length (pool_contents (am_cbpool am)))"
proof -
  obtain p h where ph: "am_cbpool am = (p, h)" by fastforce
  then obtain cs where "ring_at cs (p, h)"
    using assms by (auto simp: aiom_owns_def pool_invar_def)
  from ring_at_length_contents [OF this] show ?thesis by (simp add: mb_aiom_nr_submittable_def ph)
qed

subsubsection \<open>Issuing: pop and prepare\<close>

lemma aiom_pop_owns:
  assumes "aiom_invar opt infl blocks am w" and "mb_aiom_nr_submittable am > 0"
  shows "\<exists>a pool. mb_res_pool_pop (am_cbpool am) = Inr (a, pool) \<and> a \<noteq> NULL \<and>
    mb_aiom_nr_submittable (am\<lparr>am_cbpool := pool\<rparr>) = mb_aiom_nr_submittable am - 1 \<and>
    aiom_owns opt infl blocks [a] (am\<lparr>am_cbpool := pool\<rparr>) w"
proof -
  have "pool_contents (am_cbpool am) \<noteq> []" using aiom_submittable [OF assms(1)] assms(2) by auto
  then obtain a rest where c: "pool_contents (am_cbpool am) = a # rest" by (metis neq_Nil_conv)
  have "pool_invar (am_cbpool am)" using assms(1) by (simp add: aiom_owns_def)
  from rp.pop_first [OF this c] obtain pool where pool:
    "mb_res_pool_pop (am_cbpool am) = Inr (a, pool)" "pool_invar pool" "pool_contents pool = rest"
    "pool_capacity pool = pool_capacity (am_cbpool am)" by blast
  have owns: "aiom_owns opt infl blocks [a] (am\<lparr>am_cbpool := pool\<rparr>) w"
    using assms(1) pool c unfolding aiom_owns_def by (simp add: ac_simps)
  then have "a \<in> set blocks" by (rule aiom_owns_mem) simp
  then have "a \<noteq> NULL" using assms(1) unfolding aiom_owns_def by metis
  moreover have "mb_aiom_nr_submittable (am\<lparr>am_cbpool := pool\<rparr>) = mb_aiom_nr_submittable am - 1"
    using aiom_submittable [OF assms(1)] aiom_submittable [OF owns] c pool(3) by simp
  ultimately show ?thesis using owns pool(1) by blast
qed

lemma aiom_prep_owns:
  assumes "aiom_owns opt infl blocks [a] am w" and "libaio_ok K infl"
    and "o_aio_engine opt = AIO_LIBAIO" and "file_idx_ok opt file_idx"
  shows "\<exists>am' w'. mb_aiom_prep K opt mode am fd file_idx a offset w = Inr (am', w') \<and>
    aiom_invar opt infl blocks am' w' \<and> am_cbpool am' = am_cbpool am \<and>
    am_nr_pending am' = am_nr_pending am + 1 \<and> am_nr_inflight am' = am_nr_inflight am \<and>
    am_iocount am' = am_iocount am \<and> infl w' = infl w \<and>
    (\<exists>cb. am_cbs am' a = Some cb \<and> aio_opcode (cb_iocb cb) = mode \<and>
          aio_fildes (cb_iocb cb) = fd \<and> aio_offset (cb_iocb cb) = offset)"
proof -
  have mem: "a \<in> set blocks" using assms(1) by (rule aiom_owns_mem) simp
  obtain cb where cb: "load_cb am a = Inr cb" "am_cbs am a = Some cb" "a \<noteq> NULL"
    "cb_vec cb < length (am_vecs am)" "file_idx_ok opt (cb_file_idx cb)"
    using aiom_load_cb [OF assms(1) mem] by blast
  define vec where "vec = am_vecs am ! cb_vec cb"
  define now where "now = fst (k_gettimeofday K w)"
  define w' where "w' = snd (k_gettimeofday K w)"
  define n where "n = nat (am_nr_pending am)"
  have pend: "0 \<le> am_nr_pending am" "length (am_pending am) = length blocks"
    using assms(1) by (simp_all add: aiom_owns_def)
  have "am_nr_pending am + am_nr_inflight am < int (length blocks)" "0 \<le> am_nr_inflight am"
    using aiom_owns_count [OF assms(1)] assms(1) by (simp_all add: aiom_owns_def)
  then have idx: "am_nr_pending am < int (length (am_pending am))" using pend by simp
  then have n: "n < length (am_pending am)" "am_nr_pending am = int n"
    using pend by (auto simp: n_def)
  let ?cb = "cb\<lparr>cb_iocb := \<lparr>aio_opcode = mode, aio_fildes = fd, aio_buf = iov_base vec,
      aio_nbytes = iov_len vec, aio_offset = offset\<rparr>, cb_queue_time := now, cb_file_idx := file_idx\<rparr>"
  let ?am = "am\<lparr>am_cbs := (am_cbs am)(a \<mapsto> ?cb), am_pending := (am_pending am)[n := a],
                am_nr_pending := am_nr_pending am + 1\<rparr>"
  have run: "mb_aiom_prep K opt mode am fd file_idx a offset w = Inr (?am, w')"
    using cb assms(3) n pend(1)
    by (simp add: mb_aiom_prep_def load_vec_def vec_def now_def w'_def Let_def split: prod.splits)
  have "infl w' = infl w" using assms(2) by (simp add: libaio_ok_def w'_def)
  moreover have "take (Suc n) ((am_pending am)[n := a]) = take n (am_pending am) @ [a]"
    using n(1) by (simp add: take_Suc_conv_app_nth)
  moreover have "cbs_ok opt blocks (am\<lparr>am_cbs := (am_cbs am)(a \<mapsto> ?cb)\<rparr>)"
    using assms(1,4) cb(2) unfolding aiom_owns_def by (intro cbs_ok_upd [of opt blocks am a cb]) simp_all
  ultimately have "aiom_invar opt infl blocks ?am w'"
    using assms(1) n unfolding aiom_owns_def by (simp add: nat_add_distrib ac_simps)
  then show ?thesis using run \<open>infl w' = infl w\<close> by auto
qed

subsubsection \<open>Submitting\<close>

lemma aiom_stamp_loop_ok:
  assumes "cbs_ok opt blocks am" and "NULL \<notin> set blocks"
    and "i + k \<le> length (am_pending am)"
    and "\<forall>j. i \<le> j \<longrightarrow> j < i + k \<longrightarrow> am_pending am ! j \<in> set blocks"
  shows "\<exists>cbs. aiom_stamp_loop tv k i am = Inr (am\<lparr>am_cbs := cbs\<rparr>) \<and>
    cbs_ok opt blocks (am\<lparr>am_cbs := cbs\<rparr>)"
  using assms
proof (induction k arbitrary: i am)
  case 0
  then have "am\<lparr>am_cbs := am_cbs am\<rparr> = am" by simp
  then show ?case using 0 by (metis aiom_stamp_loop.simps(1))
next
  case (Suc k)
  let ?a = "am_pending am ! i"
  have mem: "?a \<in> set blocks" using Suc.prems(4) by simp
  then obtain cb where cb: "am_cbs am ?a = Some cb" "cb_vec cb < length (am_vecs am)"
    "file_idx_ok opt (cb_file_idx cb)" using Suc.prems(1) by (auto simp: cbs_ok_def)
  have "?a \<noteq> NULL" using mem Suc.prems(2) by metis
  then have load: "load_cb am ?a = Inr cb" using cb(1) by (simp add: load_cb_def)
  let ?am = "am\<lparr>am_cbs := (am_cbs am)(?a \<mapsto> cb\<lparr>cb_submit_time := tv\<rparr>)\<rparr>"
  have "cbs_ok opt blocks ?am" using Suc.prems(1) cb by (intro cbs_ok_upd [of opt blocks am ?a cb]) simp_all
  then have "\<exists>cbs. aiom_stamp_loop tv k (Suc i) ?am = Inr (?am\<lparr>am_cbs := cbs\<rparr>) \<and>
      cbs_ok opt blocks (?am\<lparr>am_cbs := cbs\<rparr>)"
    using Suc.prems by (intro Suc.IH) auto
  then show ?case using load Suc.prems(3) by auto
qed

lemma aiom_submit_owns:
  assumes "aiom_invar opt infl blocks am w" and "libaio_ok K infl"
    and "o_aio_engine opt = AIO_LIBAIO"
  shows "case mb_aiom_submit K opt am w of
      Inl e \<Rightarrow> e = Exit_Failure
    | Inr (am', w') \<Rightarrow> aiom_invar opt infl blocks am' w' \<and> am_nr_pending am' = 0 \<and>
        am_nr_inflight am' = am_nr_inflight am + am_nr_pending am \<and>
        am_iocount am' = am_iocount am \<and> am_cbpool am' = am_cbpool am"
proof (cases "am_nr_pending am = 0")
  case True
  then show ?thesis using assms(1) by (simp add: mb_aiom_submit_def)
next
  case False
  define n where "n = nat (am_nr_pending am)"
  have n: "am_nr_pending am = int n" "n \<le> length (am_pending am)"
    using assms(1) by (auto simp: aiom_owns_def n_def)
  obtain tv w1 where tv: "k_gettimeofday K w = (tv, w1)" by fastforce
  have w1: "infl w1 = infl w" using assms(2) tv by (simp add: libaio_ok_def) (metis snd_conv)
  have "am_pending am ! j \<in> set (take n (am_pending am))" if "j < n" for j
    using that n(2) by (metis in_set_conv_nth length_take min.absorb2 nth_take)
  then have "\<forall>j. 0 \<le> j \<longrightarrow> j < 0 + n \<longrightarrow> am_pending am ! j \<in> set blocks"
    using aiom_owns_mem [OF assms(1)] by (simp add: n_def)
  moreover have "cbs_ok opt blocks am" "NULL \<notin> set blocks"
    using assms(1) by (simp_all add: aiom_owns_def)
  ultimately obtain cbs where stamp: "aiom_stamp_loop tv n 0 am = Inr (am\<lparr>am_cbs := cbs\<rparr>)"
    and cbs: "cbs_ok opt blocks (am\<lparr>am_cbs := cbs\<rparr>)"
    using aiom_stamp_loop_ok [of opt blocks am 0 n tv] n(2) by auto
  let ?am = "am\<lparr>am_cbs := cbs\<rparr>"
  let ?list = "map (cb_iocb_at ?am) (take n (am_pending am))"
  obtain ret w2 where sub: "a_io_submit K ?list w1 = (ret, w2)" by fastforce
  have run: "mb_aiom_submit K opt am w =
      (if ret \<noteq> int n then Inl Exit_Failure
       else Inr (?am\<lparr>am_nr_inflight := am_nr_inflight am + int n, am_nr_pending := 0\<rparr>, w2))"
    using False stamp n assms(3) sub
    by (simp add: mb_aiom_submit_def tv Let_def)
  show ?thesis
  proof (cases "ret = int n")
    case True
    then have "mset (infl w2) = mset (infl w1) + mset (map fst ?list)"
      using libaio_submit [OF assms(2), of ?list w1 w2] sub n(2) by simp
    moreover have "map fst ?list = take n (am_pending am)" by (simp add: cb_iocb_at_def comp_def)
    ultimately have infl: "mset (infl w2) = mset (infl w) + mset (take n (am_pending am))"
      using w1 by (simp only:)
    from arg_cong [OF this, of size] have "length (infl w2) = length (infl w) + n"
      using n(2) by simp
    with infl have "aiom_invar opt infl blocks
        (?am\<lparr>am_nr_inflight := am_nr_inflight am + int n, am_nr_pending := 0\<rparr>) w2"
      using assms(1) n cbs unfolding aiom_owns_def by (simp add: ac_simps)
    then show ?thesis using run True n by simp
  qed (use run in simp)
qed

subsubsection \<open>Completing\<close>

lemma aiom_complete_owns:
  assumes "aiom_owns opt infl blocks (a # held) am w" and "libaio_ok K infl"
  shows "case aiom_complete K opt a am lg w of
      Inl e \<Rightarrow> e = Undefined \<and> o_logfile opt
    | Inr (am', lg', w') \<Rightarrow> aiom_owns opt infl blocks held am' w' \<and>
        am_nr_pending am' = am_nr_pending am \<and> am_nr_inflight am' = am_nr_inflight am \<and>
        am_iocount am' = am_iocount am \<and> am_events am' = am_events am \<and> infl w' = infl w \<and>
        pool_contents (am_cbpool am') = pool_contents (am_cbpool am) @ [a]"
proof -
  have mem: "a \<in> set blocks" using assms(1) by (rule aiom_owns_mem) simp
  obtain cb where cb: "load_cb am a = Inr cb" "am_cbs am a = Some cb"
    "file_idx_ok opt (cb_file_idx cb)" using aiom_load_cb [OF assms(1) mem] by blast
  obtain t1 w1 where t1: "k_gettimeofday K w = (t1, w1)" by fastforce
  obtain el w2 where el: "mb_elapsed_time_from K (cb_submit_time cb) w1 = (el, w2)" by fastforce
  have w2: "infl w2 = infl w"
    using assms(2) t1 el unfolding libaio_ok_def mb_elapsed_time_from_def
    by (auto simp: Let_def split: prod.splits) (metis snd_conv)
  obtain path where path:
    "(if cb_file_idx cb = -1 then Inr ''(null)'' else io_file_path opt (cb_file_idx cb)) = Inr path"
    using cb(3) by (auto simp: file_idx_ok_def io_file_path_def)
  have pool: "pool_invar (am_cbpool am)" "pool_capacity (am_cbpool am) = length blocks"
    using assms(1) by (simp_all add: aiom_owns_def)
  have "length (pool_contents (am_cbpool am)) < pool_capacity (am_cbpool am)"
    using aiom_owns_count [OF assms(1)] assms(1) unfolding aiom_owns_def by simp
  from rp.push_room [OF pool(1) this, of a] obtain pool' where push:
    "mb_res_pool_push (am_cbpool am) a = Inr (0, pool')" "pool_invar pool'"
    "pool_contents pool' = pool_contents (am_cbpool am) @ [a]"
    "pool_capacity pool' = pool_capacity (am_cbpool am)" by blast
  let ?am = "am\<lparr>am_iowait := d_add (am_iowait am) el, am_cbpool := pool'\<rparr>"
  have run: "aiom_complete K opt a am lg w =
      bind_c (mb_log_io_activity opt (cb_submit_time cb) t1 path (aio_offset (cb_iocb cb))
        (o_blk_sz opt) lg) (\<lambda>lg1. Inr (?am, lg1, w2))"
    using path by (simp add: aiom_complete_def cb t1 el push(1) Let_def)
  have "aiom_owns opt infl blocks held ?am w2"
    using assms(1) push w2 unfolding aiom_owns_def by (simp add: ac_simps)
  moreover have "mb_log_io_activity opt t0 t path ofs sz lg = Inl e \<Longrightarrow> e = Undefined \<and> o_logfile opt"
    for t0 t ofs sz e
    by (auto simp: mb_log_io_activity_def sprintf_into_def Let_def split: if_splits)
  ultimately show ?thesis
    unfolding run using push(3) w2
    by (cases "mb_log_io_activity opt (cb_submit_time cb) t1 path (aio_offset (cb_iocb cb))
        (o_blk_sz opt) lg") auto
qed

lemma aiom_reap_owns:
  assumes "aiom_owns opt infl blocks (map ev_obj evs) am w" and "libaio_ok K infl"
    and "drop i (am_events am) = evs @ rest"
  shows "case aiom_reap_events K opt (length evs) i am lg w of
      Inl e \<Rightarrow> e = Undefined \<and> o_logfile opt
    | Inr (am', lg', w') \<Rightarrow> aiom_invar opt infl blocks am' w' \<and>
        am_nr_pending am' = am_nr_pending am \<and> am_nr_inflight am' = am_nr_inflight am \<and>
        am_iocount am' = am_iocount am \<and> infl w' = infl w \<and>
        pool_contents (am_cbpool am') = pool_contents (am_cbpool am) @ map ev_obj evs"
  using assms
proof (induction evs arbitrary: i am lg w)
  case Nil
  then show ?case by simp
next
  case (Cons ev evs)
  have i: "i < length (am_events am)" "am_events am ! i = ev"
    "drop (Suc i) (am_events am) = evs @ rest"
    using Cons.prems(3)
    by (metis append_Cons drop_all list.distinct(1) not_le,
        metis append_Cons nth_via_drop,
        metis append_Cons drop_Suc list.sel(3) tl_drop)
  have one: "case aiom_complete K opt (ev_obj ev) am lg w of
      Inl e \<Rightarrow> e = Undefined \<and> o_logfile opt
    | Inr (am', lg', w') \<Rightarrow> aiom_owns opt infl blocks (map ev_obj evs) am' w' \<and>
        am_nr_pending am' = am_nr_pending am \<and> am_nr_inflight am' = am_nr_inflight am \<and>
        am_iocount am' = am_iocount am \<and> am_events am' = am_events am \<and> infl w' = infl w \<and>
        pool_contents (am_cbpool am') = pool_contents (am_cbpool am) @ [ev_obj ev]"
    using aiom_complete_owns [of opt infl blocks "ev_obj ev" "map ev_obj evs" am w K lg]
      Cons.prems(1,2) by simp
  show ?case
  proof (cases "aiom_complete K opt (ev_obj ev) am lg w")
    case (Inl e)
    then show ?thesis using one i by simp
  next
    case (Inr r)
    obtain am1 lg1 w1 where r: "r = (am1, lg1, w1)" by (cases r)
    have step: "aiom_owns opt infl blocks (map ev_obj evs) am1 w1" "infl w1 = infl w"
      "am_nr_pending am1 = am_nr_pending am" "am_nr_inflight am1 = am_nr_inflight am"
      "am_iocount am1 = am_iocount am" "am_events am1 = am_events am"
      "pool_contents (am_cbpool am1) = pool_contents (am_cbpool am) @ [ev_obj ev]"
      using one Inr r by simp_all
    have "drop (Suc i) (am_events am1) = evs @ rest" using i(3) step(6) by simp
    from Cons.IH [OF step(1) Cons.prems(2) this, of lg1] show ?thesis
      using i step Inr r by (auto split: sum.splits)
  qed
qed

text \<open>
  Waiting for at least \<open>mn\<close> and at most all blocks in flight: a failing \<open>io_getevents\<close> ends the
  process, the log buffer is the only source of undefined behaviour, and otherwise the
  completed blocks are back in the pool and counted.
\<close>

lemma aiom_wait_exact:
  assumes "aiom_invar opt infl blocks am w" and "libaio_ok K infl"
    and "o_aio_engine opt = AIO_LIBAIO"
  shows "case a_io_getevents K mn (am_nr_inflight am) w of
      None \<Rightarrow> aiom_wait_min K opt mn (am_nr_inflight am) am lg w = None
    | Some (n, evs, w1) \<Rightarrow>
        if n < 0 then aiom_wait_min K opt mn (am_nr_inflight am) am lg w = Some (Inl Exit_Failure)
        else n = int (length evs) \<and> mn \<le> n \<and> n \<le> am_nr_inflight am \<and>
          (case aiom_wait_min K opt mn (am_nr_inflight am) am lg w of
             None \<Rightarrow> False
           | Some (Inl e) \<Rightarrow> e = Undefined \<and> o_logfile opt
           | Some (Inr (n', am', lg', w')) \<Rightarrow> n' = n \<and> aiom_invar opt infl blocks am' w' \<and>
               am_nr_pending am' = am_nr_pending am \<and> am_nr_inflight am' = am_nr_inflight am - n \<and>
               am_iocount am' = am_iocount am + n \<and>
               pool_contents (am_cbpool am') = pool_contents (am_cbpool am) @ map ev_obj evs \<and>
               mb_aiom_nr_submittable am' = mb_aiom_nr_submittable am + n)"
proof (cases "a_io_getevents K mn (am_nr_inflight am) w")
  case None
  then show ?thesis using assms(3) by (simp add: aiom_wait_min_def)
next
  case (Some r)
  obtain n evs w1 where r: "r = (n, evs, w1)" by (cases r)
  show ?thesis
  proof (cases "n < 0")
    case True
    then show ?thesis using Some r assms(3) by (simp add: aiom_wait_min_def)
  next
    case False
    then have ev: "n = int (length evs)" "mn \<le> n" "n \<le> am_nr_inflight am"
      "mset (infl w) = mset (map ev_obj evs) + mset (infl w1)"
      using libaio_getevents [OF assms(2) Some [unfolded r]] by simp_all
    have sizes: "length (infl w) = length evs + length (infl w1)"
      using arg_cong [OF ev(4), of size] by simp
    have inv: "am_nr_inflight am = int (length (infl w))" "length (am_events am) = length blocks"
      using assms(1) by (simp_all add: aiom_owns_def)
    have "am_nr_inflight am \<le> int (length blocks)"
      using aiom_owns_count [OF assms(1)] assms(1) by (simp add: aiom_owns_def)
    then have len: "length evs \<le> length (am_events am)" using ev(1,3) inv by simp
    let ?am = "am\<lparr>am_events := splice (am_events am) 0 evs,
        am_nr_inflight := am_nr_inflight am - n, am_iocount := am_iocount am + n\<rparr>"
    have owns: "aiom_owns opt infl blocks (map ev_obj evs) ?am w1"
      using assms(1) ev sizes len unfolding aiom_owns_def
      by (simp add: length_splice ac_simps)
    have "drop 0 (am_events ?am) = evs @ drop (length evs) (am_events am)" by (simp add: splice_def)
    note reap = aiom_reap_owns [OF owns assms(2) this, of lg]
    have run: "aiom_wait_min K opt mn (am_nr_inflight am) am lg w =
        Some (bind_c (aiom_reap_events K opt (length evs) 0 ?am lg w1)
          (\<lambda>(am2, lg2, w2). Inr (n, am2, lg2, w2)))"
      using Some r False len ev(1) assms(3) by (simp add: aiom_wait_min_def Let_def)
    show ?thesis
    proof (cases "aiom_reap_events K opt (length evs) 0 ?am lg w1")
      case (Inl e)
      then show ?thesis using reap run Some r False ev(1-3) by simp
    next
      case (Inr q)
      obtain am2 lg2 w2 where q: "q = (am2, lg2, w2)" by (cases q)
      have inv2: "aiom_invar opt infl blocks am2 w2"
        and c: "pool_contents (am_cbpool am2) = pool_contents (am_cbpool am) @ map ev_obj evs"
        and rest: "am_nr_pending am2 = am_nr_pending am" "am_nr_inflight am2 = am_nr_inflight am - n"
          "am_iocount am2 = am_iocount am + n"
        using reap Inr q by simp_all
      have "mb_aiom_nr_submittable am2 = mb_aiom_nr_submittable am + n"
        using aiom_submittable [OF inv2] aiom_submittable [OF assms(1)] c ev(1) by simp
      then show ?thesis using inv2 rest run Inr q ev(1-3) c False Some r by simp
    qed
  qed
qed

lemma aiom_wait_owns:
  assumes "aiom_invar opt infl blocks am w" and "libaio_ok K infl"
    and "o_aio_engine opt = AIO_LIBAIO"
  shows "case aiom_wait_min K opt mn (am_nr_inflight am) am lg w of
      None \<Rightarrow> a_io_getevents K mn (am_nr_inflight am) w = None
    | Some (Inl e) \<Rightarrow> e = Exit_Failure \<or> e = Undefined \<and> o_logfile opt
    | Some (Inr (n, am', lg', w')) \<Rightarrow> aiom_invar opt infl blocks am' w' \<and>
        mn \<le> n \<and> 0 \<le> n \<and> n \<le> am_nr_inflight am \<and>
        am_nr_pending am' = am_nr_pending am \<and> am_nr_inflight am' = am_nr_inflight am - n \<and>
        am_iocount am' = am_iocount am + n \<and>
        mb_aiom_nr_submittable am' = mb_aiom_nr_submittable am + n"
proof (cases "a_io_getevents K mn (am_nr_inflight am) w")
  case None
  then show ?thesis using aiom_wait_exact [OF assms, of mn lg] by simp
next
  case (Some r)
  obtain n evs w1 where r: "r = (n, evs, w1)" by (cases r)
  show ?thesis
    using aiom_wait_exact [OF assms, of mn lg] Some r
    by (cases "n < 0") (auto split: option.splits sum.splits prod.splits)
qed

subsection \<open>Making and destroying a manager\<close>

lemma aiom_make_loop_ok:
  assumes "inj_on alloc {2 * i..<2 * (i + k)}" and "\<forall>j \<in> {2 * i..<2 * (i + k)}. alloc j \<noteq> NULL"
    and "pool_invar (am_cbpool am)"
    and "length (pool_contents (am_cbpool am)) + k \<le> pool_capacity (am_cbpool am)"
    and "i + k \<le> length (am_vecs am)" and "distinct bs"
    and "cbs_ok opt bs am" and "file_idx_ok opt 0"
    and "\<forall>a \<in> set bs. \<forall>j \<in> {2 * i..<2 * (i + k)}. a \<noteq> alloc j \<and> cb_base am a \<noteq> alloc j"
    and "\<forall>a \<in> set bs. \<forall>cb. am_cbs am a = Some cb \<longrightarrow> cb_vec cb < i"
  defines "bs' \<equiv> bs @ map (\<lambda>j. alloc (2 * j)) [i..<i + k]"
  shows "\<exists>pool vecs cbs bufs. aiom_make_loop alloc blk k i am =
      Inr (am\<lparr>am_cbpool := pool, am_cbs := cbs, am_vecs := vecs, am_bufs := bufs\<rparr>) \<and>
    pool_invar pool \<and> pool_capacity pool = pool_capacity (am_cbpool am) \<and>
    pool_contents pool = pool_contents (am_cbpool am) @ map (\<lambda>j. alloc (2 * j)) [i..<i + k] \<and>
    distinct bs' \<and>
    cbs_ok opt bs' (am\<lparr>am_cbpool := pool, am_cbs := cbs, am_vecs := vecs, am_bufs := bufs\<rparr>)"
  using assms(1-10) unfolding bs'_def
proof (induction k arbitrary: i am bs)
  case 0
  have "am\<lparr>am_cbpool := am_cbpool am, am_cbs := am_cbs am, am_vecs := am_vecs am,
      am_bufs := am_bufs am\<rparr> = am" by simp
  with 0 show ?case
    by (intro exI [of _ "am_cbpool am"] exI [of _ "am_vecs am"] exI [of _ "am_cbs am"]
        exI [of _ "am_bufs am"]) simp
next
  case (Suc k)
  let ?a = "alloc (2 * i)"
  let ?base = "alloc (2 * i + 1)"
  let ?cb = "\<lparr>cb_iocb = zero_iocb, cb_submit_time = zero_timeval, cb_queue_time = zero_timeval,
      cb_file_idx = 0, cb_vec = i, cb_iovec_idx = int i\<rparr>"
  have nn: "?a \<noteq> NULL" "?base \<noteq> NULL" using Suc.prems(2) by simp_all
  have "length (pool_contents (am_cbpool am)) < pool_capacity (am_cbpool am)"
    using Suc.prems(4) by simp
  from rp.push_room [OF Suc.prems(3) this, of ?a] obtain pool where push:
    "mb_res_pool_push (am_cbpool am) ?a = Inr (0, pool)" "pool_invar pool"
    "pool_contents pool = pool_contents (am_cbpool am) @ [?a]"
    "pool_capacity pool = pool_capacity (am_cbpool am)" by blast
  let ?am = "am\<lparr>am_cbpool := pool, am_cbs := (am_cbs am)(?a \<mapsto> ?cb),
      am_vecs := (am_vecs am)[i := \<lparr>iov_base = ?base, iov_len = word_of_int blk\<rparr>],
      am_bufs := (am_bufs am)(?base \<mapsto> replicate (nat blk) 0)\<rparr>"
  have i: "i < length (am_vecs am)" using Suc.prems(5) by simp
  have fresh: "a \<noteq> ?a" "cb_base am a \<noteq> ?base" if "a \<in> set bs" for a
    using Suc.prems(9) that by auto
  have new: "?a \<notin> set bs" using fresh(1) by blast
  have base_new: "cb_base ?am ?a = ?base" using i by (simp add: cb_base_def)
  have base_old: "cb_base ?am a = cb_base am a" if "a \<in> set bs" for a
    using fresh(1) [OF that] Suc.prems(7,10) that by (fastforce simp: cb_base_def cbs_ok_def)
  have vec_old: "cb_vec cb < length (am_vecs am)" if "a \<in> set bs" "am_cbs am a = Some cb" for a cb
    using Suc.prems(7) that by (auto simp: cbs_ok_def)
  have inj: "inj_on (cb_base ?am) (set (bs @ [?a]))"
  proof -
    have "inj_on (cb_base ?am) (set bs)"
      using Suc.prems(7) inj_on_cong [of "set bs" "cb_base ?am" "cb_base am"] base_old
      unfolding cbs_ok_def by blast
    moreover have "?base \<notin> cb_base ?am ` (set bs - {?a})"
    proof
      assume "?base \<in> cb_base ?am ` (set bs - {?a})"
      then obtain a where a: "a \<in> set bs" "?base = cb_base ?am a" by (elim imageE DiffE)
      then show False using base_old [OF a(1)] fresh(2) [OF a(1)] by simp
    qed
    ultimately show ?thesis using base_new by simp
  qed
  have cbs: "cbs_ok opt (bs @ [?a]) ?am"
    unfolding cbs_ok_def
  proof (intro conjI inj)
    show "\<forall>a \<in> set (bs @ [?a]). \<exists>cb. am_cbs ?am a = Some cb \<and> cb_vec cb < length (am_vecs ?am) \<and>
        file_idx_ok opt (cb_file_idx cb)"
      using Suc.prems(7,8) fresh i unfolding cbs_ok_def by fastforce
    show "\<forall>a \<in> set (bs @ [?a]). am_bufs ?am (cb_base ?am a) \<noteq> None"
      using Suc.prems(7) base_old base_new fresh unfolding cbs_ok_def by auto
  qed
  have inj': "inj_on alloc {2 * Suc i..<2 * (Suc i + k)}"
    by (rule inj_on_subset [OF Suc.prems(1)]) auto
  have ne: "?a \<noteq> alloc j \<and> ?base \<noteq> alloc j" if "j \<in> {2 * Suc i..<2 * (Suc i + k)}" for j
    using that Suc.prems(1) inj_onD [of alloc "{2 * i..<2 * (i + Suc k)}" "2 * i" j]
      inj_onD [of alloc "{2 * i..<2 * (i + Suc k)}" "2 * i + 1" j] by fastforce
  have "\<exists>pool' vecs cbs bufs. aiom_make_loop alloc blk k (Suc i) ?am =
      Inr (?am\<lparr>am_cbpool := pool', am_cbs := cbs, am_vecs := vecs, am_bufs := bufs\<rparr>) \<and>
    pool_invar pool' \<and> pool_capacity pool' = pool_capacity (am_cbpool ?am) \<and>
    pool_contents pool' =
      pool_contents (am_cbpool ?am) @ map (\<lambda>j. alloc (2 * j)) [Suc i..<Suc i + k] \<and>
    distinct ((bs @ [?a]) @ map (\<lambda>j. alloc (2 * j)) [Suc i..<Suc i + k]) \<and>
    cbs_ok opt ((bs @ [?a]) @ map (\<lambda>j. alloc (2 * j)) [Suc i..<Suc i + k])
      (?am\<lparr>am_cbpool := pool', am_cbs := cbs, am_vecs := vecs, am_bufs := bufs\<rparr>)"
  proof (rule Suc.IH [OF inj' _ _ _ _ _ cbs Suc.prems(8)])
    show "\<forall>a \<in> set (bs @ [?a]). \<forall>j \<in> {2 * Suc i..<2 * (Suc i + k)}.
        a \<noteq> alloc j \<and> cb_base ?am a \<noteq> alloc j"
      using ne base_new base_old Suc.prems(9) by auto
    show "\<forall>a \<in> set (bs @ [?a]). \<forall>cb. am_cbs ?am a = Some cb \<longrightarrow> cb_vec cb < Suc i"
      using Suc.prems(10) fresh by (auto simp: less_Suc_eq)
  qed (use Suc.prems push new in auto)
  then obtain pool' vecs cbs bufs where IH: "aiom_make_loop alloc blk k (Suc i) ?am =
      Inr (am\<lparr>am_cbpool := pool', am_cbs := cbs, am_vecs := vecs, am_bufs := bufs\<rparr>)"
    "pool_invar pool'" "pool_capacity pool' = pool_capacity (am_cbpool am)"
    "pool_contents pool' = pool_contents (am_cbpool am) @
      ?a # map (\<lambda>j. alloc (2 * j)) [Suc i..<Suc i + k]"
    "distinct ((bs @ [?a]) @ map (\<lambda>j. alloc (2 * j)) [Suc i..<Suc i + k])"
    "cbs_ok opt ((bs @ [?a]) @ map (\<lambda>j. alloc (2 * j)) [Suc i..<Suc i + k])
      (am\<lparr>am_cbpool := pool', am_cbs := cbs, am_vecs := vecs, am_bufs := bufs\<rparr>)"
    using push by auto
  moreover have "aiom_make_loop alloc blk (Suc k) i am = aiom_make_loop alloc blk k (Suc i) ?am"
    using nn push(1) by (simp add: Let_def)
  moreover have "bs @ map (\<lambda>j. alloc (2 * j)) [i..<i + Suc k] =
      (bs @ [?a]) @ map (\<lambda>j. alloc (2 * j)) [Suc i..<Suc i + k]"
    by (simp add: upt_conv_Cons del: upt_Suc)
  moreover have "map (\<lambda>j. alloc (2 * j)) [i..<i + Suc k] =
      ?a # map (\<lambda>j. alloc (2 * j)) [Suc i..<Suc i + k]"
    by (simp add: upt_conv_Cons del: upt_Suc)
  ultimately show ?case by metis
qed

text \<open>What the allocator has to give to \<open>mb_aiom_make\<close>: distinct blocks, none of them \<open>NULL\<close>.\<close>

definition aiom_blocks :: "(nat \<Rightarrow> addr) \<Rightarrow> nat \<Rightarrow> addr list" where
  "aiom_blocks alloc n = map (\<lambda>i. alloc (5 + n + 2 * i)) [0..<n]"

lemma aiom_make_owns:
  assumes "0 < nr_events" and "fresh_blocks alloc (5 + 3 * nat nr_events)"
    and "libaio_ok K infl" and "infl w = []" and "o_aio_engine opt = AIO_LIBAIO"
    and "file_idx_ok opt 0" and "a_io_setup K nr_events w = (0, w')"
  shows "\<exists>am. mb_aiom_make K opt alloc garbage nr_events w = Inr (Some am, w') \<and>
    aiom_invar opt infl (aiom_blocks alloc (nat nr_events)) am w' \<and> infl w' = [] \<and>
    am_iocount am = 0 \<and> am_iowait am = garbage \<and>
    pool_contents (am_cbpool am) = aiom_blocks alloc (nat nr_events)"
proof -
  define n where "n = nat nr_events"
  have n: "nr_events = int n" "0 < n" using assms(1) by (simp_all add: n_def)
  have nn: "alloc j \<noteq> NULL" if "j \<le> 5 + 3 * n" for j
    using assms(2) that by (simp add: fresh_blocks_def n_def)
  have inj: "inj_on alloc {..5 + 3 * n}" using assms(2) by (simp add: fresh_blocks_def n_def)
  have "inj_on (alloc \<circ> (\<lambda>j. 4 + j)) {..n}"
    by (intro comp_inj_on inj_on_subset [OF inj]) (auto simp: inj_on_def)
  then have "fresh_blocks (\<lambda>j. alloc (4 + j)) (nat nr_events)"
    using nn n by (simp add: fresh_blocks_def comp_def)
  from pool_make_ring [OF this assms(1)] obtain p h cs where
    pool: "mb_res_pool_make (\<lambda>j. alloc (4 + j)) nr_events Map.empty = Inr (p, h)"
      "ring_at cs (p, h)" "nr_avail p = 0" and len: "length cs = n"
    by (metis (no_types, lifting) n_def length_map length_rev length_upt diff_Suc_1)
  have pi: "pool_invar (p, h)" "pool_contents (p, h) = []" "pool_capacity (p, h) = n"
    using pool(2,3) ring_at_contents_empty [OF pool(2)] len
    by (auto simp: pool_invar_def pool_capacity_def ring_at_iff)
  let ?alloc = "\<lambda>j. alloc (5 + n + j)"
  let ?am = "\<lparr>am_cbpool = (p, h), am_vecs = replicate n \<lparr>iov_base = NULL, iov_len = 0\<rparr>,
      am_nr_events = nr_events, am_nr_pending = 0, am_nr_inflight = 0, am_iocount = 0,
      am_iowait = garbage, am_pending = replicate n NULL, am_events = replicate n zero_event,
      am_cbs = Map.empty, am_bufs = Map.empty\<rparr>"
  have "inj_on (alloc \<circ> (\<lambda>j. 5 + n + j)) {2 * 0..<2 * (0 + n)}"
    by (intro comp_inj_on inj_on_subset [OF inj]) (auto simp: inj_on_def)
  then have inj2: "inj_on ?alloc {2 * 0..<2 * (0 + n)}" by (simp add: comp_def)
  obtain pool' vecs cbs bufs where loop: "aiom_make_loop ?alloc (o_blk_sz opt) n 0 ?am =
      Inr (?am\<lparr>am_cbpool := pool', am_cbs := cbs, am_vecs := vecs, am_bufs := bufs\<rparr>)"
    "pool_invar pool'" "pool_capacity pool' = n"
    "pool_contents pool' = map (\<lambda>j. ?alloc (2 * j)) [0..<n]"
    "distinct (map (\<lambda>j. ?alloc (2 * j)) [0..<n])"
    "cbs_ok opt (map (\<lambda>j. ?alloc (2 * j)) [0..<n])
       (?am\<lparr>am_cbpool := pool', am_cbs := cbs, am_vecs := vecs, am_bufs := bufs\<rparr>)"
    using aiom_make_loop_ok [OF inj2, of ?am "[]" opt "o_blk_sz opt"] nn pi assms(6)
    by (auto simp: cbs_ok_def)
  let ?am' = "?am\<lparr>am_cbpool := pool', am_cbs := cbs, am_vecs := vecs, am_bufs := bufs\<rparr>"
  have run: "mb_aiom_make K opt alloc garbage nr_events w = Inr (Some ?am', w')"
    using nn [of 0] nn [of 1] nn [of 2] nn [of 3] pool(1) loop(1) assms(5,7)
    by (simp add: mb_aiom_make_def n_def [symmetric] Let_def)
  have w': "infl w' = []"
    using assms(3,4,7) unfolding libaio_ok_def by (metis snd_conv)
  have "alloc (5 + n + 2 * i) \<noteq> NULL" if "i < n" for i using that by (intro nn) simp
  then have "\<forall>a \<in> set (aiom_blocks alloc n). a \<noteq> NULL" by (simp add: aiom_blocks_def)
  then have "NULL \<notin> set (aiom_blocks alloc n)" by blast
  moreover have "cbs_ok opt (aiom_blocks alloc n) ?am'"
    using loop(6) by (simp add: aiom_blocks_def)
  ultimately have "aiom_invar opt infl (aiom_blocks alloc n) ?am' w'"
    using loop(2-5) n(1) w' unfolding aiom_owns_def
    by (simp add: aiom_blocks_def)
  then show ?thesis using run w' loop(4) by (simp add: n_def aiom_blocks_def)
qed

text \<open>Destroying frees each control block in the pool and its buffer once.\<close>

lemma aiom_destroy_loop_ok:
  assumes "pool_invar (am_cbpool am)" and "pool_contents (am_cbpool am) = xs" and "distinct xs"
    and "NULL \<notin> set xs" and "cbs_ok opt xs am"
  shows "\<exists>pool. aiom_destroy_loop am =
      Some (Inr (am\<lparr>am_cbpool := pool, am_bufs := am_bufs am |` (- cb_base am ` set xs),
                    am_cbs := am_cbs am |` (- set xs)\<rparr>)) \<and>
    pool_invar pool \<and> pool_contents pool = [] \<and> pool_capacity pool = pool_capacity (am_cbpool am) \<and>
    snd pool = snd (am_cbpool am) \<and> pool_cells pool = pool_cells (am_cbpool am)"
  using assms
proof (induction xs arbitrary: am)
  case Nil
  have "am\<lparr>am_cbpool := am_cbpool am, am_bufs := am_bufs am, am_cbs := am_cbs am\<rparr> = am" by simp
  then have "aiom_destroy_loop am = Some (Inr (am\<lparr>am_cbpool := am_cbpool am\<rparr>))"
    using rp.pop_empty [OF Nil.prems(1,2)] by (subst aiom_destroy_loop.simps) simp
  then show ?case using Nil.prems(1,2) by (intro exI [of _ "am_cbpool am"]) simp
next
  case (Cons a xs)
  from rp.pop_first [OF Cons.prems(1,2)] obtain pool where pop:
    "mb_res_pool_pop (am_cbpool am) = Inr (a, pool)" "pool_invar pool" "pool_contents pool = xs"
    "pool_capacity pool = pool_capacity (am_cbpool am)" by blast
  note keeps = pool_pop_keeps [OF pop(1)]
  have a: "a \<noteq> NULL" "a \<notin> set xs" using Cons.prems(3,4) by auto
  obtain cb where cb: "am_cbs am a = Some cb" "cb_vec cb < length (am_vecs am)"
    using Cons.prems(5) by (auto simp: cbs_ok_def)
  have base: "cb_base am a = iov_base (am_vecs am ! cb_vec cb)" using cb by (simp add: cb_base_def)
  have buf: "am_bufs am (cb_base am a) \<noteq> None" using Cons.prems(5) by (simp add: cbs_ok_def)
  let ?am = "am\<lparr>am_cbpool := pool, am_bufs := (am_bufs am)(cb_base am a := None),
      am_cbs := (am_cbs am)(a := None)\<rparr>"
  have step: "aiom_destroy_loop am = aiom_destroy_loop ?am"
    using pop(1) a(1) cb base buf
    by (subst aiom_destroy_loop.simps) (auto simp: load_cb_def load_vec_def)
  have same: "cb_base ?am b = cb_base am b" if "b \<in> set xs" for b
    using that a(2) by (auto simp: cb_base_def split: option.split)
  have other: "cb_base am b \<noteq> cb_base am a" if "b \<in> set xs" for b
    using that a(2) Cons.prems(5) unfolding cbs_ok_def
    by (metis inj_onD list.set_intros)
  have inj: "inj_on (cb_base ?am) (set xs)"
    using Cons.prems(5) inj_on_cong [of "set xs" "cb_base ?am" "cb_base am"] same
    unfolding cbs_ok_def by (simp add: inj_on_def)
  have "cbs_ok opt xs ?am"
    unfolding cbs_ok_def
  proof (intro conjI inj ballI)
    fix b assume b: "b \<in> set xs"
    then have "b \<noteq> a" using a(2) by blast
    then show "\<exists>cb. am_cbs ?am b = Some cb \<and> cb_vec cb < length (am_vecs ?am) \<and>
        file_idx_ok opt (cb_file_idx cb)"
      using Cons.prems(5) b unfolding cbs_ok_def by simp
    show "am_bufs ?am (cb_base ?am b) \<noteq> None"
      using same [OF b] other [OF b] Cons.prems(5) b unfolding cbs_ok_def by simp
  qed
  then have "\<exists>pool'. aiom_destroy_loop ?am =
      Some (Inr (?am\<lparr>am_cbpool := pool', am_bufs := am_bufs ?am |` (- cb_base ?am ` set xs),
                    am_cbs := am_cbs ?am |` (- set xs)\<rparr>)) \<and>
    pool_invar pool' \<and> pool_contents pool' = [] \<and>
    pool_capacity pool' = pool_capacity (am_cbpool ?am) \<and>
    snd pool' = snd (am_cbpool ?am) \<and> pool_cells pool' = pool_cells (am_cbpool ?am)"
    using pop Cons.prems(3,4) by (intro Cons.IH) simp_all
  then obtain pool' where IH: "aiom_destroy_loop ?am =
      Some (Inr (?am\<lparr>am_cbpool := pool', am_bufs := am_bufs ?am |` (- cb_base ?am ` set xs),
                    am_cbs := am_cbs ?am |` (- set xs)\<rparr>))"
    "pool_invar pool'" "pool_contents pool' = []" "pool_capacity pool' = pool_capacity (am_cbpool ?am)"
    "snd pool' = snd (am_cbpool ?am)" "pool_cells pool' = pool_cells (am_cbpool ?am)"
    by blast
  have "cb_base ?am ` set xs = cb_base am ` set xs" using same by (intro image_cong) simp_all
  then have "am_bufs ?am |` (- cb_base ?am ` set xs) = am_bufs am |` (- cb_base am ` set (a # xs))"
    "am_cbs ?am |` (- set xs) = am_cbs am |` (- set (a # xs))"
    by (auto simp: restrict_map_def fun_eq_iff)
  then show ?case using IH step pop(4) keeps by (intro exI [of _ pool']) simp
qed

subsection \<open>Waiting with io_uring\<close>

lemma aiom_complete_counters:
  assumes "aiom_complete K opt a am lg w = Inr (am', lg', w')"
  shows "am_nr_inflight am' = am_nr_inflight am \<and> am_iocount am' = am_iocount am \<and>
    am_nr_pending am' = am_nr_pending am"
proof -
  obtain cb where cb: "load_cb am a = Inr cb"
    using assms unfolding aiom_complete_def by (auto simp: bind_c_eq_Inr)
  obtain t1 w1 where t1: "k_gettimeofday K w = (t1, w1)" by fastforce
  obtain el w2 where el: "mb_elapsed_time_from K (cb_submit_time cb) w1 = (el, w2)" by fastforce
  show ?thesis
    using assms unfolding aiom_complete_def by (auto simp: cb t1 el bind_c_eq_Inr Let_def)
qed

lemma aiom_reap_cqes_counters:
  "aiom_reap_cqes K opt k am lg w = Some (Inr (am', lg', w')) \<Longrightarrow>
     am_nr_inflight am' = am_nr_inflight am \<and> am_iocount am' = am_iocount am \<and>
     am_nr_pending am' = am_nr_pending am"
proof (induction k arbitrary: am lg w)
  case (Suc k)
  then show ?case
    by (auto split: option.splits prod.splits if_splits sum.splits dest!: aiom_complete_counters)
qed simp

lemma uring_wait_counters:
  assumes "o_aio_engine opt = AIO_IOURING"
    and "aiom_wait_min K opt mn nr am lg w = Some (Inr (n, am', lg', w'))"
  shows "n = to_int mn \<and> am_nr_inflight am' = am_nr_inflight am \<and> am_iocount am' = am_iocount am \<and>
    am_nr_pending am' = am_nr_pending am"
  using assms unfolding aiom_wait_min_def
  by (auto simp: Let_def bind_c_eq_Inr split: option.splits dest!: aiom_reap_cqes_counters)

lemma uring_submit_counters:
  assumes "mb_aiom_submit K opt am w = Inr (am', w')"
  shows "am_nr_inflight am' = am_nr_inflight am + am_nr_pending am \<and> am_nr_pending am' = 0 \<and>
    am_iocount am' = am_iocount am"
proof -
  have stamp: "aiom_stamp_loop tv k i am = Inr am1 \<Longrightarrow> am_nr_inflight am1 = am_nr_inflight am \<and>
      am_nr_pending am1 = am_nr_pending am \<and> am_iocount am1 = am_iocount am" for tv k i am am1
    by (induction k arbitrary: i am) (auto simp: bind_c_eq_Inr split: if_splits)
  show ?thesis
  proof (cases "am_nr_pending am = 0")
    case True
    then show ?thesis using assms by (auto simp: mb_aiom_submit_def)
  next
    case False
    obtain tv w1 where tv: "k_gettimeofday K w = (tv, w1)" by fastforce
    obtain am1 where am1: "aiom_stamp_loop tv (nat (am_nr_pending am)) 0 am = Inr am1"
      using assms False unfolding mb_aiom_submit_def by (auto simp: tv bind_c_eq_Inr)
    have "am' = am1\<lparr>am_nr_inflight := am_nr_inflight am1 + am_nr_pending am1, am_nr_pending := 0\<rparr>"
      using assms False unfolding mb_aiom_submit_def
      by (simp add: tv am1 Let_def split: prod.splits if_splits)
    then show ?thesis using stamp [OF am1] by simp
  qed
qed

subsection \<open>Runs of the manager\<close>

text \<open>
  What the thread does with the manager, one step per call: take a free control block and
  prepare it, submit, wait for at least one completion, wait for all.
\<close>

inductive aio_step ::
  "('w, 'k) aio_kernel_scheme \<Rightarrow> micbench_io_option \<Rightarrow> mb_aiom \<times> 'w \<Rightarrow> mb_aiom \<times> 'w \<Rightarrow> bool"
  for K opt where
  issue: "mb_aiom_nr_submittable am > 0 \<Longrightarrow> mb_res_pool_pop (am_cbpool am) = Inr (a, pool) \<Longrightarrow>
    file_idx_ok opt file_idx \<Longrightarrow>
    mb_aiom_prep K opt mode (am\<lparr>am_cbpool := pool\<rparr>) fd file_idx a offset w = Inr (am', w') \<Longrightarrow>
    aio_step K opt (am, w) (am', w')"
| submit: "mb_aiom_submit K opt am w = Inr (am', w') \<Longrightarrow> aio_step K opt (am, w) (am', w')"
| wait: "mb_aiom_wait K opt am lg w = Some (Inr (n, am', lg', w')) \<Longrightarrow>
    aio_step K opt (am, w) (am', w')"
| waitall: "mb_aiom_waitall K opt am lg w = Some (Inr (n, am', lg', w')) \<Longrightarrow>
    aio_step K opt (am, w) (am', w')"

inductive_cases aio_stepE [elim!]: "aio_step K opt (am, w) (am', w')"

lemma aio_step_invar:
  assumes "aio_step K opt (am, w) (am', w')" and "aiom_invar opt infl blocks am w"
    and "libaio_ok K infl" and "o_aio_engine opt = AIO_LIBAIO"
  shows "aiom_invar opt infl blocks am' w'"
  using assms(1)
proof cases
  case (issue a pool file_idx mode fd offset)
  have "aiom_owns opt infl blocks [a] (am\<lparr>am_cbpool := pool\<rparr>) w"
    using aiom_pop_owns [OF assms(2) issue(1)] issue(2) by auto
  from aiom_prep_owns [OF this assms(3,4) issue(3), of mode fd offset] issue(4)
  show ?thesis by auto
next
  case submit
  then show ?thesis using aiom_submit_owns [OF assms(2,3,4)] by simp
next
  case (wait lg n lg')
  then show ?thesis
    using aiom_wait_owns [OF assms(2,3,4), of 1 lg] by (simp add: mb_aiom_wait_def)
next
  case (waitall lg n lg')
  then show ?thesis
    using aiom_wait_owns [OF assms(2,3,4), of "am_nr_inflight am" lg]
    by (simp add: mb_aiom_waitall_def)
qed

lemma aio_steps_invar:
  assumes "(aio_step K opt)\<^sup>*\<^sup>* s s'" and "libaio_ok K infl" and "o_aio_engine opt = AIO_LIBAIO"
    and "aiom_invar opt infl blocks (fst s) (snd s)"
  shows "aiom_invar opt infl blocks (fst s') (snd s')"
  using assms(1,4)
proof (induction rule: rtranclp_induct)
  case (step y z)
  then show ?case using aio_step_invar [OF _ _ assms(2,3)] by (cases y; cases z) auto
qed simp

subsection \<open>Properties\<close>

text \<open>
  C19: conservation of control blocks (libaio). \<open>mb_aiom_make\<close> with fresh memory succeeds, and in
  every state the thread can reach with the manager from there (preparing, submitting and
  waiting in any order) each of the \<open>nr_events\<close> control blocks is in exactly one place: free in
  the pool, pending, or in flight. The three counters of the manager count the three places.
\<close>

theorem aiom_blocks_conserved:
  assumes "0 < nr_events" and "fresh_blocks alloc (5 + 3 * nat nr_events)"
    and "libaio_ok K infl" and "infl w = []" and "o_aio_engine opt = AIO_LIBAIO"
    and "file_idx_ok opt 0" and "a_io_setup K nr_events w = (0, w0)"
  shows "\<exists>am0. mb_aiom_make K opt alloc garbage nr_events w = Inr (Some am0, w0) \<and>
    (\<forall>am w1. (aio_step K opt)\<^sup>*\<^sup>* (am0, w0) (am, w1) \<longrightarrow>
       mset (pool_contents (am_cbpool am)) +
         mset (take (nat (am_nr_pending am)) (am_pending am)) + mset (infl w1) =
         mset (aiom_blocks alloc (nat nr_events)) \<and>
       distinct (aiom_blocks alloc (nat nr_events)) \<and>
       mb_aiom_nr_submittable am + am_nr_pending am + am_nr_inflight am = nr_events \<and>
       am_nr_inflight am = int (length (infl w1)))"
proof -
  let ?blocks = "aiom_blocks alloc (nat nr_events)"
  obtain am0 where am0: "mb_aiom_make K opt alloc garbage nr_events w = Inr (Some am0, w0)"
    "aiom_invar opt infl ?blocks am0 w0"
    using aiom_make_owns [OF assms] by blast
  have inv: "aiom_invar opt infl ?blocks am w1"
    if "(aio_step K opt)\<^sup>*\<^sup>* (am0, w0) (am, w1)" for am w1
    using aio_steps_invar [OF that assms(3,5), of ?blocks] am0(2) by simp
  have "length ?blocks = nat nr_events" by (simp add: aiom_blocks_def)
  then have "mset (pool_contents (am_cbpool am)) +
         mset (take (nat (am_nr_pending am)) (am_pending am)) + mset (infl w1) = mset ?blocks \<and>
       distinct ?blocks \<and>
       mb_aiom_nr_submittable am + am_nr_pending am + am_nr_inflight am = nr_events \<and>
       am_nr_inflight am = int (length (infl w1))"
    if "(aio_step K opt)\<^sup>*\<^sup>* (am0, w0) (am, w1)" for am w1
    using inv [OF that] aiom_owns_count [OF inv [OF that]] aiom_submittable [OF inv [OF that]]
      assms(1) by (simp add: aiom_owns_def)
  then show ?thesis using am0(1) by blast
qed

text \<open>
  Preparing a request (libaio). With a free control block, \<open>mb_res_pool_pop\<close> never returns
  \<open>NULL\<close> and \<open>mb_aiom_prep_pread\<close> and \<open>mb_aiom_prep_pwrite\<close> never write outside \<open>pending\<close>; the
  block now carries the requested operation, file and offset, and one less is free.
\<close>

theorem aiom_issue_ok:
  assumes "aiom_invar opt infl blocks am w" and "libaio_ok K infl"
    and "o_aio_engine opt = AIO_LIBAIO" and "mb_aiom_nr_submittable am > 0"
    and "file_idx_ok opt file_idx"
  shows "\<exists>a pool am' w'. mb_res_pool_pop (am_cbpool am) = Inr (a, pool) \<and> a \<noteq> NULL \<and>
    mb_aiom_prep K opt mode (am\<lparr>am_cbpool := pool\<rparr>) fd file_idx a offset w = Inr (am', w') \<and>
    aiom_invar opt infl blocks am' w' \<and>
    mb_aiom_nr_submittable am' = mb_aiom_nr_submittable am - 1 \<and>
    am_nr_pending am' = am_nr_pending am + 1 \<and>
    (\<exists>cb. am_cbs am' a = Some cb \<and> aio_opcode (cb_iocb cb) = mode \<and>
          aio_fildes (cb_iocb cb) = fd \<and> aio_offset (cb_iocb cb) = offset)"
proof -
  obtain a pool where pop: "mb_res_pool_pop (am_cbpool am) = Inr (a, pool)" "a \<noteq> NULL"
    "mb_aiom_nr_submittable (am\<lparr>am_cbpool := pool\<rparr>) = mb_aiom_nr_submittable am - 1"
    "aiom_owns opt infl blocks [a] (am\<lparr>am_cbpool := pool\<rparr>) w"
    using aiom_pop_owns [OF assms(1,4)] by blast
  from aiom_prep_owns [OF pop(4) assms(2,3,5), of mode fd offset] pop(1-3) show ?thesis
    by (fastforce simp: mb_aiom_nr_submittable_def)
qed

text \<open>
  Submitting (libaio). \<open>mb_aiom_submit\<close> never touches a bad control block; it ends the process
  if the kernel does not take all pending requests, and otherwise moves all of them in flight.
\<close>

theorem aiom_submit_ok:
  assumes "aiom_invar opt infl blocks am w" and "libaio_ok K infl"
    and "o_aio_engine opt = AIO_LIBAIO"
  shows "case mb_aiom_submit K opt am w of
      Inl e \<Rightarrow> e = Exit_Failure
    | Inr (am', w') \<Rightarrow> aiom_invar opt infl blocks am' w' \<and> am_nr_pending am' = 0 \<and>
        am_nr_inflight am' = am_nr_inflight am + am_nr_pending am \<and>
        am_iocount am' = am_iocount am \<and> am_cbpool am' = am_cbpool am"
  using assms by (rule aiom_submit_owns)

text \<open>
  C23: waiting (libaio). What \<open>mb_aiom_wait\<close> does is decided by the answer of \<open>io_getevents\<close>: if that
  does not return, it does not return; if it fails, the process ends; otherwise \<open>mb_aiom_wait\<close>
  returns the number of events, at least one and at most as many as are in flight, has counted
  them in \<open>iocount\<close> and taken them off \<open>nr_inflight\<close>, and has put exactly the control blocks of
  these events back into the pool, in their order. The only other outcome is the overflow of the
  log buffer, which needs a log.
\<close>

theorem aiom_wait_ok:
  assumes "aiom_invar opt infl blocks am w" and "libaio_ok K infl"
    and "o_aio_engine opt = AIO_LIBAIO"
  shows "case a_io_getevents K 1 (am_nr_inflight am) w of
      None \<Rightarrow> mb_aiom_wait K opt am lg w = None
    | Some (n, evs, w1) \<Rightarrow>
        if n < 0 then mb_aiom_wait K opt am lg w = Some (Inl Exit_Failure)
        else n = int (length evs) \<and> 1 \<le> n \<and> n \<le> am_nr_inflight am \<and>
          (case mb_aiom_wait K opt am lg w of
             None \<Rightarrow> False
           | Some (Inl e) \<Rightarrow> e = Undefined \<and> o_logfile opt
           | Some (Inr (n', am', lg', w')) \<Rightarrow> n' = n \<and> aiom_invar opt infl blocks am' w' \<and>
               am_nr_pending am' = am_nr_pending am \<and> am_nr_inflight am' = am_nr_inflight am - n \<and>
               am_iocount am' = am_iocount am + n \<and>
               pool_contents (am_cbpool am') = pool_contents (am_cbpool am) @ map ev_obj evs \<and>
               mb_aiom_nr_submittable am' = mb_aiom_nr_submittable am + n)"
  unfolding mb_aiom_wait_def by (rule aiom_wait_exact [OF assms])

lemma aiom_destroy_idle:
  assumes "aiom_invar opt infl blocks am w" and "am_nr_pending am = 0" and "infl w = []"
  shows "\<exists>w'. mb_aiom_destroy K opt am w =
      Some (Inr (am_cbs am |` (- set blocks), am_bufs am |` (- cb_base am ` set blocks),
                 snd (am_cbpool am) |` (- set (pool_cells (am_cbpool am))), w')) \<and>
    distinct (pool_cells (am_cbpool am)) \<and> length (pool_cells (am_cbpool am)) = length blocks \<and>
    set (pool_cells (am_cbpool am)) \<subseteq> dom (snd (am_cbpool am))"
proof -
  let ?xs = "pool_contents (am_cbpool am)"
  have eq: "mset ?xs = mset blocks" using assms by (simp add: aiom_owns_def)
  have set: "set ?xs = set blocks" using eq by (metis set_mset_mset)
  have inv: "pool_invar (am_cbpool am)" "distinct ?xs" "NULL \<notin> set ?xs" "cbs_ok opt blocks am"
    "pool_capacity (am_cbpool am) = length blocks"
    using assms(1) eq set unfolding aiom_owns_def by (auto dest: mset_eq_imp_distinct_iff)
  have "cbs_ok opt ?xs am" using inv(4) set by (simp add: cbs_ok_def)
  from aiom_destroy_loop_ok [OF inv(1) refl inv(2,3) this] obtain pool where loop:
    "aiom_destroy_loop am = Some (Inr (am\<lparr>am_cbpool := pool,
        am_bufs := am_bufs am |` (- cb_base am ` set ?xs), am_cbs := am_cbs am |` (- set ?xs)\<rparr>))"
    "pool_invar pool" "pool_capacity pool = length blocks"
    "snd pool = snd (am_cbpool am)" "pool_cells pool = pool_cells (am_cbpool am)" using inv(5) by auto
  obtain p h where ph: "pool = (p, h)" by fastforce
  then obtain cs where ring: "ring_at cs (p, h)" using loop(2) by (auto simp: pool_invar_def)
  obtain xs where d: "distinct (ring p # xs)" and cells: "pool_cells (p, h) = ring p # xs"
    and s: "set (ring p # xs) = set cs" using ring_at_cells [OF ring] by blast
  have "length (ring p # xs) = length cs" using d s ring by (metis distinct_card ring_at_iff)
  then have "length (pool_cells (p, h)) = length blocks"
    using loop(3) ring cells ph by (simp add: pool_capacity_def ring_at_iff)
  moreover have "set cs \<subseteq> dom h" using ring by (auto simp: ring_at_iff dest: chain_cells)
  ultimately show ?thesis
    using loop(1,4,5) pool_destroy_ring [OF ring] d cells ph set s by (simp add: mb_aiom_destroy_def)
qed

text \<open>
  C24: destroying an idle manager (nothing pending or in flight) terminates. It frees every
  control block, the buffer of every control block and every cell of the manager's own pool, each
  of them once, and nothing else: what is left of the three heaps is what lies outside of them.
\<close>

theorem aiom_destroy_frees_all:
  assumes "aiom_invar opt infl blocks am w" and "am_nr_pending am = 0" and "infl w = []"
  shows "\<exists>w'. mb_aiom_destroy K opt am w =
      Some (Inr (am_cbs am |` (- set blocks), am_bufs am |` (- cb_base am ` set blocks),
                 snd (am_cbpool am) |` (- set (pool_cells (am_cbpool am))), w')) \<and>
    distinct (pool_cells (am_cbpool am)) \<and> length (pool_cells (am_cbpool am)) = length blocks \<and>
    set (pool_cells (am_cbpool am)) \<subseteq> dom (snd (am_cbpool am))"
  using assms by (rule aiom_destroy_idle)

text \<open>
  C25: with io_uring the completions are never accounted for. After requests were submitted and
  one completion was waited for, \<open>nr_inflight\<close> still counts every request ever submitted and
  \<open>iocount\<close> has not moved; so once no further completion arrives, \<open>mb_aiom_waitall\<close> never
  returns.
\<close>

theorem uring_waitall_never_returns:
  assumes "o_aio_engine opt = AIO_IOURING" and "0 < am_nr_pending am" and "0 \<le> am_nr_inflight am"
    and "am_nr_inflight am + am_nr_pending am < 2 ^ 31"
    and "mb_aiom_submit K opt am w = Inr (am1, w1)"
    and "mb_aiom_wait K opt am1 lg w1 = Some (Inr (n, am2, lg2, w2))"
    and "a_uring_wait_cqe K w2 = None"
  shows "n = 1 \<and> am_nr_inflight am2 = am_nr_inflight am + am_nr_pending am \<and>
    am_iocount am2 = am_iocount am \<and> mb_aiom_waitall K opt am2 lg2 w2 = None"
proof -
  have sub: "am_nr_inflight am1 = am_nr_inflight am + am_nr_pending am" "am_iocount am1 = am_iocount am"
    using uring_submit_counters [OF assms(5)] by simp_all
  have wait: "n = 1" "am_nr_inflight am2 = am_nr_inflight am1" "am_iocount am2 = am_iocount am1"
    using uring_wait_counters [OF assms(1) assms(6) [unfolded mb_aiom_wait_def]]
    by (simp_all add: to_int_def)
  have "to_int (am_nr_inflight am2) = am_nr_inflight am2"
    using assms(2-4) sub wait by (intro to_int_id) (simp add: in_int_def)
  moreover obtain k where "nat (am_nr_inflight am2) = Suc k"
    using assms(2,3) sub wait by (cases "nat (am_nr_inflight am2)") auto
  ultimately have "mb_aiom_waitall K opt am2 lg2 w2 = None"
    using assms(1,7) by (simp add: mb_aiom_waitall_def aiom_wait_min_def Let_def)
  then show ?thesis using sub wait by simp
qed

subsection \<open>A manager of two requests\<close>

text \<open>A kernel that completes requests in order; its state is the list of requests it holds.\<close>

definition demo_aio :: "addr list aio_kernel" where
  "demo_aio =
     \<lparr>k_read = \<lambda>fd sz w. (0, [], w), k_write = \<lambda>fd bytes w. (0, w),
      k_pread64 = \<lambda>fd sz offset w. (0, [], w), k_pwrite64 = \<lambda>fd bytes offset w. (0, w),
      k_lseek64 = \<lambda>fd offset w. (offset, w),
      k_gettimeofday = \<lambda>w. (zero_timeval, w), k_usleep = \<lambda>usec w. w,
      a_io_setup = \<lambda>n w. (0, w), a_io_destroy = \<lambda>w. w,
      a_io_submit = \<lambda>cbs w. (int (length cbs), w @ map fst cbs),
      a_io_getevents = \<lambda>mn nr w.
        (let n = min nr (int (length w))
         in if nr < mn then Some (-22, [], w)
            else if n < mn \<or> n < 0 then None
            else Some (n, map (\<lambda>a. \<lparr>ev_obj = a, ev_res = 0, ev_res2 = 0\<rparr>) (take (nat n) w),
                       drop (nat n) w)),
      a_uring_queue_init = \<lambda>n w. (0, w), a_uring_register_buffers = \<lambda>vecs w. (0, w),
      a_uring_queue_exit = \<lambda>w. w, a_uring_prep = \<lambda>a io idx w. (True, w @ [a]),
      a_uring_submit = \<lambda>w. (int (length w), w),
      a_uring_wait_cqe = \<lambda>w. case w of [] \<Rightarrow> None | a # w' \<Rightarrow> Some (0, a, w')\<rparr>"

lemma demo_aio_ok: "libaio_ok demo_aio id"
proof -
  have "mset w = mset (take n w) + mset (drop n w)" for n and w :: "addr list"
    by (metis append_take_drop_id mset_append)
  then show ?thesis
    by (auto simp: libaio_ok_def demo_aio_def Let_def comp_def multiset.map_comp)
qed

definition demo_libaio_option :: micbench_io_option where
  "demo_libaio_option = demo_option\<lparr>o_logfile := False\<rparr>"

lemma demo_file_idx: "file_idx_ok demo_libaio_option 0"
  by (simp add: file_idx_ok_def demo_libaio_option_def demo_option_def)

lemma demo_engine: "o_aio_engine demo_libaio_option = AIO_LIBAIO"
  by (simp add: demo_libaio_option_def demo_option_def)

lemma demo_setup: "a_io_setup demo_aio 2 [] = (0, [])"
  by (simp add: demo_aio_def)

lemma demo_manager:
  "\<exists>am. mb_aiom_make demo_aio demo_libaio_option Suc NaN 2 [] = Inr (Some am, []) \<and>
     aiom_invar demo_libaio_option id (aiom_blocks Suc 2) am [] \<and> am_nr_pending am = 0 \<and>
     mb_aiom_nr_submittable am = 2"
proof -
  obtain am where am: "mb_aiom_make demo_aio demo_libaio_option Suc NaN 2 [] = Inr (Some am, [])"
    "aiom_invar demo_libaio_option id (aiom_blocks Suc (nat 2)) am []"
    "pool_contents (am_cbpool am) = aiom_blocks Suc (nat 2)"
    using aiom_make_owns [of 2 Suc demo_aio id "[]" demo_libaio_option "[]" NaN] demo_aio_ok
      demo_file_idx demo_engine demo_setup fresh_blocks_Suc by auto
  have "length (aiom_blocks Suc 2) = 2" by (simp add: aiom_blocks_def)
  then show ?thesis
    using am aiom_submittable [OF am(2)] aiom_owns_count [OF am(2)]
    by (intro exI [of _ am]) (simp add: aiom_owns_def)
qed

theorem aiom_blocks_conserved_witness:
  "\<exists>am0. mb_aiom_make demo_aio demo_libaio_option Suc NaN 2 [] = Inr (Some am0, []) \<and>
     mset (pool_contents (am_cbpool am0)) = mset (aiom_blocks Suc 2) \<and>
     mb_aiom_nr_submittable am0 + am_nr_pending am0 + am_nr_inflight am0 = 2"
proof -
  obtain am0 where am0: "mb_aiom_make demo_aio demo_libaio_option Suc NaN 2 [] = Inr (Some am0, [])"
    "\<forall>am w1. (aio_step demo_aio demo_libaio_option)\<^sup>*\<^sup>* (am0, []) (am, w1) \<longrightarrow>
       mset (pool_contents (am_cbpool am)) +
         mset (take (nat (am_nr_pending am)) (am_pending am)) + mset (id w1) =
         mset (aiom_blocks Suc (nat 2)) \<and>
       distinct (aiom_blocks Suc (nat 2)) \<and>
       mb_aiom_nr_submittable am + am_nr_pending am + am_nr_inflight am = 2 \<and>
       am_nr_inflight am = int (length (id w1))"
    using aiom_blocks_conserved [of 2 Suc demo_aio id "[]" demo_libaio_option "[]" NaN]
      demo_aio_ok demo_file_idx demo_engine demo_setup fresh_blocks_Suc by auto
  moreover obtain am where "mb_aiom_make demo_aio demo_libaio_option Suc NaN 2 [] = Inr (Some am, [])"
    "am_nr_pending am = 0" using demo_manager by blast
  ultimately have "am_nr_pending am0 = 0" by simp
  then show ?thesis using am0(1) spec [OF spec [OF am0(2), of am0], of "[]"] by auto
qed

theorem aiom_issue_ok_witness:
  "\<exists>am a pool am' w'. mb_aiom_make demo_aio demo_libaio_option Suc NaN 2 [] = Inr (Some am, []) \<and>
     mb_res_pool_pop (am_cbpool am) = Inr (a, pool) \<and>
     mb_aiom_prep demo_aio demo_libaio_option MB_DO_READ (am\<lparr>am_cbpool := pool\<rparr>) 3 0 a 4096 [] =
       Inr (am', w') \<and> mb_aiom_nr_submittable am' = 1"
proof -
  obtain am where am: "mb_aiom_make demo_aio demo_libaio_option Suc NaN 2 [] = Inr (Some am, [])"
    "aiom_invar demo_libaio_option id (aiom_blocks Suc 2) am []" "mb_aiom_nr_submittable am = 2"
    using demo_manager by blast
  from aiom_issue_ok [OF am(2) demo_aio_ok demo_engine _ demo_file_idx, of MB_DO_READ 3 4096] am
  show ?thesis by auto
qed

text \<open>A manager with one request prepared, and what happens to it next, for both engines.\<close>

definition demo_issued :: "micbench_io_option \<Rightarrow> (mb_aiom \<times> addr list) option" where
  "demo_issued opt =
     (case mb_aiom_make demo_aio opt Suc (Fin 0) 2 [] of
        Inr (Some am, w) \<Rightarrow>
          (case mb_res_pool_pop (am_cbpool am) of
             Inr (a, pool) \<Rightarrow>
               (case mb_aiom_prep demo_aio opt MB_DO_READ (am\<lparr>am_cbpool := pool\<rparr>) 3 0 a 0 w of
                  Inr r \<Rightarrow> Some r | Inl e \<Rightarrow> None)
           | Inl e \<Rightarrow> None)
      | _ \<Rightarrow> None)"

definition demo_log :: io_log where
  "demo_log = \<lparr>lg_count = 0, lg_start_usec = 0, lg_lines = []\<rparr>"

definition demo_uring_option :: micbench_io_option where
  "demo_uring_option = demo_libaio_option\<lparr>o_aio_engine := AIO_IOURING\<rparr>"

definition one_request_served :: "micbench_io_option \<Rightarrow> bool" where
  "one_request_served opt =
     (case demo_issued opt of
        None \<Rightarrow> False
      | Some (am, w) \<Rightarrow> am_nr_pending am = 1 \<and> am_nr_inflight am = 0 \<and>
          (case mb_aiom_submit demo_aio opt am w of
             Inl e \<Rightarrow> False
           | Inr (am1, w1) \<Rightarrow>
               (case mb_aiom_wait demo_aio opt am1 demo_log w1 of
                  Some (Inr (n, am2, lg2, w2)) \<Rightarrow> w2 = []
                | _ \<Rightarrow> False)))"

lemma one_request_libaio: "one_request_served demo_libaio_option"
  by code_simp

lemma one_request_uring: "one_request_served demo_uring_option"
  by code_simp

lemma one_request_chain:
  assumes "one_request_served opt"
  obtains am w am1 w1 n am2 lg2 where "demo_issued opt = Some (am, w)" "am_nr_pending am = 1"
    "am_nr_inflight am = 0" "mb_aiom_submit demo_aio opt am w = Inr (am1, w1)"
    "mb_aiom_wait demo_aio opt am1 demo_log w1 = Some (Inr (n, am2, lg2, []))"
proof -
  obtain am w where 1: "demo_issued opt = Some (am, w)"
    using assms unfolding one_request_served_def by (cases "demo_issued opt") auto
  obtain am1 w1 where 2: "mb_aiom_submit demo_aio opt am w = Inr (am1, w1)"
    using assms 1 unfolding one_request_served_def
    by (cases "mb_aiom_submit demo_aio opt am w") auto
  obtain r where 3: "mb_aiom_wait demo_aio opt am1 demo_log w1 = Some r"
    using assms 1 2 unfolding one_request_served_def
    by (cases "mb_aiom_wait demo_aio opt am1 demo_log w1") auto
  obtain n am2 lg2 w2 where 4: "r = Inr (n, am2, lg2, w2)"
    using assms 1 2 3 unfolding one_request_served_def by (cases r) auto
  show ?thesis using that assms 1 2 3 4 unfolding one_request_served_def by simp
qed

lemma demo_issued_invar:
  assumes "demo_issued demo_libaio_option = Some (am, w)"
  shows "aiom_invar demo_libaio_option id (aiom_blocks Suc 2) am w"
proof -
  obtain am0 where am0: "mb_aiom_make demo_aio demo_libaio_option Suc (Fin 0) 2 [] = Inr (Some am0, [])"
    "aiom_invar demo_libaio_option id (aiom_blocks Suc (nat 2)) am0 []"
    "pool_contents (am_cbpool am0) = aiom_blocks Suc (nat 2)"
    using aiom_make_owns [of 2 Suc demo_aio id "[]" demo_libaio_option "[]" "Fin 0"] demo_aio_ok
      demo_file_idx demo_engine demo_setup fresh_blocks_Suc by auto
  have "length (aiom_blocks Suc 2) = 2" by (simp add: aiom_blocks_def)
  then have "mb_aiom_nr_submittable am0 > 0" using am0(3) aiom_submittable [OF am0(2)] by simp
  from aiom_pop_owns [OF am0(2) this] obtain a pool where
    pop: "mb_res_pool_pop (am_cbpool am0) = Inr (a, pool)"
    "aiom_owns demo_libaio_option id (aiom_blocks Suc 2) [a] (am0\<lparr>am_cbpool := pool\<rparr>) []" by auto
  from aiom_prep_owns [OF pop(2) demo_aio_ok demo_engine demo_file_idx, of MB_DO_READ 3 0] assms
  show ?thesis by (auto simp: demo_issued_def am0(1) pop(1))
qed

theorem aiom_submit_ok_witness:
  "\<exists>am w am' w'. demo_issued demo_libaio_option = Some (am, w) \<and>
     mb_aiom_submit demo_aio demo_libaio_option am w = Inr (am', w') \<and>
     am_nr_inflight am' = 1 \<and> am_nr_pending am' = 0"
proof -
  obtain am w am1 w1 where am: "demo_issued demo_libaio_option = Some (am, w)" "am_nr_pending am = 1"
    "am_nr_inflight am = 0" "mb_aiom_submit demo_aio demo_libaio_option am w = Inr (am1, w1)"
    using one_request_chain [OF one_request_libaio] by metis
  from aiom_submit_ok [OF demo_issued_invar [OF am(1)] demo_aio_ok demo_engine] am
  show ?thesis by auto
qed

theorem aiom_wait_ok_witness:
  "\<exists>am w am1 w1 n am2 lg2 w2. demo_issued demo_libaio_option = Some (am, w) \<and>
     mb_aiom_submit demo_aio demo_libaio_option am w = Inr (am1, w1) \<and>
     mb_aiom_wait demo_aio demo_libaio_option am1 demo_log w1 = Some (Inr (n, am2, lg2, w2)) \<and>
     n = 1 \<and> am_iocount am2 = am_iocount am1 + 1 \<and> am_nr_inflight am2 = 0"
proof -
  obtain am w am1 w1 n am2 lg2 where am: "demo_issued demo_libaio_option = Some (am, w)"
    "am_nr_pending am = 1" "am_nr_inflight am = 0"
    "mb_aiom_submit demo_aio demo_libaio_option am w = Inr (am1, w1)"
    "mb_aiom_wait demo_aio demo_libaio_option am1 demo_log w1 = Some (Inr (n, am2, lg2, []))"
    using one_request_chain [OF one_request_libaio] by metis
  have am1: "aiom_invar demo_libaio_option id (aiom_blocks Suc 2) am1 w1" "am_nr_inflight am1 = 1"
    using aiom_submit_owns [OF demo_issued_invar [OF am(1)] demo_aio_ok demo_engine] am(2-4)
    by simp_all
  have "n = 1 \<and> am_iocount am2 = am_iocount am1 + 1 \<and> am_nr_inflight am2 = 0"
    using aiom_wait_ok [OF am1(1) demo_aio_ok demo_engine, of demo_log] am(5) am1(2)
    by (auto split: option.splits if_splits)
  then show ?thesis using am by blast
qed

theorem aiom_destroy_frees_all_witness:
  "\<exists>am cbs bufs cells w'. mb_aiom_make demo_aio demo_libaio_option Suc NaN 2 [] = Inr (Some am, []) \<and>
     mb_aiom_destroy demo_aio demo_libaio_option am [] = Some (Inr (cbs, bufs, cells, w')) \<and>
     cbs = am_cbs am |` (- set (aiom_blocks Suc 2)) \<and>
     cells = snd (am_cbpool am) |` (- set (pool_cells (am_cbpool am))) \<and>
     length (pool_cells (am_cbpool am)) = 2"
proof -
  obtain am where am: "mb_aiom_make demo_aio demo_libaio_option Suc NaN 2 [] = Inr (Some am, [])"
    "aiom_invar demo_libaio_option id (aiom_blocks Suc 2) am []" "am_nr_pending am = 0"
    using demo_manager by blast
  have "length (aiom_blocks Suc 2) = 2" by (simp add: aiom_blocks_def)
  with aiom_destroy_frees_all [OF am(2,3), of demo_aio] am(1) show ?thesis by auto
qed

theorem uring_waitall_never_returns_witness:
  "\<exists>am w am1 w1 n am2 lg2. demo_issued demo_uring_option = Some (am, w) \<and>
     mb_aiom_submit demo_aio demo_uring_option am w = Inr (am1, w1) \<and>
     mb_aiom_wait demo_aio demo_uring_option am1 demo_log w1 = Some (Inr (n, am2, lg2, [])) \<and>
     am_nr_inflight am2 = 1 \<and> mb_aiom_waitall demo_aio demo_uring_option am2 lg2 [] = None"
proof -
  obtain am w am1 w1 n am2 lg2 where am: "demo_issued demo_uring_option = Some (am, w)"
    "am_nr_pending am = 1" "am_nr_inflight am = 0"
    "mb_aiom_submit demo_aio demo_uring_option am w = Inr (am1, w1)"
    "mb_aiom_wait demo_aio demo_uring_option am1 demo_log w1 = Some (Inr (n, am2, lg2, []))"
    using one_request_chain [OF one_request_uring] by metis
  have "o_aio_engine demo_uring_option = AIO_IOURING" "a_uring_wait_cqe demo_aio [] = None"
    by (simp_all add: demo_uring_option_def demo_aio_def)
  from uring_waitall_never_returns [OF this(1) _ _ _ am(4,5) this(2)] am show ?thesis by fastforce
qed

end
