(* ===== verification/IoPattern.thy ===== *)
theory IoPattern
  imports Aiom
begin

section \<open>Where the requests go: access patterns of micbench-io\<close>

text \<open>
  The parts of \<open>do_sync_io\<close> and \<open>do_async_io\<close> (src/src/micbench-io.c) that choose the file, the
  block and the direction of each request: the offset arrays set up at the start of a thread,
  the step of each pattern, and the macro \<open>mb_read_or_write\<close> of src/src/micbench-io.h.
\<close>

unbundle bit_operations_syntax

subsection \<open>The offset arrays\<close>

record io_offsets =
  ofst_list :: "int list"
  ofst_min_list :: "int list"
  ofst_max_list :: "int list"
  seekdist_side_list :: "int list"

definition io_ofst_min :: "micbench_io_option \<Rightarrow> int" where
  "io_ofst_min opt = (if o_ofst_start opt \<ge> 0 then o_ofst_start opt else 0)"

text \<open>A signed 64-bit result, undefined if it overflows; C division, undefined by zero.\<close>

definition long_val :: "int \<Rightarrow> int c_result" where
  "long_val x = (if in_long x then Inr x else Inl Undefined)"

definition long_div :: "int \<Rightarrow> int \<Rightarrow> int c_result" where
  "long_div a b = (if b = 0 then Inl Undefined else long_val (cdiv a b))"

definition io_ofst_max :: "micbench_io_option \<Rightarrow> int \<Rightarrow> int c_result" where
  "io_ofst_max opt file_size =
     (if o_ofst_end opt \<ge> 0 then Inr (o_ofst_end opt) else long_div file_size (o_blk_sz opt))"

definition io_seq_start :: "micbench_io_option \<Rightarrow> int \<Rightarrow> int \<Rightarrow> int \<Rightarrow> int c_result" where
  "io_seq_start opt thread_id mn mx =
     bind_c (long_val (mx - mn)) (\<lambda>width.
     bind_c (long_val (width * thread_id)) (\<lambda>prod.
     bind_c (long_div prod (o_multi opt)) (\<lambda>q. long_val (mn + q))))"

text \<open>The first offset: the synchronous engine has a case of its own for the seek distance.\<close>

definition io_first_ofst :: "bool \<Rightarrow> micbench_io_option \<Rightarrow> int \<Rightarrow> int \<Rightarrow> int \<Rightarrow> int c_result" where
  "io_first_ofst sync opt thread_id mn mx =
     (if o_pattern opt = PATTERN_SEQ then io_seq_start opt thread_id mn mx
      else if sync \<and> o_pattern opt = PATTERN_SEEKDIST then long_val (mx - o_seekdist_stride opt)
      else Inr mn)"

fun io_init_offsets :: "bool \<Rightarrow> micbench_io_option \<Rightarrow> int \<Rightarrow> int list \<Rightarrow> io_offsets c_result" where
  "io_init_offsets sync opt thread_id [] =
     Inr \<lparr>ofst_list = [], ofst_min_list = [], ofst_max_list = [], seekdist_side_list = []\<rparr>"
| "io_init_offsets sync opt thread_id (file_size # sizes) =
     (let mn = io_ofst_min opt
      in bind_c (io_ofst_max opt file_size) (\<lambda>mx.
         bind_c (io_first_ofst sync opt thread_id mn mx) (\<lambda>o1.
         bind_c (io_init_offsets sync opt thread_id sizes) (\<lambda>os.
         Inr \<lparr>ofst_list = o1 # ofst_list os, ofst_min_list = mn # ofst_min_list os,
              ofst_max_list = mx # ofst_max_list os,
              seekdist_side_list = 0 # seekdist_side_list os\<rparr>))))"

subsection \<open>One step of each pattern\<close>

definition file_slot :: "'a list \<Rightarrow> int \<Rightarrow> 'a c_result" where
  "file_slot xs i = (if 0 \<le> i \<and> i < int (length xs) then Inr (xs ! nat i) else Inl Undefined)"

definition io_addr :: "micbench_io_option \<Rightarrow> int \<Rightarrow> int c_result" where
  "io_addr opt ofst =
     bind_c (long_val (ofst * o_blk_sz opt)) (\<lambda>x. long_val (x + o_misalign opt))"

text \<open>The next file: drawn, or the one after the last.\<close>

definition rand_file :: "micbench_io_option \<Rightarrow> rand48 \<Rightarrow> (int \<times> rand48) c_result" where
  "rand_file opt rand =
     (let (ret, rand') = lrand48_r rand
      in if o_nr_files opt = 0 then Inl Undefined
         else Inr (to_int (crem ret (o_nr_files opt)), rand'))"

definition next_file :: "micbench_io_option \<Rightarrow> int \<Rightarrow> int c_result" where
  "next_file opt file_idx =
     (if o_nr_files opt = 0 \<or> \<not> in_int (file_idx + 1) then Inl Undefined
      else Inr (crem (file_idx + 1) (o_nr_files opt)))"

text \<open>\<open>PATTERN_RAND\<close>: a random block of a random file.\<close>

definition rand_advance ::
  "micbench_io_option \<Rightarrow> rand48 \<Rightarrow> io_offsets \<Rightarrow> (int \<times> int \<times> rand48 \<times> io_offsets) c_result" where
  "rand_advance opt rand os =
     bind_c (rand_file opt rand) (\<lambda>(file_idx, rand1).
     bind_c (file_slot (ofst_min_list os) file_idx) (\<lambda>mn.
     bind_c (file_slot (ofst_max_list os) file_idx) (\<lambda>mx.
     bind_c (mb_rand_range_long rand1 mn mx) (\<lambda>(v, rand2).
     bind_c (io_addr opt v) (\<lambda>addr.
     Inr (file_idx, addr, rand2, os\<lparr>ofst_list := (ofst_list os)[nat file_idx := v]\<rparr>))))))"

text \<open>\<open>PATTERN_SEQ\<close>: the next block of the next file, from the end back to the start.\<close>

definition seq_advance ::
  "micbench_io_option \<Rightarrow> int \<Rightarrow> io_offsets \<Rightarrow> (int \<times> int \<times> io_offsets) c_result" where
  "seq_advance opt file_idx0 os =
     bind_c (next_file opt file_idx0) (\<lambda>file_idx.
     bind_c (file_slot (ofst_list os) file_idx) (\<lambda>cur.
     bind_c (file_slot (ofst_min_list os) file_idx) (\<lambda>mn.
     bind_c (file_slot (ofst_max_list os) file_idx) (\<lambda>mx.
     bind_c (long_val (cur + 1)) (\<lambda>inc.
     let v = (if inc \<ge> mx then mn else inc)
     in bind_c (io_addr opt v) (\<lambda>addr.
        Inr (file_idx, addr, os\<lparr>ofst_list := (ofst_list os)[nat file_idx := v]\<rparr>)))))))"

text \<open>\<open>PATTERN_SEEKDIST\<close>: alternately near the end and near the start of the next file.\<close>

definition seekdist_advance ::
  "micbench_io_option \<Rightarrow> int \<Rightarrow> rand48 \<Rightarrow> io_offsets \<Rightarrow>
     (int \<times> int \<times> rand48 \<times> io_offsets) c_result" where
  "seekdist_advance opt file_idx0 rand os =
     bind_c (next_file opt file_idx0) (\<lambda>file_idx.
     bind_c (file_slot (seekdist_side_list os) file_idx) (\<lambda>side.
     bind_c (file_slot (ofst_min_list os) file_idx) (\<lambda>mn.
     bind_c (file_slot (ofst_max_list os) file_idx) (\<lambda>mx.
     bind_c
       (if side = 0
        then bind_c (long_val (mx - o_seekdist_stride opt))
               (\<lambda>from. mb_rand_range_long rand from mx)
        else bind_c (long_val (mn + o_seekdist_stride opt))
               (\<lambda>to. mb_rand_range_long rand mn to))
       (\<lambda>(v, rand').
     bind_c (io_addr opt v) (\<lambda>addr.
     Inr (file_idx, addr, rand',
          os\<lparr>seekdist_side_list := (seekdist_side_list os)
               [nat file_idx := side XOR 1]\<rparr>)))))))"

subsection \<open>Read or write\<close>

text \<open>
  The macro draws from the generator of the process, \<open>drand48\<close>, only in the mixed mode.
\<close>

definition mb_read_or_write :: "micbench_io_option \<Rightarrow> rand48 \<Rightarrow> mb_io_mode \<times> rand48" where
  "mb_read_or_write opt grand =
     (if o_read opt then (MB_DO_READ, grand)
      else if o_write opt then (MB_DO_WRITE, grand)
      else let (x, grand') = drand48_r grand
           in (if d_less (o_rwmix opt) (Fin (of_nat x / 2 ^ 48)) then MB_DO_READ else MB_DO_WRITE,
               grand'))"

subsection \<open>Facts about the arrays\<close>

definition offsets_ok :: "nat \<Rightarrow> io_offsets \<Rightarrow> bool" where
  "offsets_ok n os \<longleftrightarrow> length (ofst_list os) = n \<and> length (ofst_min_list os) = n \<and>
     length (ofst_max_list os) = n \<and> length (seekdist_side_list os) = n"

lemma file_slot_ok [simp]: "i < length xs \<Longrightarrow> file_slot xs (int i) = Inr (xs ! i)"
  by (simp add: file_slot_def)

lemma long_val_ok [simp]: "in_long x \<Longrightarrow> long_val x = Inr x"
  by (simp add: long_val_def)

lemma next_file_ok:
  assumes "o_nr_files opt = int n" and "0 < n" and "n < 2 ^ 31" and "i < n"
  shows "next_file opt (int i) = Inr (int (Suc i mod n))"
proof -
  have "crem (int i + 1) (int n) = int (Suc i mod n)"
    using assms(2) by (simp add: crem_nonneg zmod_int ac_simps)
  then show ?thesis using assms by (simp add: next_file_def in_int_def)
qed

lemma rand_file_ok:
  assumes "o_nr_files opt = int n" and "0 < n" and "n < 2 ^ 31"
  shows "\<exists>i < n. rand_file opt rand = Inr (int i, rand48_next rand)"
proof -
  define i where "i = unat (rand48_next rand) div 2 ^ 17 mod n"
  have i: "i < n" using assms(2) by (simp add: i_def)
  have "crem (int (unat (rand48_next rand) div 2 ^ 17)) (int n) = int i"
    using assms(2) by (simp add: crem_nonneg i_def zmod_int)
  moreover have "to_int (int i) = int i" using i assms(3) by (intro to_int_id) (simp add: in_int_def)
  ultimately show ?thesis
    using i assms by (intro exI [of _ i]) (simp add: rand_file_def lrand48_r_def Let_def)
qed

text \<open>Block numbers up to \<open>mx\<close> have an address without overflow.\<close>

definition addr_room :: "micbench_io_option \<Rightarrow> int \<Rightarrow> bool" where
  "addr_room opt mx \<longleftrightarrow> 0 < o_blk_sz opt \<and> 0 \<le> o_misalign opt \<and>
     mx * o_blk_sz opt + o_misalign opt < 2 ^ 63"

lemma io_addr_ok:
  assumes "addr_room opt mx" and "0 \<le> v" and "v \<le> mx"
  shows "io_addr opt v = Inr (v * o_blk_sz opt + o_misalign opt)"
proof -
  have "v * o_blk_sz opt \<le> mx * o_blk_sz opt"
    using assms by (intro mult_right_mono) (simp_all add: addr_room_def)
  moreover have "0 \<le> v * o_blk_sz opt" using assms by (simp add: addr_room_def)
  moreover have "0 \<le> o_misalign opt" "mx * o_blk_sz opt + o_misalign opt < 2 ^ 63"
    using assms(1) by (simp_all add: addr_room_def)
  ultimately have "in_long (v * o_blk_sz opt)" "in_long (v * o_blk_sz opt + o_misalign opt)"
    unfolding in_long_def by linarith+
  then show ?thesis by (simp add: io_addr_def)
qed

subsection \<open>The sequential pattern\<close>

primrec seq_run ::
  "micbench_io_option \<Rightarrow> nat \<Rightarrow> int \<Rightarrow> io_offsets \<Rightarrow> ((int \<times> int) list \<times> int \<times> io_offsets) c_result" where
  "seq_run opt 0 fi os = Inr ([], fi, os)"
| "seq_run opt (Suc k) fi os =
     bind_c (seq_run opt k fi os) (\<lambda>(reqs, fi1, os1).
     bind_c (seq_advance opt fi1 os1) (\<lambda>(fi2, addr, os2).
     Inr (reqs @ [(fi2, addr)], fi2, os2)))"

text \<open>
  The reference: request \<open>t\<close> (from 1) goes to file \<open>t mod n\<close>; the requests to one file walk
  through its blocks in order and wrap around.
\<close>

definition visits :: "nat \<Rightarrow> nat \<Rightarrow> nat \<Rightarrow> nat" where
  "visits n i t = (if i = 0 then t div n else (t + n - i) div n)"

definition seq_ofst :: "nat \<Rightarrow> io_offsets \<Rightarrow> nat \<Rightarrow> nat \<Rightarrow> int" where
  "seq_ofst n os i t =
     (let mn = ofst_min_list os ! i; mx = ofst_max_list os ! i
      in mn + (ofst_list os ! i - mn + int (visits n i t)) mod (mx - mn))"

lemma visits_0: "i < n \<Longrightarrow> visits n i 0 = 0"
  by (simp add: visits_def)

lemma visits_Suc:
  assumes "i < n"
  shows "visits n i (Suc t) = visits n i t + (if Suc t mod n = i then 1 else 0)"
proof (cases "i = 0")
  case True
  then show ?thesis by (simp add: visits_def div_Suc)
next
  case False
  have "Suc (t + n - i) = Suc t + n - i" using assms by simp
  then have "(Suc t + n - i) div n = (t + n - i) div n + (if (Suc t + n - i) mod n = 0 then 1 else 0)"
    using div_Suc [of "t + n - i" n] by simp
  moreover have "(Suc t + n - i) mod n = 0 \<longleftrightarrow> Suc t mod n = i"
  proof -
    define r where "r = Suc t mod n"
    have r: "r < n" using assms by (simp add: r_def)
    have "Suc t + n - i = Suc t + (n - i)" using assms by linarith
    then have "(Suc t + n - i) mod n = (Suc t + (n - i)) mod n" by (simp only:)
    also have "\<dots> = (r + (n - i)) mod n" unfolding r_def by (rule mod_add_left_eq [symmetric])
    finally have eq: "(Suc t + n - i) mod n = (r + (n - i)) mod n" .
    show ?thesis
    proof (cases "r < i")
      case True
      then have "(r + (n - i)) mod n = r + (n - i)" using assms by simp
      then show ?thesis using eq True assms by (simp add: r_def [symmetric])
    next
      case False
      then have "r + (n - i) = (r - i) + n" using assms by simp
      then have "(r + (n - i)) mod n = (r - i) mod n" by (simp only: mod_add_self2)
      then have "(r + (n - i)) mod n = r - i" using r by simp
      then show ?thesis using eq False by (auto simp: r_def [symmetric])
    qed
  qed
  ultimately show ?thesis using False by (simp add: visits_def)
qed


lemma seq_ofst_range:
  assumes "i < n" and "ofst_min_list os ! i < ofst_max_list os ! i"
  shows "ofst_min_list os ! i \<le> seq_ofst n os i t \<and> seq_ofst n os i t < ofst_max_list os ! i"
proof -
  let ?w = "ofst_max_list os ! i - ofst_min_list os ! i"
  let ?x = "ofst_list os ! i - ofst_min_list os ! i + int (visits n i t)"
  have "0 \<le> ?x mod ?w" "?x mod ?w < ?w" using assms(2) by simp_all
  then show ?thesis unfolding seq_ofst_def Let_def by linarith
qed

text \<open>One visit moves to the next block, from the last back to the first.\<close>

lemma seq_ofst_Suc:
  assumes "i < n" and "ofst_min_list os ! i < ofst_max_list os ! i"
  shows "seq_ofst n os i (Suc t) =
    (if Suc t mod n = i
     then if seq_ofst n os i t + 1 \<ge> ofst_max_list os ! i then ofst_min_list os ! i
          else seq_ofst n os i t + 1
     else seq_ofst n os i t)"
proof -
  define w where "w = ofst_max_list os ! i - ofst_min_list os ! i"
  define x where "x = ofst_list os ! i - ofst_min_list os ! i + int (visits n i t)"
  have w: "0 < w" using assms(2) by (simp add: w_def)
  have r: "0 \<le> x mod w" "x mod w < w" using w by simp_all
  have "(x + 1) mod w = (if x mod w + 1 \<ge> w then 0 else x mod w + 1)"
  proof (cases "x mod w + 1 \<ge> w")
    case True
    then have "x mod w + 1 = w" using r by simp
    moreover have "(x + 1) mod w = (x mod w + 1) mod w" by (simp add: mod_add_left_eq)
    ultimately show ?thesis using True by simp
  next
    case False
    moreover have "(x + 1) mod w = (x mod w + 1) mod w" by (simp add: mod_add_left_eq)
    ultimately show ?thesis using r by simp
  qed
  then show ?thesis
    using visits_Suc [OF assms(1), of t]
    unfolding seq_ofst_def Let_def w_def [symmetric] by (auto simp: x_def w_def ac_simps)
qed

definition seq_room :: "micbench_io_option \<Rightarrow> nat \<Rightarrow> io_offsets \<Rightarrow> bool" where
  "seq_room opt n os \<longleftrightarrow> o_nr_files opt = int n \<and> 0 < n \<and> n < 2 ^ 31 \<and> offsets_ok n os \<and>
     (\<forall>i < n. 0 \<le> ofst_min_list os ! i \<and> ofst_min_list os ! i \<le> ofst_list os ! i \<and>
        ofst_list os ! i < ofst_max_list os ! i \<and> addr_room opt (ofst_max_list os ! i))"

text \<open>The offsets after \<open>t\<close> requests.\<close>

definition seq_offsets :: "nat \<Rightarrow> io_offsets \<Rightarrow> nat \<Rightarrow> io_offsets" where
  "seq_offsets n os t = os\<lparr>ofst_list := map (\<lambda>i. seq_ofst n os i t) [0..<n]\<rparr>"

definition seq_request :: "micbench_io_option \<Rightarrow> nat \<Rightarrow> io_offsets \<Rightarrow> nat \<Rightarrow> int \<times> int" where
  "seq_request opt n os t =
     (int (t mod n), seq_ofst n os (t mod n) t * o_blk_sz opt + o_misalign opt)"

lemma seq_advance_spec:
  assumes "seq_room opt n os"
  shows "seq_advance opt (int (t mod n)) (seq_offsets n os t) =
    Inr (int (Suc t mod n), snd (seq_request opt n os (Suc t)), seq_offsets n os (Suc t))"
proof -
  define i where "i = Suc t mod n"
  have n: "o_nr_files opt = int n" "0 < n" "n < 2 ^ 31" "offsets_ok n os"
    using assms by (simp_all add: seq_room_def)
  have i: "i < n" using n(2) by (simp add: i_def)
  have b: "0 \<le> ofst_min_list os ! i" "ofst_min_list os ! i < ofst_max_list os ! i"
    "addr_room opt (ofst_max_list os ! i)"
    using assms i by (auto simp: seq_room_def)
  let ?cur = "seq_ofst n os i t"
  let ?new = "seq_ofst n os i (Suc t)"
  have r: "ofst_min_list os ! i \<le> ?cur" "?cur < ofst_max_list os ! i"
    "ofst_min_list os ! i \<le> ?new" "?new < ofst_max_list os ! i"
    using seq_ofst_range [OF i b(2)] by simp_all
  have "ofst_max_list os ! i * 1 \<le> ofst_max_list os ! i * o_blk_sz opt"
    using b by (intro mult_left_mono) (simp_all add: addr_room_def)
  then have "ofst_max_list os ! i < 2 ^ 63" using b(3) by (simp add: addr_room_def)
  then have inc: "in_long (?cur + 1)" using r b(1) by (simp add: in_long_def)
  have new: "?new = (if ?cur + 1 \<ge> ofst_max_list os ! i then ofst_min_list os ! i else ?cur + 1)"
    using seq_ofst_Suc [OF i b(2), of t] by (simp add: i_def)
  have addr: "io_addr opt ?new = Inr (?new * o_blk_sz opt + o_misalign opt)"
    using io_addr_ok [OF b(3)] r b(1) by simp
  have fi: "next_file opt (int (t mod n)) = Inr (int i)"
    using next_file_ok [OF n(1-3), of "t mod n"] n(2) by (simp add: i_def mod_Suc_eq)
  have upd: "(map (\<lambda>j. seq_ofst n os j t) [0..<n])[i := ?new] =
      map (\<lambda>j. seq_ofst n os j (Suc t)) [0..<n]"
  proof (rule nth_equalityI)
    fix j assume "j < length ((map (\<lambda>j. seq_ofst n os j t) [0..<n])[i := ?new])"
    then have j: "j < n" by simp
    have "ofst_min_list os ! j < ofst_max_list os ! j" using assms j by (auto simp: seq_room_def)
    from seq_ofst_Suc [OF j this, of t] show
      "(map (\<lambda>j. seq_ofst n os j t) [0..<n])[i := ?new] ! j =
       map (\<lambda>j. seq_ofst n os j (Suc t)) [0..<n] ! j"
      using i j by (auto simp: nth_list_update i_def [symmetric])
  qed simp
  have "seq_advance opt (int (t mod n)) (seq_offsets n os t) =
      Inr (int i, ?new * o_blk_sz opt + o_misalign opt, seq_offsets n os (Suc t))"
    using n(4) i inc addr
    by (simp add: seq_advance_def fi seq_offsets_def offsets_ok_def new [symmetric] upd Let_def)
  then show ?thesis by (simp add: seq_request_def i_def)
qed

lemma seq_run_spec:
  assumes "seq_room opt n os"
  shows "seq_run opt k 0 os =
    Inr (map (seq_request opt n os) [1..<Suc k], int (k mod n), seq_offsets n os k)"
proof (induction k)
  case 0
  have n: "length (ofst_list os) = n" using assms by (simp add: seq_room_def offsets_ok_def)
  have "seq_ofst n os i 0 = ofst_list os ! i" if "i < n" for i
    using assms that visits_0 [OF that] by (simp add: seq_ofst_def seq_room_def Let_def)
  then have "map (\<lambda>i. seq_ofst n os i 0) [0..<n] = ofst_list os"
    using n by (intro nth_equalityI) simp_all
  then show ?case by (simp add: seq_offsets_def)
next
  case (Suc k)
  have "seq_request opt n os (Suc k) = (int (Suc k mod n), snd (seq_request opt n os (Suc k)))"
    by (simp add: seq_request_def)
  then show ?case using Suc seq_advance_spec [OF assms, of k] by simp
qed

subsection \<open>The arrays at the start of a thread\<close>

definition io_blocks :: "micbench_io_option \<Rightarrow> int \<Rightarrow> int" where
  "io_blocks opt file_size =
     (if o_ofst_end opt \<ge> 0 then o_ofst_end opt else file_size div o_blk_sz opt)"

definition io_seq_share :: "micbench_io_option \<Rightarrow> int \<Rightarrow> int \<Rightarrow> int" where
  "io_seq_share opt thread_id mx =
     io_ofst_min opt + (mx - io_ofst_min opt) * thread_id div o_multi opt"

text \<open>The size of a file leaves room for the threads: no product of the start offset overflows.\<close>

definition io_share_room :: "micbench_io_option \<Rightarrow> int \<Rightarrow> bool" where
  "io_share_room opt file_size \<longleftrightarrow> 0 \<le> file_size \<and> file_size < 2 ^ 63 \<and>
     io_ofst_min opt < io_blocks opt file_size \<and> io_blocks opt file_size * o_multi opt < 2 ^ 63"

lemma io_ofst_max_blocks:
  assumes "0 < o_blk_sz opt" and "0 \<le> file_size" and "file_size < 2 ^ 63"
  shows "io_ofst_max opt file_size = Inr (io_blocks opt file_size)"
proof -
  have "file_size div o_blk_sz opt \<le> file_size"
    using assms zdiv_mono2 [of file_size 1 "o_blk_sz opt"] by simp
  moreover have "0 \<le> file_size div o_blk_sz opt" using assms by (simp add: pos_imp_zdiv_nonneg_iff)
  ultimately have "in_long (file_size div o_blk_sz opt)" using assms by (simp add: in_long_def)
  then show ?thesis using assms by (simp add: io_ofst_max_def io_blocks_def long_div_def cdiv_nonneg)
qed

lemma io_ofst_min_nonneg: "0 \<le> io_ofst_min opt"
  by (simp add: io_ofst_min_def)

lemma io_seq_share_bounds:
  assumes "0 \<le> thread_id" and "thread_id < o_multi opt" and "io_ofst_min opt < mx"
  shows "io_ofst_min opt \<le> io_seq_share opt thread_id mx" "io_seq_share opt thread_id mx < mx"
proof -
  let ?w = "mx - io_ofst_min opt"
  have "0 \<le> ?w * thread_id div o_multi opt"
    using assms by (simp add: pos_imp_zdiv_nonneg_iff)
  then show "io_ofst_min opt \<le> io_seq_share opt thread_id mx" by (simp add: io_seq_share_def)
  have "?w * thread_id < ?w * o_multi opt" using assms by (intro mult_strict_left_mono) simp_all
  moreover have "(?w * thread_id div o_multi opt) * o_multi opt \<le> ?w * thread_id"
    using assms by (simp add: minus_mod_eq_div_mult [symmetric])
  ultimately have "(?w * thread_id div o_multi opt) * o_multi opt < ?w * o_multi opt" by linarith
  then have "?w * thread_id div o_multi opt < ?w"
    using assms by (simp add: mult_less_cancel_right)
  then show "io_seq_share opt thread_id mx < mx" by (simp add: io_seq_share_def)
qed


lemma io_first_ofst_seq:
  assumes "o_pattern opt = PATTERN_SEQ" and "0 \<le> thread_id" and "thread_id < o_multi opt"
    and "io_ofst_min opt < mx" and "mx * o_multi opt < 2 ^ 63"
  shows "io_first_ofst sync opt thread_id (io_ofst_min opt) mx = Inr (io_seq_share opt thread_id mx)"
proof -
  let ?w = "mx - io_ofst_min opt"
  have mn: "0 \<le> io_ofst_min opt" by (rule io_ofst_min_nonneg)
  have "mx * 1 \<le> mx * o_multi opt" using assms mn by (intro mult_left_mono) simp_all
  then have mx: "mx < 2 ^ 63" using assms(5) by simp
  have "?w * thread_id \<le> mx * o_multi opt" using assms mn by (intro mult_mono) simp_all
  moreover have "0 \<le> ?w * thread_id" using assms by simp
  ultimately have prod: "in_long (?w * thread_id)" "0 \<le> ?w * thread_id"
    using assms(5) by (simp_all add: in_long_def)
  have share: "io_ofst_min opt \<le> io_seq_share opt thread_id mx" "io_seq_share opt thread_id mx < mx"
    using io_seq_share_bounds [OF assms(2,3,4)] by simp_all
  then have "in_long (io_seq_share opt thread_id mx)"
    and "in_long (?w * thread_id div o_multi opt)" and "in_long ?w"
    using mx mn assms(4) by (simp_all add: in_long_def io_seq_share_def)
  then show ?thesis
    using assms(1-3) prod
    by (simp add: io_first_ofst_def io_seq_start_def long_div_def cdiv_nonneg io_seq_share_def)
qed

text \<open>With the sequential pattern each thread starts at its share of every file.\<close>

lemma io_init_offsets_seq:
  assumes "o_pattern opt = PATTERN_SEQ" and "0 \<le> thread_id" and "thread_id < o_multi opt"
    and "0 < o_blk_sz opt" and "\<forall>size \<in> set sizes. io_share_room opt size"
  shows "io_init_offsets sync opt thread_id sizes =
    Inr \<lparr>ofst_list = map (\<lambda>size. io_seq_share opt thread_id (io_blocks opt size)) sizes,
         ofst_min_list = map (\<lambda>size. io_ofst_min opt) sizes,
         ofst_max_list = map (io_blocks opt) sizes,
         seekdist_side_list = map (\<lambda>size. 0) sizes\<rparr>"
  using assms(5)
proof (induction sizes)
  case (Cons size sizes)
  then have "io_share_room opt size" by simp
  then have "io_ofst_max opt size = Inr (io_blocks opt size)"
    "io_first_ofst sync opt thread_id (io_ofst_min opt) (io_blocks opt size) =
       Inr (io_seq_share opt thread_id (io_blocks opt size))"
    using io_ofst_max_blocks [OF assms(4)] io_first_ofst_seq [OF assms(1-3)]
    by (simp_all add: io_share_room_def)
  with Cons show ?case by (simp add: Let_def)
qed simp

lemma io_blocks_inside:
  assumes "0 < o_blk_sz opt" and "0 \<le> file_size" and "o_blk_sz opt * o_ofst_end opt \<le> file_size"
  shows "io_blocks opt file_size * o_blk_sz opt \<le> file_size"
  using assms by (simp add: io_blocks_def mult.commute minus_mod_eq_mult_div [symmetric])

subsection \<open>The random patterns\<close>

lemma rand_advance_bounds:
  assumes "o_nr_files opt = int n" and "0 < n" and "n < 2 ^ 31" and "offsets_ok n os"
    and "\<forall>i < n. 0 \<le> ofst_min_list os ! i \<and> ofst_min_list os ! i \<le> ofst_max_list os ! i \<and>
           ofst_max_list os ! i \<le> 2 ^ 53 \<and> addr_room opt (ofst_max_list os ! i)"
  shows "\<exists>i v rand'. i < n \<and>
    rand_advance opt rand os = Inr (int i, v * o_blk_sz opt + o_misalign opt, rand',
      os\<lparr>ofst_list := (ofst_list os)[i := v]\<rparr>) \<and>
    ofst_min_list os ! i \<le> v \<and> v \<le> ofst_max_list os ! i \<and>
    (ofst_min_list os ! i < ofst_max_list os ! i \<and>
     ofst_max_list os ! i \<le> 16 * (ofst_max_list os ! i - ofst_min_list os ! i) \<longrightarrow>
     v < ofst_max_list os ! i)"
proof -
  obtain i where i: "i < n" "rand_file opt rand = Inr (int i, rand48_next rand)"
    using rand_file_ok [OF assms(1-3)] by blast
  let ?mn = "ofst_min_list os ! i"
  let ?mx = "ofst_max_list os ! i"
  have b: "0 \<le> ?mn" "?mn \<le> ?mx" "?mx \<le> 2 ^ 53" "addr_room opt ?mx" using assms(5) i(1) by auto
  obtain v rand' where v: "mb_rand_range_long (rand48_next rand) ?mn ?mx = Inr (v, rand')"
    "?mn \<le> v" "v \<le> ?mx" "?mn < ?mx \<and> ?mx \<le> 16 * (?mx - ?mn) \<longrightarrow> v < ?mx"
    using range_long_bounds [OF b(1-3)] by metis
  have "io_addr opt v = Inr (v * o_blk_sz opt + o_misalign opt)"
    using io_addr_ok [OF b(4)] v b(1) by simp
  then show ?thesis
    using i assms(4) v
    by (intro exI [of _ i] exI [of _ v] exI [of _ rand']) (simp add: rand_advance_def offsets_ok_def)
qed

text \<open>The side of the next request, and the blocks it may go to.\<close>

definition seekdist_side :: "micbench_io_option \<Rightarrow> io_offsets \<Rightarrow> nat \<Rightarrow> int \<times> int" where
  "seekdist_side opt os i =
     (if seekdist_side_list os ! i = 0
      then (ofst_max_list os ! i - o_seekdist_stride opt, ofst_max_list os ! i)
      else (ofst_min_list os ! i, ofst_min_list os ! i + o_seekdist_stride opt))"

lemma seekdist_advance_bounds:
  assumes "o_nr_files opt = int n" and "0 < n" and "n < 2 ^ 31" and "offsets_ok n os"
    and "\<forall>i < n. 0 \<le> ofst_min_list os ! i \<and>
           ofst_min_list os ! i + o_seekdist_stride opt \<le> ofst_max_list os ! i \<and>
           ofst_max_list os ! i \<le> 2 ^ 53 \<and> addr_room opt (ofst_max_list os ! i)"
    and "0 \<le> o_seekdist_stride opt" and "fi < n"
  defines "i \<equiv> Suc fi mod n"
  shows "\<exists>v rand'. seekdist_advance opt (int fi) rand os =
      Inr (int i, v * o_blk_sz opt + o_misalign opt, rand',
           os\<lparr>seekdist_side_list := (seekdist_side_list os)[i := seekdist_side_list os ! i XOR 1]\<rparr>) \<and>
    fst (seekdist_side opt os i) \<le> v \<and> v \<le> snd (seekdist_side opt os i)"
proof -
  have i: "i < n" using assms(2) by (simp add: i_def)
  let ?mn = "ofst_min_list os ! i"
  let ?mx = "ofst_max_list os ! i"
  let ?st = "o_seekdist_stride opt"
  have b: "0 \<le> ?mn" "?mn + ?st \<le> ?mx" "?mx \<le> 2 ^ 53" "addr_room opt ?mx" using assms(5) i by auto
  have long: "in_long (?mx - ?st)" "in_long (?mn + ?st)"
    using b assms(6) by (simp_all add: in_long_def)
  have fi: "next_file opt (int fi) = Inr (int i)"
    using next_file_ok [OF assms(1-3,7)] by (simp add: i_def)
  define r where "r = seekdist_side opt os i"
  have r: "0 \<le> fst r" "fst r \<le> snd r" "snd r \<le> ?mx"
    using b assms(6) by (auto simp: r_def seekdist_side_def)
  obtain v rand' where v: "mb_rand_range_long rand (fst r) (snd r) = Inr (v, rand')"
    "fst r \<le> v" "v \<le> snd r"
    using range_long_bounds [of "fst r" "snd r"] r b(3) by (meson order_trans)
  have "io_addr opt v = Inr (v * o_blk_sz opt + o_misalign opt)"
    using io_addr_ok [OF b(4)] v r by simp
  then have "seekdist_advance opt (int fi) rand os =
      Inr (int i, v * o_blk_sz opt + o_misalign opt, rand',
           os\<lparr>seekdist_side_list := (seekdist_side_list os)[i := seekdist_side_list os ! i XOR 1]\<rparr>)"
    using i assms(4) v(1) long
    by (simp add: seekdist_advance_def fi offsets_ok_def r_def seekdist_side_def split: if_splits)
  then show ?thesis using v by (auto simp: r_def)
qed

text \<open>Runs of the pattern: the requests as file and block.\<close>

primrec seekdist_run ::
  "micbench_io_option \<Rightarrow> nat \<Rightarrow> int \<Rightarrow> rand48 \<Rightarrow> io_offsets \<Rightarrow>
     ((int \<times> int) list \<times> int \<times> rand48 \<times> io_offsets) c_result" where
  "seekdist_run opt 0 fi rand os = Inr ([], fi, rand, os)"
| "seekdist_run opt (Suc k) fi rand os =
     bind_c (seekdist_run opt k fi rand os) (\<lambda>(reqs, fi1, rand1, os1).
     bind_c (seekdist_advance opt fi1 rand1 os1) (\<lambda>(fi2, addr, rand2, os2).
     Inr (reqs @ [(fi2, addr)], fi2, rand2, os2)))"

definition seekdist_room :: "micbench_io_option \<Rightarrow> nat \<Rightarrow> io_offsets \<Rightarrow> bool" where
  "seekdist_room opt n os \<longleftrightarrow>
     o_nr_files opt = int n \<and> 0 < n \<and> n < 2 ^ 31 \<and> offsets_ok n os \<and> 0 \<le> o_seekdist_stride opt \<and>
     (\<forall>i < n. seekdist_side_list os ! i = 0 \<and> 0 \<le> ofst_min_list os ! i \<and>
        ofst_min_list os ! i + o_seekdist_stride opt \<le> ofst_max_list os ! i \<and>
        ofst_max_list os ! i \<le> 2 ^ 53 \<and> addr_room opt (ofst_max_list os ! i))"

text \<open>The blocks a file may be asked for on its odd and its even visits.\<close>

definition seekdist_range :: "micbench_io_option \<Rightarrow> io_offsets \<Rightarrow> nat \<Rightarrow> nat \<Rightarrow> int \<times> int" where
  "seekdist_range opt os i visit =
     (if odd visit then (ofst_max_list os ! i - o_seekdist_stride opt, ofst_max_list os ! i)
      else (ofst_min_list os ! i, ofst_min_list os ! i + o_seekdist_stride opt))"

definition seekdist_request ::
  "micbench_io_option \<Rightarrow> nat \<Rightarrow> io_offsets \<Rightarrow> nat \<Rightarrow> int \<times> int \<Rightarrow> bool" where
  "seekdist_request opt n os t req \<longleftrightarrow>
     fst req = int (t mod n) \<and>
     (\<exists>v. snd req = v * o_blk_sz opt + o_misalign opt \<and>
        fst (seekdist_range opt os (t mod n) (visits n (t mod n) t)) \<le> v \<and>
        v \<le> snd (seekdist_range opt os (t mod n) (visits n (t mod n) t)))"

definition seekdist_offsets :: "nat \<Rightarrow> io_offsets \<Rightarrow> nat \<Rightarrow> io_offsets" where
  "seekdist_offsets n os t =
     os\<lparr>seekdist_side_list := map (\<lambda>i. int (visits n i t mod 2)) [0..<n]\<rparr>"

lemma xor_bit: "(int (k mod 2)) XOR 1 = int (Suc k mod 2)"
  by (cases "even k") (auto simp: odd_iff_mod_2_eq_one mod_Suc even_iff_mod_2_eq_zero)

lemma seekdist_offsets_step:
  assumes "i < n" and "i = Suc t mod n"
  shows "(seekdist_offsets n os t)
      \<lparr>seekdist_side_list := (seekdist_side_list (seekdist_offsets n os t))
         [i := seekdist_side_list (seekdist_offsets n os t) ! i XOR 1]\<rparr> =
    seekdist_offsets n os (Suc t)"
proof -
  have "(map (\<lambda>i. int (visits n i t mod 2)) [0..<n])[i := int (visits n i t mod 2) XOR 1] =
      map (\<lambda>i. int (visits n i (Suc t) mod 2)) [0..<n]"
    using assms by (intro nth_equalityI)
      (auto simp: nth_list_update visits_Suc xor_bit simp del: of_nat_mod)
  then show ?thesis using assms(1) by (simp add: seekdist_offsets_def del: of_nat_mod)
qed

lemma seekdist_step:
  assumes "seekdist_room opt n os"
  shows "\<exists>addr rand'. seekdist_advance opt (int (t mod n)) rand (seekdist_offsets n os t) =
      Inr (int (Suc t mod n), addr, rand', seekdist_offsets n os (Suc t)) \<and>
    seekdist_request opt n os (Suc t) (int (Suc t mod n), addr)"
proof -
  define i where "i = Suc (t mod n) mod n"
  have n: "0 < n" using assms by (simp add: seekdist_room_def)
  have i: "i < n" "i = Suc t mod n" using n by (simp_all add: i_def mod_Suc_eq)
  obtain v rand' where v: "seekdist_advance opt (int (t mod n)) rand (seekdist_offsets n os t) =
      Inr (int i, v * o_blk_sz opt + o_misalign opt, rand',
        (seekdist_offsets n os t)
          \<lparr>seekdist_side_list := (seekdist_side_list (seekdist_offsets n os t))
             [i := seekdist_side_list (seekdist_offsets n os t) ! i XOR 1]\<rparr>)"
    "fst (seekdist_side opt (seekdist_offsets n os t) i) \<le> v"
    "v \<le> snd (seekdist_side opt (seekdist_offsets n os t) i)"
    using seekdist_advance_bounds [of opt n "seekdist_offsets n os t" "t mod n" rand] assms n
    unfolding i_def by (auto simp: seekdist_room_def seekdist_offsets_def offsets_ok_def)
  have side: "seekdist_side opt (seekdist_offsets n os t) i =
      seekdist_range opt os i (visits n i (Suc t))"
    using i by (auto simp: seekdist_side_def seekdist_range_def seekdist_offsets_def visits_Suc
        mod_2_eq_odd split: if_splits)
  have "seekdist_request opt n os (Suc t) (int (Suc t mod n), v * o_blk_sz opt + o_misalign opt)"
    using v(2,3) side i(2) by (auto simp: seekdist_request_def)
  then show ?thesis
    using v(1) seekdist_offsets_step [OF i, of os] i(2) by auto
qed

lemma seekdist_run_spec:
  assumes "seekdist_room opt n os"
  shows "\<exists>reqs rand'. seekdist_run opt k 0 rand os =
      Inr (reqs, int (k mod n), rand', seekdist_offsets n os k) \<and>
    length reqs = k \<and> (\<forall>t < k. seekdist_request opt n os (Suc t) (reqs ! t))"
proof (induction k)
  case 0
  have "map (\<lambda>i. int (visits n i 0 mod 2)) [0..<n] = seekdist_side_list os"
    using assms by (intro nth_equalityI) (auto simp: seekdist_room_def offsets_ok_def visits_0)
  then show ?case by (simp add: seekdist_offsets_def)
next
  case (Suc k)
  then obtain reqs rand1 where ih: "seekdist_run opt k 0 rand os =
      Inr (reqs, int (k mod n), rand1, seekdist_offsets n os k)" "length reqs = k"
    "\<forall>t < k. seekdist_request opt n os (Suc t) (reqs ! t)" by blast
  obtain addr rand2 where st:
    "seekdist_advance opt (int (k mod n)) rand1 (seekdist_offsets n os k) =
      Inr (int (Suc k mod n), addr, rand2, seekdist_offsets n os (Suc k))"
    "seekdist_request opt n os (Suc k) (int (Suc k mod n), addr)"
    using seekdist_step [OF assms, of k rand1] by blast
  have "seekdist_run opt (Suc k) 0 rand os = Inr (reqs @ [(int (Suc k mod n), addr)],
      int (Suc k mod n), rand2, seekdist_offsets n os (Suc k))"
    using ih(1) st(1) by simp
  moreover have "\<forall>t < Suc k. seekdist_request opt n os (Suc t)
      ((reqs @ [(int (Suc k mod n), addr)]) ! t)"
    using ih(2,3) st(2) by (auto simp: nth_append less_Suc_eq)
  ultimately show ?case using ih(2) by (metis length_append_singleton)
qed

subsection \<open>Read or write in the mixed mode\<close>

text \<open>The generator runs through all its states: one step is a permutation.\<close>

lemma rand48_next_inverse: "0xDFE05BCB1365 * (rand48_next x - 0xB) = x"
proof -
  have inv: "(0xDFE05BCB1365 :: 48 word) * 0x5DEECE66D = 1" by simp
  have "(0xDFE05BCB1365 :: 48 word) * (0x5DEECE66D * x) = x"
    by (simp only: mult.assoc [symmetric] inv mult_1)
  then show ?thesis by (simp only: rand48_next_def add_diff_cancel_right')
qed

lemma bij_rand48_next: "bij rand48_next"
proof -
  have "inj rand48_next" by (rule inj_on_inverseI) (rule rand48_next_inverse)
  then show ?thesis by (simp add: bij_def finite_UNIV_inj_surj)
qed

lemma card_word_le:
  assumes "m < 2 ^ 48"
  shows "card {x :: rand48. unat x \<le> m} = Suc m"
proof -
  have "{x :: rand48. unat x \<le> m} = word_of_nat ` {0..m}"
  proof (intro set_eqI iffI)
    fix x :: rand48 assume "x \<in> {x. unat x \<le> m}"
    then show "x \<in> word_of_nat ` {0..m}" by (intro image_eqI [of _ _ "unat x"]) simp_all
  next
    fix x :: rand48 assume "x \<in> word_of_nat ` {0..m}"
    then show "x \<in> {x. unat x \<le> m}"
      using assms by (auto simp: unsigned_of_nat take_bit_nat_eq_self)
  qed
  moreover have "inj_on (word_of_nat :: nat \<Rightarrow> rand48) {0..m}"
    using assms by (intro inj_on_inverseI [of _ unat])
      (simp add: unsigned_of_nat take_bit_nat_eq_self)
  ultimately show ?thesis by (simp add: card_image)
qed

lemma card_rand48_le:
  assumes "m < 2 ^ 48"
  shows "card {x. unat (rand48_next x) \<le> m} = Suc m"
proof -
  have "{x. unat (rand48_next x) \<le> m} = rand48_next -` {x. unat x \<le> m}" by auto
  then show ?thesis
    using card_vimage_inj [OF bij_is_inj [OF bij_rand48_next], of "{x. unat x \<le> m}"]
      bij_is_surj [OF bij_rand48_next] card_word_le [OF assms] by simp
qed

lemma mix_write:
  assumes "\<not> o_read opt" and "\<not> o_write opt" and "o_rwmix opt = Fin q"
  shows "fst (mb_read_or_write opt g) = MB_DO_WRITE \<longleftrightarrow> of_nat (unat (rand48_next g)) \<le> q * 2 ^ 48"
  using assms
  by (auto simp: mb_read_or_write_def drand48_r_def Let_def not_less pos_divide_le_eq)

lemma mix_write_count:
  assumes "\<not> o_read opt" and "\<not> o_write opt" and "o_rwmix opt = Fin q" and "0 \<le> q" and "q \<le> 1"
  shows "card {g. fst (mb_read_or_write opt g) = MB_DO_WRITE} = min (2 ^ 48) (Suc (nat \<lfloor>q * 2 ^ 48\<rfloor>))"
proof (cases "q = 1")
  case True
  have "of_nat (unat (rand48_next g)) \<le> (2 :: rat) ^ 48" for g
  proof -
    have "unat (rand48_next g) \<le> 2 ^ 48"
      using unsigned_less [of "rand48_next g", where ?'a = nat] by simp
    then have "of_nat (unat (rand48_next g)) \<le> (of_nat (2 ^ 48) :: rat)" by (rule of_nat_mono)
    then show ?thesis by simp
  qed
  then have "{g. fst (mb_read_or_write opt g) = MB_DO_WRITE} = (UNIV :: rand48 set)"
    using mix_write [OF assms(1-3)] True by auto
  then show ?thesis using True by (simp add: card_word)
next
  case False
  define m where "m = nat \<lfloor>q * 2 ^ 48\<rfloor>"
  have "\<lfloor>q * 2 ^ 48\<rfloor> < 2 ^ 48" using False assms(5) by (simp add: floor_less_iff)
  moreover have "0 \<le> \<lfloor>q * 2 ^ 48\<rfloor>" using assms(4) by simp
  ultimately have m: "m < 2 ^ 48" by (simp add: m_def nat_less_iff)
  have "of_nat k \<le> q * 2 ^ 48 \<longleftrightarrow> k \<le> m" for k :: nat
  proof -
    have "of_nat k \<le> q * 2 ^ 48 \<longleftrightarrow> int k \<le> \<lfloor>q * 2 ^ 48\<rfloor>" by (simp add: le_floor_iff)
    then show ?thesis using assms(4) by (simp add: m_def le_nat_iff)
  qed
  then have "{g. fst (mb_read_or_write opt g) = MB_DO_WRITE} = {g. unat (rand48_next g) \<le> m}"
    by (simp only: mix_write [OF assms(1-3)])
  then have "card {g. fst (mb_read_or_write opt g) = MB_DO_WRITE} = Suc m"
    using card_rand48_le [OF m] by simp
  moreover have "min (2 ^ 48) (Suc m) = Suc m" using m by simp
  ultimately show ?thesis unfolding m_def by (simp only:)
qed

subsection \<open>Requests of a ready option record\<close>

text \<open>What a thread of the sequential pattern starts from.\<close>

lemma io_seq_start_room:
  assumes "o_pattern opt = PATTERN_SEQ" and "0 \<le> thread_id" and "thread_id < o_multi opt"
    and "o_nr_files opt = int (length sizes)" and "sizes \<noteq> []" and "length sizes < 2 ^ 31"
    and "\<forall>size \<in> set sizes. io_share_room opt size \<and> addr_room opt (io_blocks opt size)"
  shows "\<exists>os. io_init_offsets sync opt thread_id sizes = Inr os \<and> seq_room opt (length sizes) os \<and>
    (\<forall>i < length sizes. ofst_list os ! i = io_seq_share opt thread_id (io_blocks opt (sizes ! i)) \<and>
       ofst_min_list os ! i = io_ofst_min opt \<and> ofst_max_list os ! i = io_blocks opt (sizes ! i))"
proof -
  have blk: "0 < o_blk_sz opt" using assms(5,7) by (cases sizes) (auto simp: addr_room_def)
  have room: "\<forall>size \<in> set sizes. io_share_room opt size" using assms(7) by simp
  have each: "0 \<le> io_ofst_min opt \<and>
      io_ofst_min opt \<le> io_seq_share opt thread_id (io_blocks opt (sizes ! i)) \<and>
      io_seq_share opt thread_id (io_blocks opt (sizes ! i)) < io_blocks opt (sizes ! i) \<and>
      addr_room opt (io_blocks opt (sizes ! i))" if "i < length sizes" for i
    using that assms(7) io_seq_share_bounds [OF assms(2,3)] io_ofst_min_nonneg nth_mem [OF that]
    by (auto simp: io_share_room_def)
  show ?thesis
    unfolding io_init_offsets_seq [OF assms(1-3) blk room]
    using assms(4-6) each by (auto simp: seq_room_def offsets_ok_def)
qed

lemma seq_requests_inside:
  assumes "seq_room opt n os" and "o_misalign opt = 0" and "(i, addr) \<in> set reqs"
    and "seq_run opt k 0 os = Inr (reqs, fi, os')"
    and "\<forall>j < n. ofst_max_list os ! j * o_blk_sz opt \<le> sizes ! j"
  shows "0 \<le> i \<and> i < int n \<and> 0 \<le> addr \<and> addr + o_blk_sz opt \<le> sizes ! nat i"
proof -
  obtain t where t: "i = int (t mod n)" "addr = seq_ofst n os (t mod n) t * o_blk_sz opt"
    using assms(2-4) seq_run_spec [OF assms(1), of k] by (auto simp: seq_request_def)
  let ?j = "t mod n"
  have n: "?j < n" using assms(1) by (simp add: seq_room_def)
  have b: "0 \<le> ofst_min_list os ! ?j" "ofst_min_list os ! ?j < ofst_max_list os ! ?j"
    "0 < o_blk_sz opt"
    using assms(1) n by (auto simp: seq_room_def addr_room_def)
  have r: "0 \<le> seq_ofst n os ?j t" "seq_ofst n os ?j t + 1 \<le> ofst_max_list os ! ?j"
    using seq_ofst_range [OF n b(2), of t] b(1) by simp_all
  have "(seq_ofst n os ?j t + 1) * o_blk_sz opt \<le> ofst_max_list os ! ?j * o_blk_sz opt"
    using r b(3) by (intro mult_right_mono) simp_all
  then show ?thesis
    using t n r b(3) assms(5) [rule_format, OF n] by (simp add: algebra_simps)
qed

lemma io_ready_sizes:
  assumes "io_ready env opt" and "o_file_size_list opt = Some sizes"
  shows "o_nr_files opt = int (length sizes)" and "sizes \<noteq> []"
    and "\<forall>size \<in> set sizes. o_blk_sz opt * o_ofst_end opt \<le> size"
  using assms by (auto simp: io_ready_def io_files_ok_def)

lemma io_share_addr_room:
  assumes "0 < o_blk_sz opt" and "o_misalign opt = 0" and "io_share_room opt fsz"
    and "o_blk_sz opt * o_ofst_end opt \<le> fsz"
  shows "addr_room opt (io_blocks opt fsz)"
  using assms io_blocks_inside [OF assms(1) _ assms(4)] by (auto simp: addr_room_def io_share_room_def)

lemma seq_ready_inside:
  assumes "io_ready env opt" and "o_file_size_list opt = Some sizes" and "length sizes < 2 ^ 31"
    and "o_pattern opt = PATTERN_SEQ" and "0 \<le> thread_id" and "thread_id < o_multi opt"
    and "0 < o_blk_sz opt" and "o_misalign opt = 0" and "\<forall>size \<in> set sizes. io_share_room opt size"
  shows "\<exists>os. io_init_offsets sync opt thread_id sizes = Inr os \<and> seq_room opt (length sizes) os \<and>
    (\<forall>j < length sizes. ofst_max_list os ! j * o_blk_sz opt \<le> sizes ! j)"
proof -
  have size: "io_share_room opt size \<and> addr_room opt (io_blocks opt size) \<and>
      io_blocks opt size * o_blk_sz opt \<le> size" if "size \<in> set sizes" for size
    using that assms(7-9) io_ready_sizes(3) [OF assms(1,2)] io_share_addr_room io_blocks_inside
    by (auto simp: io_share_room_def)
  then have "\<forall>size \<in> set sizes. io_share_room opt size \<and> addr_room opt (io_blocks opt size)"
    by blast
  from io_seq_start_room [OF assms(4-6) io_ready_sizes(1,2) [OF assms(1,2)] assms(3) this, of sync]
  show ?thesis using size by auto
qed

text \<open>Every block of the range is requested again and again, the last one too.\<close>

lemma visits_reached:
  assumes "j < n" and "0 < v"
  shows "\<exists>t. 0 < t \<and> t mod n = j \<and> visits n j t = v"
proof (cases "j = 0")
  case True
  then show ?thesis using assms by (intro exI [of _ "v * n"]) (simp add: visits_def)
next
  case False
  obtain u where u: "v = Suc u" using assms(2) by (cases v) simp_all
  have "j + (v - 1) * n + n - j = v * n" using u by simp
  then have "(j + (v - 1) * n + n - j) div n = v" using assms(1) by simp
  then show ?thesis using False assms by (intro exI [of _ "j + (v - 1) * n"]) (simp add: visits_def)
qed

lemma seq_last_block:
  assumes "seq_room opt n os" and "j < n"
  shows "\<exists>t. 0 < t \<and> seq_request opt n os t =
    (int j, (ofst_max_list os ! j - 1) * o_blk_sz opt + o_misalign opt)"
proof -
  define mn mx a where "mn = ofst_min_list os ! j" and "mx = ofst_max_list os ! j"
    and "a = ofst_list os ! j - ofst_min_list os ! j"
  have b: "0 \<le> a" "a < mx - mn" using assms by (auto simp: seq_room_def mn_def mx_def a_def)
  define v where "v = nat (2 * (mx - mn) - 1 - a)"
  have v: "0 < v" "int v = 2 * (mx - mn) - 1 - a" using b by (simp_all add: v_def)
  obtain t where t: "0 < t" "t mod n = j" "visits n j t = v" using visits_reached [OF assms(2) v(1)] by blast
  have "a + int v = mx - mn - 1 + (mx - mn)" using v(2) by simp
  then have "(a + int v) mod (mx - mn) = (mx - mn - 1 + (mx - mn)) mod (mx - mn)" by (simp only:)
  also have "\<dots> = (mx - mn - 1) mod (mx - mn)" by (rule mod_add_self2)
  also have "\<dots> = mx - mn - 1" using b by (intro mod_pos_pos_trivial) simp_all
  finally have "seq_ofst n os j t = mx - 1" using t(3) by (simp add: seq_ofst_def Let_def mn_def mx_def a_def)
  then show ?thesis using t by (auto simp: seq_request_def mx_def)
qed

lemma seq_requests_bound:
  assumes "seq_room opt n os" and "0 < t"
  shows "\<exists>j v. seq_request opt n os t = (int j, v * o_blk_sz opt + o_misalign opt) \<and> j < n \<and>
    0 \<le> v \<and> v < ofst_max_list os ! j"
proof -
  let ?j = "t mod n"
  have j: "?j < n" using assms(1) by (simp add: seq_room_def)
  moreover have "0 \<le> ofst_min_list os ! ?j" "ofst_min_list os ! ?j < ofst_max_list os ! ?j"
    using assms(1) j by (auto simp: seq_room_def)
  ultimately show ?thesis using seq_ofst_range [OF j, of os t] unfolding seq_request_def by auto
qed

text \<open>All requests lie in their files exactly if the last block of each, moved by the misalignment, does.\<close>

definition requests_inside :: "micbench_io_option \<Rightarrow> int list \<Rightarrow> (int \<times> int) list \<Rightarrow> bool" where
  "requests_inside opt sizes reqs \<longleftrightarrow>
     (\<forall>(i, addr) \<in> set reqs. 0 \<le> i \<and> i < int (length sizes) \<and> 0 \<le> addr \<and>
        addr + o_blk_sz opt \<le> sizes ! nat i)"

lemma seq_inside_iff:
  assumes "seq_room opt (length sizes) os"
  shows "(\<forall>k. requests_inside opt sizes (map (seq_request opt (length sizes) os) [1..<Suc k])) \<longleftrightarrow>
    (\<forall>j < length sizes. ofst_max_list os ! j * o_blk_sz opt + o_misalign opt \<le> sizes ! j)"
proof
  assume in_file: "\<forall>k. requests_inside opt sizes (map (seq_request opt (length sizes) os) [1..<Suc k])"
  show "\<forall>j < length sizes. ofst_max_list os ! j * o_blk_sz opt + o_misalign opt \<le> sizes ! j"
  proof (intro allI impI)
    fix j assume j: "j < length sizes"
    obtain t where t: "0 < t" "seq_request opt (length sizes) os t =
        (int j, (ofst_max_list os ! j - 1) * o_blk_sz opt + o_misalign opt)"
      using seq_last_block [OF assms j] by blast
    have "seq_request opt (length sizes) os t \<in> set (map (seq_request opt (length sizes) os) [1..<Suc t])"
      using t(1) by simp
    then have "(ofst_max_list os ! j - 1) * o_blk_sz opt + o_misalign opt + o_blk_sz opt \<le> sizes ! j"
      using in_file [rule_format, of t] t(2) unfolding requests_inside_def by fastforce
    then show "ofst_max_list os ! j * o_blk_sz opt + o_misalign opt \<le> sizes ! j" by (simp add: algebra_simps)
  qed
next
  assume room: "\<forall>j < length sizes. ofst_max_list os ! j * o_blk_sz opt + o_misalign opt \<le> sizes ! j"
  have blk: "0 < o_blk_sz opt" "0 \<le> o_misalign opt" using assms by (auto simp: seq_room_def addr_room_def)
  have "0 \<le> i \<and> i < int (length sizes) \<and> 0 \<le> addr \<and> addr + o_blk_sz opt \<le> sizes ! nat i"
    if req: "seq_request opt (length sizes) os t = (i, addr)" and pos: "0 < t" for t i addr
  proof -
    obtain j v where r: "i = int j" "addr = v * o_blk_sz opt + o_misalign opt" "j < length sizes"
      "0 \<le> v" "v < ofst_max_list os ! j" using seq_requests_bound [OF assms pos] req by auto
    have "(v + 1) * o_blk_sz opt \<le> ofst_max_list os ! j * o_blk_sz opt"
      using r(5) blk(1) by (intro mult_right_mono) simp_all
    then show ?thesis using r blk room [rule_format, OF r(3)] by (simp add: algebra_simps)
  qed
  then show "\<forall>k. requests_inside opt sizes (map (seq_request opt (length sizes) os) [1..<Suc k])"
    by (auto simp: requests_inside_def simp del: upt_Suc)
qed

subsection \<open>Properties\<close>

text \<open>
  C4: With the sequential pattern the offsets of every thread are set up without overflow, and
  the \<open>k\<close> requests a thread then makes are the ones of the reference definition: request \<open>t\<close>
  goes to file \<open>t mod n\<close>, and the requests to one file walk through its blocks in order from
  the share of the thread and wrap around from the last block to the first.
\<close>

theorem seq_pattern_reference:
  assumes "o_pattern opt = PATTERN_SEQ" and "0 \<le> thread_id" and "thread_id < o_multi opt"
    and "o_nr_files opt = int (length sizes)" and "sizes \<noteq> []" and "length sizes < 2 ^ 31"
    and "\<forall>size \<in> set sizes. io_share_room opt size \<and> addr_room opt (io_blocks opt size)"
  shows "\<exists>os. io_init_offsets sync opt thread_id sizes = Inr os \<and>
    (\<forall>i < length sizes. ofst_list os ! i = io_seq_share opt thread_id (io_blocks opt (sizes ! i)) \<and>
       ofst_min_list os ! i = io_ofst_min opt \<and> ofst_max_list os ! i = io_blocks opt (sizes ! i)) \<and>
    (\<forall>k. seq_run opt k 0 os =
       Inr (map (seq_request opt (length sizes) os) [1..<Suc k], int (k mod length sizes),
            seq_offsets (length sizes) os k))"
  using io_seq_start_room [OF assms] seq_run_spec by blast

definition demo_seq :: micbench_io_option where
  "demo_seq = demo_option\<lparr>o_multi := 2, o_pattern := PATTERN_SEQ, o_aio := False\<rparr>"

lemma demo_seq_sel [simp]:
  "o_multi demo_seq = 2" "o_pattern demo_seq = PATTERN_SEQ" "o_blk_sz demo_seq = 512"
  "o_nr_files demo_seq = 1" "o_ofst_start demo_seq = 0" "o_ofst_end demo_seq = 128"
  "o_misalign demo_seq = 0" "o_file_size_list demo_seq = Some [65536]"
  by (simp_all add: demo_seq_def demo_option_def)

lemma demo_seq_ready: "io_ready demo_env demo_seq"
  by (simp add: io_ready_def demo_seq_def demo_option_def demo_env_def io_files_ok_def
      mb_getsize_def crem_def cdiv_def io_open_mode_def)

theorem seq_pattern_reference_witness:
  "\<exists>os. io_init_offsets True demo_seq 1 [65536] = Inr os \<and> ofst_list os = [64] \<and>
    seq_run demo_seq 2 0 os = Inr ([(0, 65 * 512), (0, 66 * 512)], 0, seq_offsets 1 os 2)"
proof -
  let ?os = "\<lparr>ofst_list = [64], ofst_min_list = [0], ofst_max_list = [128],
    seekdist_side_list = [0 :: int]\<rparr>"
  have os: "io_init_offsets True demo_seq 1 [65536] = Inr ?os"
    by (simp add: io_ofst_min_def io_ofst_max_def io_first_ofst_def io_seq_start_def long_div_def
        cdiv_def in_long_def)
  have "seq_run demo_seq 2 0 ?os =
      Inr (map (seq_request demo_seq 1 ?os) [1..<Suc 2], int (2 mod 1), seq_offsets 1 ?os 2)"
    using seq_pattern_reference [of demo_seq 1 "[65536]" True] os
    by (auto simp: io_share_room_def addr_room_def io_blocks_def io_ofst_min_def
        simp del: seq_run.simps upt_Suc)
  then have "seq_run demo_seq 2 0 ?os = Inr ([(0, 65 * 512), (0, 66 * 512)], 0, seq_offsets 1 ?os 2)"
    by (simp add: seq_request_def seq_ofst_def visits_def upt_rec del: seq_run.simps)
  with os show ?thesis by (intro exI [of _ ?os]) simp
qed

text \<open>
  C5: When do sequential requests stay in their files? On options that \<open>parse_args\<close> accepted,
  for a range that is not empty and addresses that fit 63 bits, the requests of a thread are
  made without overflow, and all of them, however many it makes, lie inside their files if and only
  if the range of each file plus the misalignment ends in the file. Without misalignment this is so.
\<close>

theorem seq_requests_in_file:
  assumes "io_ready env opt" and "o_file_size_list opt = Some sizes" and "length sizes < 2 ^ 31"
    and "o_pattern opt = PATTERN_SEQ" and "0 \<le> thread_id" and "thread_id < o_multi opt"
    and "\<forall>size \<in> set sizes. io_share_room opt size \<and> addr_room opt (io_blocks opt size)"
  shows "\<exists>os reqs. io_init_offsets sync opt thread_id sizes = Inr os \<and>
    (\<forall>k. \<exists>fi os'. seq_run opt k 0 os = Inr (reqs k, fi, os') \<and> length (reqs k) = k) \<and>
    ((\<forall>k. requests_inside opt sizes (reqs k)) \<longleftrightarrow>
       (\<forall>size \<in> set sizes. io_blocks opt size * o_blk_sz opt + o_misalign opt \<le> size)) \<and>
    (o_misalign opt = 0 \<longrightarrow> (\<forall>k. requests_inside opt sizes (reqs k)))"
proof -
  note n = io_ready_sizes [OF assms(1,2)]
  obtain os where os: "io_init_offsets sync opt thread_id sizes = Inr os"
    "seq_room opt (length sizes) os"
    "\<forall>i < length sizes. ofst_max_list os ! i = io_blocks opt (sizes ! i)"
    using io_seq_start_room [OF assms(4-6) n(1,2) assms(3,7), of sync] by blast
  let ?reqs = "\<lambda>k. map (seq_request opt (length sizes) os) [1..<Suc k]"
  have run: "\<forall>k. \<exists>fi os'. seq_run opt k 0 os = Inr (?reqs k, fi, os') \<and> length (?reqs k) = k"
    using seq_run_spec [OF os(2)] by simp
  have all: "(\<forall>k. requests_inside opt sizes (?reqs k)) \<longleftrightarrow>
      (\<forall>size \<in> set sizes. io_blocks opt size * o_blk_sz opt + o_misalign opt \<le> size)"
    unfolding seq_inside_iff [OF os(2)] using os(3) by (simp add: all_set_conv_all_nth)
  have "io_blocks opt size * o_blk_sz opt \<le> size" if "size \<in> set sizes" for size
    using io_blocks_inside [of opt size] assms(7) that n(3) by (simp add: io_share_room_def addr_room_def)
  then have zero: "o_misalign opt = 0 \<longrightarrow> (\<forall>k. requests_inside opt sizes (?reqs k))"
    unfolding all by simp
  show ?thesis by (intro exI [of _ os] exI [of _ ?reqs] conjI os(1) run all zero)
qed

theorem seq_requests_in_file_witness:
  "\<exists>os reqs. io_init_offsets False demo_seq 1 [65536] = Inr os \<and>
    (\<exists>fi os'. seq_run demo_seq 1000 0 os = Inr (reqs, fi, os')) \<and> length reqs = 1000 \<and>
    requests_inside demo_seq [65536] reqs"
proof -
  obtain os reqs where os: "io_init_offsets False demo_seq 1 [65536] = Inr os"
    "\<forall>k. \<exists>fi os'. seq_run demo_seq k 0 os = Inr (reqs k, fi, os') \<and> length (reqs k) = k"
    "\<forall>k. requests_inside demo_seq [65536] (reqs k)"
    using seq_requests_in_file [OF demo_seq_ready, of "[65536]" 1 False]
    by (auto simp: io_share_room_def addr_room_def io_blocks_def io_ofst_min_def)
  then show ?thesis by blast
qed

text \<open>
  Two things \<open>parse_args\<close> accepts leave the file: a misalignment of one sector sends some request of
  the thread beyond the end, and a start behind the last block, which makes the range empty,
  sends the first request there.
\<close>

theorem seq_misaligned_leaves_file:
  "io_ready demo_env (demo_seq\<lparr>o_misalign := 512\<rparr>) \<and>
   (\<exists>os k reqs fi os'. io_init_offsets True (demo_seq\<lparr>o_misalign := 512\<rparr>) 0 [65536] = Inr os \<and>
      seq_run (demo_seq\<lparr>o_misalign := 512\<rparr>) k 0 os = Inr (reqs, fi, os') \<and>
      \<not> requests_inside (demo_seq\<lparr>o_misalign := 512\<rparr>) [65536] reqs)"
proof -
  let ?opt = "demo_seq\<lparr>o_misalign := 512\<rparr>"
  let ?os = "\<lparr>ofst_list = [0], ofst_min_list = [0], ofst_max_list = [128],
    seekdist_side_list = [0 :: int]\<rparr>"
  have ready: "io_ready demo_env ?opt"
    by (simp add: io_ready_def demo_seq_def demo_option_def demo_env_def io_files_ok_def
        mb_getsize_def crem_def cdiv_def io_open_mode_def)
  have os: "io_init_offsets True ?opt 0 [65536] = Inr ?os"
    by (simp add: io_ofst_min_def io_ofst_max_def io_first_ofst_def io_seq_start_def long_div_def
        cdiv_def in_long_def)
  have room: "seq_room ?opt (length [65536 :: int]) ?os"
    by (simp add: seq_room_def addr_room_def offsets_ok_def)
  have "\<not> (\<forall>k. requests_inside ?opt [65536] (map (seq_request ?opt (length [65536 :: int]) ?os) [1..<Suc k]))"
    unfolding seq_inside_iff [OF room] by simp
  then show ?thesis using ready os seq_run_spec [OF room] by blast
qed

theorem seq_start_at_end:
  "io_ready demo_env (demo_seq\<lparr>o_ofst_start := 128, o_ofst_end := -1\<rparr>) \<and>
   (\<exists>os fi os'. io_init_offsets True (demo_seq\<lparr>o_ofst_start := 128, o_ofst_end := -1\<rparr>) 0 [65536] = Inr os \<and>
      seq_run (demo_seq\<lparr>o_ofst_start := 128, o_ofst_end := -1\<rparr>) 1 0 os = Inr ([(0, 65536)], fi, os'))"
proof -
  let ?opt = "demo_seq\<lparr>o_ofst_start := 128, o_ofst_end := -1\<rparr>"
  let ?os = "\<lparr>ofst_list = [128], ofst_min_list = [128], ofst_max_list = [128],
    seekdist_side_list = [0 :: int]\<rparr>"
  have ready: "io_ready demo_env ?opt"
    by (simp add: io_ready_def demo_seq_def demo_option_def demo_env_def io_files_ok_def
        mb_getsize_def crem_def cdiv_def io_open_mode_def)
  have os: "io_init_offsets True ?opt 0 [65536] = Inr ?os"
    by (simp add: io_ofst_min_def io_ofst_max_def io_first_ofst_def io_seq_start_def long_div_def
        cdiv_def in_long_def)
  have "\<exists>fi os'. seq_run ?opt 1 0 ?os = Inr ([(0, 65536)], fi, os')"
    by (simp add: seq_advance_def io_addr_def next_file_def file_slot_def crem_def cdiv_def in_int_def
        in_long_def long_val_def)
  then show ?thesis using ready os by blast
qed

text \<open>
  C36: With the random pattern one step goes to one of the files and to a block between the
  smallest and the largest offset of that file, for any state of the generator; the largest
  one, which lies behind the range, is excluded when the range is wide enough.
\<close>

theorem rand_pattern_bounds:
  assumes "o_nr_files opt = int n" and "0 < n" and "n < 2 ^ 31" and "offsets_ok n os"
    and "\<forall>i < n. 0 \<le> ofst_min_list os ! i \<and> ofst_min_list os ! i \<le> ofst_max_list os ! i \<and>
           ofst_max_list os ! i \<le> 2 ^ 53 \<and> addr_room opt (ofst_max_list os ! i)"
  shows "\<exists>i v rand'. i < n \<and>
    rand_advance opt rand os = Inr (int i, v * o_blk_sz opt + o_misalign opt, rand',
      os\<lparr>ofst_list := (ofst_list os)[i := v]\<rparr>) \<and>
    ofst_min_list os ! i \<le> v \<and> v \<le> ofst_max_list os ! i \<and>
    (ofst_min_list os ! i < ofst_max_list os ! i \<and>
     ofst_max_list os ! i \<le> 16 * (ofst_max_list os ! i - ofst_min_list os ! i) \<longrightarrow>
     v < ofst_max_list os ! i)"
  using assms by (rule rand_advance_bounds)

theorem rand_pattern_bounds_witness:
  "\<exists>i v rand'. i < (1 :: nat) \<and>
    rand_advance demo_seq 0 \<lparr>ofst_list = [0], ofst_min_list = [0], ofst_max_list = [128],
      seekdist_side_list = [0]\<rparr> = Inr (int i, v * 512, rand',
      \<lparr>ofst_list = [v], ofst_min_list = [0], ofst_max_list = [128], seekdist_side_list = [0]\<rparr>) \<and>
    0 \<le> v \<and> v < 128"
  using rand_pattern_bounds [of demo_seq 1 "\<lparr>ofst_list = [0], ofst_min_list = [0],
    ofst_max_list = [128], seekdist_side_list = [0]\<rparr>" 0]
  by (auto simp: offsets_ok_def addr_room_def)

text \<open>
  With the seek-distance pattern the requests go round the files, and the requests to one
  file alternate: on its odd visits a block among the last \<open>seekdist_stride\<close> ones of the range,
  on its even visits one among the first, for any state of the generator.
\<close>

theorem seekdist_pattern_alternates:
  assumes "seekdist_room opt n os"
  shows "\<exists>reqs rand'. seekdist_run opt k 0 rand os =
      Inr (reqs, int (k mod n), rand', seekdist_offsets n os k) \<and>
    length reqs = k \<and> (\<forall>t < k. seekdist_request opt n os (Suc t) (reqs ! t))"
  using assms by (rule seekdist_run_spec)

definition demo_seekdist :: micbench_io_option where
  "demo_seekdist = demo_option\<lparr>o_pattern := PATTERN_SEEKDIST, o_seekdist_stride := 16\<rparr>"

theorem seekdist_pattern_alternates_witness:
  "\<exists>reqs rand'. seekdist_run demo_seekdist 2 0 7 \<lparr>ofst_list = [112], ofst_min_list = [0],
      ofst_max_list = [128], seekdist_side_list = [0]\<rparr> =
      Inr (reqs, 0, rand', \<lparr>ofst_list = [112], ofst_min_list = [0], ofst_max_list = [128],
        seekdist_side_list = [0]\<rparr>) \<and>
    (\<exists>v1 v2. reqs = [(0, v1 * 512), (0, v2 * 512)] \<and> 112 \<le> v1 \<and> v1 \<le> 128 \<and> 0 \<le> v2 \<and> v2 \<le> 16)"
proof -
  let ?os = "\<lparr>ofst_list = [112], ofst_min_list = [0], ofst_max_list = [128],
    seekdist_side_list = [0]\<rparr>"
  have "seekdist_room demo_seekdist 1 ?os"
    by (simp add: seekdist_room_def demo_seekdist_def demo_option_def offsets_ok_def addr_room_def)
  from seekdist_pattern_alternates [OF this, of 2 7] obtain reqs rand' where
    r: "seekdist_run demo_seekdist 2 0 7 ?os = Inr (reqs, 0, rand', seekdist_offsets 1 ?os 2)"
    "length reqs = 2" "\<forall>t < 2. seekdist_request demo_seekdist 1 ?os (Suc t) (reqs ! t)"
    by auto
  from r(2) obtain r1 r2 where reqs: "reqs = [r1, r2]"
    by (auto simp: numeral_2_eq_2 length_Suc_conv)
  have "seekdist_request demo_seekdist 1 ?os 1 r1" "seekdist_request demo_seekdist 1 ?os 2 r2"
    using r(3) reqs by (auto simp: numeral_2_eq_2 less_Suc_eq)
  then have "\<exists>v1 v2. reqs = [(0, v1 * 512), (0, v2 * 512)] \<and> 112 \<le> v1 \<and> v1 \<le> 128 \<and>
      0 \<le> v2 \<and> v2 \<le> 16"
    unfolding reqs by (cases r1; cases r2) (auto simp: seekdist_request_def seekdist_range_def
        demo_seekdist_def demo_option_def visits_def)
  then show ?thesis using r(1) by (auto simp: seekdist_offsets_def visits_def)
qed

text \<open>
  C37: In the mixed mode, over the full period of the process's generator, exactly
  \<open>floor (rwmix * 2^48) + 1\<close> of the \<open>2^48\<close> draws choose a write (all of them for rwmix 1): the
  share of writes is rwmix up to one draw, and with rwmix 0 one draw still writes.
\<close>

theorem mix_share_of_writes:
  assumes "\<not> o_read opt" and "\<not> o_write opt" and "o_rwmix opt = Fin q" and "0 \<le> q" and "q \<le> 1"
  shows "card {g. fst (mb_read_or_write opt g) = MB_DO_WRITE} = min (2 ^ 48) (Suc (nat \<lfloor>q * 2 ^ 48\<rfloor>))"
  using assms by (rule mix_write_count)

theorem mix_share_of_writes_witness:
  "card {g. fst (mb_read_or_write (demo_option\<lparr>o_write := False\<rparr>) g) = MB_DO_WRITE} = 1"
  using mix_share_of_writes [of "demo_option\<lparr>o_write := False\<rparr>" 0] by (simp add: demo_option_def)

end
