(* ===== verification/IoSync.thy ===== *)
theory IoSync
  imports IoPattern
begin

section \<open>The synchronous engine\<close>

text \<open>
  \<open>do_sync_io\<close> of src/src/micbench-io.c: rounds of 100 requests until the timeout, with the
  random, the sequential and the seek-distance pattern. The thread's state is the record
  \<open>sync_state\<close>; the kernel is the parameter of the theory of the I/O helpers, its world \<open>'w\<close>
  is threaded through. A request or the run that never ends is \<open>None\<close>. The buffer the source
  gets from \<open>memalign\<close> is an argument: its allocation, and what follows if it fails, is left out.
\<close>

subsection \<open>State\<close>

record sync_state =
  sy_rand :: rand48
  sy_grand :: rand48
  sy_file_idx :: int
  sy_offsets :: io_offsets
  sy_buf :: "8 word list"
  sy_iowait_time :: c_double
  sy_io_count :: int
  sy_log :: io_log

text \<open>What a thread reports.\<close>

record meter =
  m_iowait_time :: c_double
  m_count :: int

subsection \<open>One request\<close>

text \<open>
  The transfer of the random pattern, at a position given with the call, and that of the other
  two, at the position \<open>lseek64\<close> has set; the latter have no mixed mode.
\<close>

definition rand_transfer ::
  "('w, 'k) kernel_scheme \<Rightarrow> micbench_io_option \<Rightarrow> int \<Rightarrow> int \<Rightarrow> sync_state \<Rightarrow> 'w \<Rightarrow>
     (sync_state \<times> 'w) c_result" where
  "rand_transfer K opt fd addr s w =
     (let (mode, grand) = mb_read_or_write opt (sy_grand s)
      in case mode of
           MB_DO_READ \<Rightarrow>
             bind_c (mb_preadall K fd (sy_buf s) (word_of_int (o_blk_sz opt)) addr
                       (o_continue_on_error opt) w)
               (\<lambda>(n, buf, w'). Inr (s\<lparr>sy_grand := grand, sy_buf := buf\<rparr>, w'))
         | MB_DO_WRITE \<Rightarrow>
             (let (ret, buf, rand) = mb_rand_buf (sy_rand s) (sy_buf s)
              in bind_c (mb_pwriteall K fd buf (word_of_int (o_blk_sz opt)) addr
                           (o_continue_on_error opt) w)
                   (\<lambda>(n, w'). Inr (s\<lparr>sy_grand := grand, sy_rand := rand, sy_buf := buf\<rparr>, w'))))"

definition seek_transfer ::
  "('w, 'k) kernel_scheme \<Rightarrow> micbench_io_option \<Rightarrow> int \<Rightarrow> sync_state \<Rightarrow> 'w \<Rightarrow>
     (sync_state \<times> 'w) c_result option" where
  "seek_transfer K opt fd s w =
     (if o_read opt
      then bind_co (mb_readall K fd (sy_buf s) (word_of_int (o_blk_sz opt))
                      (o_continue_on_error opt) w)
             (\<lambda>(n, buf, w'). Some (Inr (s\<lparr>sy_buf := buf\<rparr>, w')))
      else if o_write opt
      then let (ret, buf, rand) = mb_rand_buf (sy_rand s) (sy_buf s)
           in bind_co (mb_writeall K fd buf (word_of_int (o_blk_sz opt))
                         (o_continue_on_error opt) w)
                (\<lambda>(n, w'). Some (Inr (s\<lparr>sy_rand := rand, sy_buf := buf\<rparr>, w')))
      else Some (Inl Exit_Failure))"

text \<open>
  After the transfer: the time, the counters, the log and the pause. The bogus computation has
  no effect but time.
\<close>

definition sync_account ::
  "('w, 'k) kernel_scheme \<Rightarrow> micbench_io_option \<Rightarrow> int \<Rightarrow> int \<Rightarrow> timeval \<Rightarrow> sync_state \<Rightarrow> 'w \<Rightarrow>
     (sync_state \<times> 'w) c_result" where
  "sync_account K opt file_idx addr t0 s w =
     (let (t1, w1) = k_gettimeofday K w;
          s1 = s\<lparr>sy_iowait_time := d_add (sy_iowait_time s)
                   (d_div (d_of_int (TV2LONG t1 - TV2LONG t0)) (Fin 1000000)),
                 sy_io_count := sy_io_count s + 1\<rparr>
      in bind_c (io_file_path opt file_idx) (\<lambda>path.
         bind_c (mb_log_io_activity opt t0 t1 path addr (o_blk_sz opt) (sy_log s1)) (\<lambda>lg.
         Inr (s1\<lparr>sy_log := lg\<rparr>,
              if 0 < o_iosleep opt then k_usleep K (o_iosleep opt) w1 else w1))))"

definition sync_rand_request ::
  "('w, 'k) kernel_scheme \<Rightarrow> micbench_io_option \<Rightarrow> int list \<Rightarrow> sync_state \<Rightarrow> 'w \<Rightarrow>
     (sync_state \<times> 'w) c_result" where
  "sync_rand_request K opt fd_list s w =
     bind_c (rand_advance opt (sy_rand s) (sy_offsets s)) (\<lambda>(file_idx, addr, rand, os).
     bind_c (file_slot fd_list file_idx) (\<lambda>fd.
     let s1 = s\<lparr>sy_rand := rand, sy_file_idx := file_idx, sy_offsets := os\<rparr>;
         (t0, w1) = k_gettimeofday K w
     in bind_c (rand_transfer K opt fd addr s1 w1) (\<lambda>(s2, w2).
        sync_account K opt file_idx addr t0 s2 w2)))"

text \<open>Seek to the address, transfer, account: the second half of the other two patterns.\<close>

definition sync_seek_request ::
  "('w, 'k) kernel_scheme \<Rightarrow> micbench_io_option \<Rightarrow> int list \<Rightarrow> int \<Rightarrow> int \<Rightarrow> sync_state \<Rightarrow> 'w \<Rightarrow>
     (sync_state \<times> 'w) c_result option" where
  "sync_seek_request K opt fd_list file_idx addr s w =
     bind_co (Some (file_slot fd_list file_idx)) (\<lambda>fd.
     let (ret, w1) = k_lseek64 K fd addr w
     in if ret = -1 then Some (Inl Exit_Failure)
        else let (t0, w2) = k_gettimeofday K w1
             in bind_co (seek_transfer K opt fd s w2) (\<lambda>(s1, w3).
                Some (sync_account K opt file_idx addr t0 s1 w3)))"

definition sync_request ::
  "('w, 'k) kernel_scheme \<Rightarrow> micbench_io_option \<Rightarrow> int list \<Rightarrow> sync_state \<Rightarrow> 'w \<Rightarrow>
     (sync_state \<times> 'w) c_result option" where
  "sync_request K opt fd_list s w =
     (case o_pattern opt of
        PATTERN_RAND \<Rightarrow> Some (sync_rand_request K opt fd_list s w)
      | PATTERN_SEQ \<Rightarrow>
          bind_co (Some (seq_advance opt (sy_file_idx s) (sy_offsets s))) (\<lambda>(file_idx, addr, os).
          sync_seek_request K opt fd_list file_idx addr
            (s\<lparr>sy_file_idx := file_idx, sy_offsets := os\<rparr>) w)
      | PATTERN_SEEKDIST \<Rightarrow>
          bind_co (Some (seekdist_advance opt (sy_file_idx s) (sy_rand s) (sy_offsets s)))
            (\<lambda>(file_idx, addr, rand, os).
          sync_seek_request K opt fd_list file_idx addr
            (s\<lparr>sy_rand := rand, sy_file_idx := file_idx, sy_offsets := os\<rparr>) w)
      | PATTERN_SEEKINCR \<Rightarrow> Some (Inr (s, w)))"

subsection \<open>Rounds until the timeout\<close>

primrec sync_round ::
  "('w, 'k) kernel_scheme \<Rightarrow> micbench_io_option \<Rightarrow> int list \<Rightarrow> nat \<Rightarrow> sync_state \<Rightarrow> 'w \<Rightarrow>
     (sync_state \<times> 'w) c_result option" where
  "sync_round K opt fd_list 0 s w = Some (Inr (s, w))"
| "sync_round K opt fd_list (Suc n) s w =
     bind_co (sync_request K opt fd_list s w) (\<lambda>(s1, w1). sync_round K opt fd_list n s1 w1)"

partial_function (option) sync_loop ::
  "('w, 'k) kernel_scheme \<Rightarrow> micbench_io_option \<Rightarrow> int list \<Rightarrow> timeval \<Rightarrow> sync_state \<Rightarrow> 'w \<Rightarrow>
     (sync_state \<times> 'w) c_result option" where
  "sync_loop K opt fd_list start_tv s w =
     (let (elapsed, w1) = mb_elapsed_time_from K start_tv w
      in if d_less elapsed (d_of_int (o_timeout opt))
         then case sync_round K opt fd_list 100 s w1 of
                None \<Rightarrow> None
              | Some (Inl e) \<Rightarrow> Some (Inl e)
              | Some (Inr (s', w')) \<Rightarrow> sync_loop K opt fd_list start_tv s' w'
         else Some (Inr (s, w1)))"

text \<open>The sizes the offset arrays are made from, one for each of the \<open>nr_files\<close> files.\<close>

definition io_file_sizes :: "micbench_io_option \<Rightarrow> int list c_result" where
  "io_file_sizes opt =
     (case o_file_size_list opt of
        None \<Rightarrow> if o_nr_files opt \<le> 0 then Inr [] else Inl Undefined
      | Some sizes \<Rightarrow>
          if nat (o_nr_files opt) \<le> length sizes then Inr (take (nat (o_nr_files opt)) sizes)
          else Inl Undefined)"

text \<open>
  \<open>buf\<close> is what \<open>memalign\<close> gives; \<open>grand\<close> and \<open>lg\<close> are the state of the process-wide generator
  and of the log.
\<close>

definition sync_start ::
  "micbench_io_option \<Rightarrow> int \<Rightarrow> int \<Rightarrow> int \<Rightarrow> 8 word list \<Rightarrow> rand48 \<Rightarrow> io_log \<Rightarrow> sync_state c_result" where
  "sync_start opt thread_id common_seed th_tid buf grand lg =
     bind_c (io_file_sizes opt) (\<lambda>sizes.
     bind_c (io_init_offsets True opt thread_id sizes) (\<lambda>os.
     Inr \<lparr>sy_rand = srand48_r (common_seed XOR th_tid), sy_grand = grand, sy_file_idx = 0,
          sy_offsets = os, sy_buf = buf, sy_iowait_time = Fin 0, sy_io_count = 0, sy_log = lg\<rparr>))"

definition do_sync_io ::
  "('w, 'k) kernel_scheme \<Rightarrow> micbench_io_option \<Rightarrow> int \<Rightarrow> int \<Rightarrow> int \<Rightarrow> int list \<Rightarrow> 8 word list \<Rightarrow>
     rand48 \<Rightarrow> io_log \<Rightarrow> 'w \<Rightarrow> (meter \<times> sync_state \<times> 'w) c_result option" where
  "do_sync_io K opt thread_id common_seed th_tid fd_list buf grand lg w =
     bind_co (Some (sync_start opt thread_id common_seed th_tid buf grand lg)) (\<lambda>s.
     let (start_tv, w1) = k_gettimeofday K w
     in bind_co (if o_pattern opt = PATTERN_SEEKINCR then Some (Inr (s, w1))
                 else sync_loop K opt fd_list start_tv s w1) (\<lambda>(s', w').
        Some (Inr (\<lparr>m_iowait_time = sy_iowait_time s', m_count = sy_io_count s'\<rparr>, s', w'))))"

subsection \<open>Counting\<close>

text \<open>Every request that ends adds one to the count and, if there is a log, one line to it.\<close>

definition counted :: "micbench_io_option \<Rightarrow> nat \<Rightarrow> sync_state \<Rightarrow> sync_state \<Rightarrow> bool" where
  "counted opt n s s' \<longleftrightarrow> sy_io_count s' = sy_io_count s + int n \<and>
     lg_count (sy_log s') = lg_count (sy_log s) + (if o_logfile opt then int n else 0) \<and>
     (log_ok opt (sy_log s) \<longrightarrow> log_ok opt (sy_log s'))"

lemma counted_0 [simp]: "counted opt 0 s s"
  by (simp add: counted_def)

lemma counted_trans: "counted opt m s1 s2 \<Longrightarrow> counted opt n s2 s3 \<Longrightarrow> counted opt (m + n) s1 s3"
  by (simp add: counted_def)

lemma log_io_activity_count:
  "mb_log_io_activity opt t0 t1 file addr sz lg = Inr lg' \<Longrightarrow>
     lg_count lg' = lg_count lg + (if o_logfile opt then 1 else 0) \<and>
     (log_ok opt lg \<longrightarrow> log_ok opt lg')"
  unfolding mb_log_io_activity_def log_ok_def
  by (auto simp: Let_def bind_c_eq_Inr split: if_splits)

lemma sync_account_counted:
  "sync_account K opt fi addr t0 s w = Inr (s', w') \<Longrightarrow> counted opt 1 s s'"
  unfolding sync_account_def counted_def
  by (auto simp: Let_def bind_c_eq_Inr dest!: log_io_activity_count split: prod.splits)

lemma seek_transfer_same:
  "seek_transfer K opt fd s w = Some (Inr (s', w')) \<Longrightarrow>
     sy_io_count s' = sy_io_count s \<and> sy_log s' = sy_log s"
  unfolding seek_transfer_def
  by (auto simp: Let_def bind_co_eq_Inr split: if_splits prod.splits)

lemma rand_transfer_same:
  "rand_transfer K opt fd addr s w = Inr (s', w') \<Longrightarrow>
     sy_io_count s' = sy_io_count s \<and> sy_log s' = sy_log s"
  unfolding rand_transfer_def
  by (auto simp: Let_def bind_c_eq_Inr split: mb_io_mode.splits prod.splits)

lemma counted_cong:
  "counted opt n s1 s' \<Longrightarrow> sy_io_count s1 = sy_io_count s \<Longrightarrow> sy_log s1 = sy_log s \<Longrightarrow>
     counted opt n s s'"
  by (simp add: counted_def)

lemma sync_seek_request_counted:
  assumes "sync_seek_request K opt fds fi addr s w = Some (Inr (s', w'))"
  shows "counted opt 1 s s'"
proof -
  from assms obtain fd t0 w2 s1 w3 where "seek_transfer K opt fd s w2 = Some (Inr (s1, w3))"
    "sync_account K opt fi addr t0 s1 w3 = Inr (s', w')"
    unfolding sync_seek_request_def
    by (auto simp: Let_def bind_co_eq_Inr case_prod_beta split: if_splits)
  then show ?thesis using sync_account_counted seek_transfer_same counted_cong by metis
qed

lemma sync_request_counted:
  assumes "sync_request K opt fds s w = Some (Inr (s', w'))" and "o_pattern opt \<noteq> PATTERN_SEEKINCR"
  shows "counted opt 1 s s'"
proof (cases "o_pattern opt")
  case PATTERN_RAND
  with assms(1) obtain fi addr rand os fd t0 w1 s2 w2 where
    "rand_transfer K opt fd addr (s\<lparr>sy_rand := rand, sy_file_idx := fi, sy_offsets := os\<rparr>) w1 =
       Inr (s2, w2)" "sync_account K opt fi addr t0 s2 w2 = Inr (s', w')"
    unfolding sync_request_def sync_rand_request_def
    by (auto simp: Let_def bind_c_eq_Inr case_prod_beta)
  then show ?thesis using sync_account_counted rand_transfer_same
    by (metis counted_cong sync_state.select_convs sync_state.surjective sync_state.update_convs(1,3,4))
next
  case PATTERN_SEQ
  with assms(1) show ?thesis
    by (auto simp: sync_request_def bind_co_eq_Inr dest!: sync_seek_request_counted
        elim!: counted_cong)
next
  case PATTERN_SEEKDIST
  with assms(1) show ?thesis
    by (auto simp: sync_request_def bind_co_eq_Inr dest!: sync_seek_request_counted
        elim!: counted_cong)
qed (use assms(2) in simp)

lemma sync_round_counted:
  assumes "sync_round K opt fds n s w = Some (Inr (s', w'))" and "o_pattern opt \<noteq> PATTERN_SEEKINCR"
  shows "counted opt n s s'"
  using assms(1)
proof (induction n arbitrary: s w)
  case (Suc n)
  then obtain s1 w1 where "sync_request K opt fds s w = Some (Inr (s1, w1))"
    "sync_round K opt fds n s1 w1 = Some (Inr (s', w'))" by (auto simp: bind_co_eq_Inr)
  then show ?case
    using Suc.IH counted_trans sync_request_counted [OF _ assms(2)] by (metis plus_1_eq_Suc)
qed simp

lemma sync_loop_counted:
  assumes "sync_loop K opt fds start_tv s w = Some r" and "o_pattern opt \<noteq> PATTERN_SEEKINCR"
    and "r = Inr (s', w')"
  shows "\<exists>k. counted opt (100 * k) s s'"
proof -
  have "r = Inr (s', w') \<longrightarrow> o_pattern opt \<noteq> PATTERN_SEEKINCR \<longrightarrow> (\<exists>k. counted opt (100 * k) s s')"
  proof (rule sync_loop.raw_induct [OF _ assms(1)])
    fix loop K opt fds tv s and w :: 'a and r
    assume IH: "\<And>K opt fds tv s w r. loop K opt fds tv s w = Some r \<Longrightarrow>
        r = Inr (s', w') \<longrightarrow> o_pattern opt \<noteq> PATTERN_SEEKINCR \<longrightarrow> (\<exists>k. counted opt (100 * k) s s')"
      and eq: "(let (elapsed, w1) = mb_elapsed_time_from K tv w
        in if d_less elapsed (d_of_int (o_timeout opt))
           then case sync_round K opt fds 100 s w1 of
                  None \<Rightarrow> None
                | Some (Inl e) \<Rightarrow> Some (Inl e)
                | Some (Inr (s', w')) \<Rightarrow> loop K opt fds tv s' w'
           else Some (Inr (s, w1))) = Some r"
    show "r = Inr (s', w') \<longrightarrow> o_pattern opt \<noteq> PATTERN_SEEKINCR \<longrightarrow> (\<exists>k. counted opt (100 * k) s s')"
    proof (intro impI)
      assume r: "r = Inr (s', w')" and pat: "o_pattern opt \<noteq> PATTERN_SEEKINCR"
      from eq r consider (stop) "s = s'"
        | (more) w1 s1 w2 where "sync_round K opt fds 100 s w1 = Some (Inr (s1, w2))"
            "loop K opt fds tv s1 w2 = Some (Inr (s', w'))"
        by (auto simp: Let_def split: prod.splits if_splits option.splits sum.splits)
      then show "\<exists>k. counted opt (100 * k) s s'"
      proof cases
        case stop
        then show ?thesis using counted_0 [of opt s'] by (intro exI [of _ 0]) simp
      next
        case more
        then obtain k where "counted opt (100 * k) s1 s'" using IH [OF more(2)] pat by auto
        then have "counted opt (100 + 100 * k) s s'"
          using sync_round_counted [OF more(1) pat] counted_trans by blast
        then show ?thesis by (intro exI [of _ "Suc k"]) simp
      qed
    qed
  qed
  with assms(2,3) show ?thesis by simp
qed

subsection \<open>The disk\<close>

text \<open>
  A disk that serves reads: each descriptor has a file and a position, \<open>lseek64\<close> sets the
  position, \<open>read\<close> reads from it, and the clock shows microseconds, never goes back, and a read
  takes time.
\<close>

definition sync_disk ::
  "('w, 'k) kernel_scheme \<Rightarrow> int list \<Rightarrow> (int \<Rightarrow> 8 word list) \<Rightarrow> (int \<Rightarrow> 'w \<Rightarrow> nat) \<Rightarrow>
     ('w \<Rightarrow> int) \<Rightarrow> bool" where
  "sync_disk K fds file pos now \<longleftrightarrow>
     (\<forall>fd \<in> set fds. reads_file K fd (file fd) (pos fd) \<and>
        (\<forall>sz w. now w < now (snd (snd (k_read K fd sz w)))) \<and>
        (\<forall>a w. 0 \<le> a \<longrightarrow> fst (k_lseek64 K fd a w) = a \<and>
           pos fd (snd (k_lseek64 K fd a w)) = nat a \<and> now w \<le> now (snd (k_lseek64 K fd a w))) \<and>
        (\<forall>w. pos fd (snd (k_gettimeofday K w)) = pos fd w)) \<and>
     (\<forall>w. TV2LONG (fst (k_gettimeofday K w)) = now w \<and> now w \<le> now (snd (k_gettimeofday K w))) \<and>
     (\<forall>us w. now w \<le> now (k_usleep K us w))"

lemma readall_loop_time:
  assumes "readall_loop K fd c buf ofs sz w = Some r" and "r = Inr (buf', w')"
    and "\<forall>sz w. now w < (now (snd (snd (k_read K fd sz w))) :: int)"
  shows "now w < now w'"
  using readall_loop_rel [where R = "\<lambda>w w'. now w < now w'"] assms by (simp add: transp_def)

subsection \<open>Sequential reads\<close>

text \<open>A job of sequential reads on \<open>n\<close> files that hold all the blocks asked for.\<close>

definition seq_read_job ::
  "('w, 'k) kernel_scheme \<Rightarrow> micbench_io_option \<Rightarrow> nat \<Rightarrow> io_offsets \<Rightarrow> int list \<Rightarrow>
     (int \<Rightarrow> 8 word list) \<Rightarrow> (int \<Rightarrow> 'w \<Rightarrow> nat) \<Rightarrow> ('w \<Rightarrow> int) \<Rightarrow> bool" where
  "seq_read_job K opt n os fds file pos now \<longleftrightarrow>
     sync_disk K fds file pos now \<and> seq_room opt n os \<and> o_pattern opt = PATTERN_SEQ \<and>
     o_read opt \<and> \<not> o_logfile opt \<and> o_misalign opt = 0 \<and> in_int (o_blk_sz opt) \<and>
     in_int (o_timeout opt) \<and> length fds = n \<and>
     (\<exists>paths. o_file_path_list opt = Some paths \<and> length paths = n) \<and>
     (\<forall>i < n. ofst_max_list os ! i * o_blk_sz opt \<le> int (length (file (fds ! i))))"

definition seq_at :: "micbench_io_option \<Rightarrow> nat \<Rightarrow> io_offsets \<Rightarrow> nat \<Rightarrow> sync_state \<Rightarrow> bool" where
  "seq_at opt n os t s \<longleftrightarrow> sy_file_idx s = int (t mod n) \<and> sy_offsets s = seq_offsets n os t \<and>
     length (sy_buf s) = nat (o_blk_sz opt)"

text \<open>The block at a byte address of a file.\<close>

definition file_block :: "8 word list \<Rightarrow> int \<Rightarrow> int \<Rightarrow> 8 word list" where
  "file_block file addr sz = take (nat sz) (drop (nat addr) file)"

lemma readall_block:
  assumes "sync_disk K fds file pos now" and "fd \<in> set fds" and "0 < sz" and "in_int sz"
    and "length buf = nat sz" and "pos fd w = nat addr" and "0 \<le> addr"
    and "addr + sz \<le> int (length (file fd))"
  shows "\<exists>w'. mb_readall K fd buf (word_of_int sz) c w =
      Some (Inr (word_of_int sz, file_block (file fd) addr sz, w')) \<and> now w < now w'"
proof -
  have sz: "unat (word_of_int sz :: 64 word) = nat sz"
    using assms(3,4) by (simp add: in_int_def unat_eq_nat_uint uint_word_of_int)
  have law: "reads_file K fd (file fd) (pos fd)" "\<forall>sz w. now w < now (snd (snd (k_read K fd sz w)))"
    using assms(1,2) by (auto simp: sync_disk_def)
  have "pos fd w + nat sz \<le> length (file fd)" using assms(3,6-8) by linarith
  then obtain w' where w': "readall_loop K fd c buf 0 (word_of_int sz) w =
      Some (Inr (splice buf 0 (take (nat sz) (drop (nat addr) (file fd))), w'))"
    using readall_loop_reads [OF law(1), of 0 "word_of_int sz" buf w c] sz assms(5,6) by auto
  have "splice buf 0 (take (nat sz) (drop (nat addr) (file fd))) = file_block (file fd) addr sz"
    using assms(5,7,8) by (simp add: splice_def file_block_def)
  then show ?thesis
    using w' readall_loop_time [OF w' refl law(2)] by (simp add: mb_readall_def)
qed

lemma seq_read_request:
  assumes "seq_read_job K opt n os fds file pos now" and "seq_at opt n os t s"
  shows "\<exists>s' w'. sync_request K opt fds s w = Some (Inr (s', w')) \<and> seq_at opt n os (Suc t) s' \<and>
    now w < now w' \<and>
    sy_buf s' = file_block (file (fds ! (Suc t mod n))) (snd (seq_request opt n os (Suc t))) (o_blk_sz opt)"
proof -
  define i where "i = Suc t mod n"
  define addr where "addr = snd (seq_request opt n os (Suc t))"
  have job: "sync_disk K fds file pos now" "seq_room opt n os" "o_pattern opt = PATTERN_SEQ"
    "o_read opt" "\<not> o_logfile opt" "o_misalign opt = 0" "in_int (o_blk_sz opt)" "length fds = n"
    "\<exists>paths. o_file_path_list opt = Some paths \<and> length paths = n"
    "\<forall>i < n. ofst_max_list os ! i * o_blk_sz opt \<le> int (length (file (fds ! i)))"
    using assms(1) by (auto simp: seq_read_job_def)
  have i: "i < n" using job(2) by (simp add: i_def seq_room_def)
  have fd: "file_slot fds (int i) = Inr (fds ! i)" "fds ! i \<in> set fds" using i job(8) by simp_all
  have path: "\<exists>path. io_file_path opt (int i) = Inr path" using job(9) i by (auto simp: io_file_path_def)
  have adv: "seq_advance opt (sy_file_idx s) (sy_offsets s) =
      Inr (int i, addr, seq_offsets n os (Suc t))"
    using seq_advance_spec [OF job(2), of t] assms(2) by (simp add: seq_at_def i_def addr_def)
  have b: "0 < o_blk_sz opt" "0 \<le> ofst_min_list os ! i" "ofst_min_list os ! i < ofst_max_list os ! i"
    using job(2) i by (auto simp: seq_room_def addr_room_def)
  have addr_eq: "addr = seq_ofst n os i (Suc t) * o_blk_sz opt"
    using job(6) by (simp add: addr_def i_def seq_request_def)
  have r: "0 \<le> seq_ofst n os i (Suc t)" "seq_ofst n os i (Suc t) + 1 \<le> ofst_max_list os ! i"
    using seq_ofst_range [OF i b(3), of "Suc t"] b(2) by simp_all
  have "(seq_ofst n os i (Suc t) + 1) * o_blk_sz opt \<le> ofst_max_list os ! i * o_blk_sz opt"
    using r b(1) by (intro mult_right_mono) simp_all
  then have inside: "0 \<le> addr" "addr + o_blk_sz opt \<le> int (length (file (fds ! i)))"
    using r b(1) job(10) [rule_format, OF i] by (simp_all add: addr_eq algebra_simps)
  obtain w1 where seek: "k_lseek64 K (fds ! i) addr w = (addr, w1)" "pos (fds ! i) w1 = nat addr"
    "now w \<le> now w1"
    using job(1) fd(2) inside(1) unfolding sync_disk_def by (metis prod.collapse)
  obtain t0 w2 where t0: "k_gettimeofday K w1 = (t0, w2)" "pos (fds ! i) w2 = nat addr" "now w1 \<le> now w2"
    using job(1) fd(2) seek(2) unfolding sync_disk_def by (metis prod.collapse)
  obtain w3 where rd: "mb_readall K (fds ! i) (sy_buf s) (word_of_int (o_blk_sz opt))
        (o_continue_on_error opt) w2 =
      Some (Inr (word_of_int (o_blk_sz opt), file_block (file (fds ! i)) addr (o_blk_sz opt), w3))"
    "now w2 < now w3"
    using readall_block [OF job(1) fd(2) b(1) job(7) _ t0(2) inside] assms(2)
    by (auto simp: seq_at_def)
  obtain t1 w4 where t1: "k_gettimeofday K w3 = (t1, w4)" "now w3 \<le> now w4"
    using job(1) unfolding sync_disk_def by (metis prod.collapse)
  define w5 where "w5 = (if 0 < o_iosleep opt then k_usleep K (o_iosleep opt) w4 else w4)"
  have w5: "now w4 \<le> now w5" using job(1) by (simp add: w5_def sync_disk_def)
  have len: "length (file_block (file (fds ! i)) addr (o_blk_sz opt)) = nat (o_blk_sz opt)"
    using inside by (simp add: file_block_def)
  let ?s = "s\<lparr>sy_file_idx := int i, sy_offsets := seq_offsets n os (Suc t),
      sy_buf := file_block (file (fds ! i)) addr (o_blk_sz opt),
      sy_iowait_time := d_add (sy_iowait_time s)
        (d_div (d_of_int (TV2LONG t1 - TV2LONG t0)) (Fin 1000000)),
      sy_io_count := sy_io_count s + 1\<rparr>"
  have "sync_request K opt fds s w = Some (Inr (?s, w5))"
    using path inside(1) job(3-5)
    by (auto simp: sync_request_def adv sync_seek_request_def fd(1) seek(1) t0(1) seek_transfer_def
        rd(1) sync_account_def t1(1) log_off w5_def)
  moreover have "seq_at opt n os (Suc t) ?s" using len by (simp add: seq_at_def i_def)
  moreover have "now w < now w5" using seek(3) t0(3) rd(2) t1(2) w5 by linarith
  ultimately show ?thesis
    by (intro exI [of _ ?s] exI [of _ w5]) (simp add: i_def addr_def)
qed

lemma seq_read_round:
  assumes "seq_read_job K opt n os fds file pos now"
  shows "seq_at opt n os t s \<Longrightarrow>
    \<exists>s' w'. sync_round K opt fds k s w = Some (Inr (s', w')) \<and> seq_at opt n os (t + k) s' \<and>
      now w + int k \<le> now w'"
proof (induction k arbitrary: t s w)
  case (Suc k)
  obtain s1 w1 where s1: "sync_request K opt fds s w = Some (Inr (s1, w1))"
    "seq_at opt n os (Suc t) s1" "now w < now w1"
    using seq_read_request [OF assms Suc.prems, of w] by blast
  from Suc.IH [OF s1(2), of w1] s1 show ?case by fastforce
qed auto

text \<open>The run ends: every round takes time, so that the timeout is reached.\<close>

lemma seq_read_loop:
  assumes "seq_read_job K opt n os fds file pos now"
  shows "seq_at opt n os t s \<Longrightarrow>
    \<exists>s' w' k. sync_loop K opt fds start_tv s w = Some (Inr (s', w')) \<and>
      seq_at opt n os (t + 100 * k) s' \<and> TV2LONG start_tv + o_timeout opt * 1000000 \<le> now w' \<and>
      (now w < TV2LONG start_tv + o_timeout opt * 1000000 \<longrightarrow> 0 < k)"
proof (induction "nat (TV2LONG start_tv + o_timeout opt * 1000000 - now w)" arbitrary: t s w
    rule: less_induct)
  case less
  let ?lim = "TV2LONG start_tv + o_timeout opt * 1000000"
  have law: "sync_disk K fds file pos now" "in_int (o_timeout opt)"
    using assms by (auto simp: seq_read_job_def)
  obtain tv w1 where tv: "k_gettimeofday K w = (tv, w1)" "TV2LONG tv = now w" "now w \<le> now w1"
    using law(1) unfolding sync_disk_def by (metis prod.collapse)
  have test: "d_less (d_div (d_of_int (now w - TV2LONG start_tv)) (Fin 1000000))
      (d_of_int (o_timeout opt)) \<longleftrightarrow> now w < ?lim"
    using elapsed_less [OF law(2), of "now w - TV2LONG start_tv"] by linarith
  show ?case
  proof (cases "now w < ?lim")
    case False
    have "sync_loop K opt fds start_tv s w = Some (Inr (s, w1))"
      using test False by (subst sync_loop.simps) (simp add: mb_elapsed_time_from_def tv)
    then show ?thesis
      using less.prems False tv(3)
      by (intro exI [of _ s] exI [of _ w1] exI [of _ 0]) simp
  next
    case True
    obtain s1 w2 where s1: "sync_round K opt fds 100 s w1 = Some (Inr (s1, w2))"
      "seq_at opt n os (t + 100) s1" "now w1 + int 100 \<le> now w2"
      using seq_read_round [OF assms less.prems, of 100 w1] by blast
    have lt: "nat (?lim - now w2) < nat (?lim - now w)" using True s1(3) tv(3) by linarith
    obtain s' w' k where ih: "sync_loop K opt fds start_tv s1 w2 = Some (Inr (s', w'))"
      "seq_at opt n os (t + 100 + 100 * k) s'" "?lim \<le> now w'"
      using less.hyps [OF lt s1(2)] by blast
    have "sync_loop K opt fds start_tv s w = Some (Inr (s', w'))"
      using test True s1(1) ih(1)
      by (subst sync_loop.simps) (simp add: mb_elapsed_time_from_def tv)
    then show ?thesis
      using ih(2,3) by (intro exI [of _ s'] exI [of _ w'] exI [of _ "Suc k"]) (simp add: ac_simps)
  qed
qed

lemma io_file_sizes_ready:
  assumes "io_ready env opt" and "o_file_size_list opt = Some sizes"
  shows "io_file_sizes opt = Inr sizes"
    and "\<exists>paths. o_file_path_list opt = Some paths \<and> length paths = length sizes"
  using assms by (auto simp: io_file_sizes_def io_ready_def)

lemma sync_start_seq:
  assumes "io_ready env opt" and "o_file_size_list opt = Some sizes" and "length sizes < 2 ^ 31"
    and "o_pattern opt = PATTERN_SEQ" and "0 \<le> thread_id" and "thread_id < o_multi opt"
    and "0 < o_blk_sz opt" and "o_misalign opt = 0" and "\<forall>size \<in> set sizes. io_share_room opt size"
    and "length buf = nat (o_blk_sz opt)"
  shows "\<exists>os s. sync_start opt thread_id common_seed th_tid buf grand lg = Inr s \<and>
    seq_room opt (length sizes) os \<and> seq_at opt (length sizes) os 0 s \<and>
    (\<forall>j < length sizes. ofst_max_list os ! j * o_blk_sz opt \<le> sizes ! j) \<and>
    sy_io_count s = 0 \<and> sy_log s = lg"
proof -
  obtain os where os: "io_init_offsets True opt thread_id sizes = Inr os"
    "seq_room opt (length sizes) os"
    "\<forall>j < length sizes. ofst_max_list os ! j * o_blk_sz opt \<le> sizes ! j"
    using seq_ready_inside [OF assms(1-9), of True] by blast
  have "seq_offsets (length sizes) os 0 = os"
    using seq_run_spec [OF os(2), of 0] by simp
  then show ?thesis
    using os assms(10) io_file_sizes_ready(1) [OF assms(1,2)]
    by (intro exI [of _ os]) (simp add: sync_start_def seq_at_def)
qed

lemma sync_mix_request:
  assumes "\<not> o_read opt" and "\<not> o_write opt"
    and "o_pattern opt = PATTERN_SEQ \<or> o_pattern opt = PATTERN_SEEKDIST"
  shows "\<exists>e. sync_request K opt fds s w = Some (Inl e)"
proof -
  have seek: "\<exists>e. sync_seek_request K opt fds fi addr s w = Some (Inl e)" for fi addr s w
    using assms(1,2)
    by (cases "file_slot fds fi") (auto simp: sync_seek_request_def seek_transfer_def split: prod.split)
  from assms(3) show ?thesis
  proof
    assume pat: "o_pattern opt = PATTERN_SEQ"
    show ?thesis
      using seek by (cases "seq_advance opt (sy_file_idx s) (sy_offsets s)")
        (auto simp: sync_request_def pat split: prod.split)
  next
    assume pat: "o_pattern opt = PATTERN_SEEKDIST"
    show ?thesis
      using seek by (cases "seekdist_advance opt (sy_file_idx s) (sy_rand s) (sy_offsets s)")
        (auto simp: sync_request_def pat split: prod.split)
  qed
qed

subsection \<open>Properties\<close>

lemma seq_read_run:
  assumes "io_ready env opt" and "io_option_invar env opt" and "o_file_size_list opt = Some sizes"
    and "length sizes < 2 ^ 31" and "o_pattern opt = PATTERN_SEQ" and "o_read opt"
    and "0 \<le> thread_id" and "thread_id < o_multi opt" and "0 < o_blk_sz opt" and "o_misalign opt = 0"
    and "\<forall>size \<in> set sizes. io_share_room opt size"
    and "sync_disk K fds file pos now" and "length fds = length sizes"
    and "\<forall>i < length sizes. int (length (file (fds ! i))) = sizes ! i"
    and "length buf = nat (o_blk_sz opt)"
  shows "\<exists>m s w' k. do_sync_io K opt thread_id common_seed th_tid fds buf grand lg w =
      Some (Inr (m, s, w')) \<and> m_count m = 100 * int k \<and>
    now w + o_timeout opt * 1000000 \<le> now w'"
proof -
  let ?n = "length sizes"
  obtain os s where s: "sync_start opt thread_id common_seed th_tid buf grand lg = Inr s"
    "seq_room opt ?n os" "seq_at opt ?n os 0 s"
    "\<forall>j < ?n. ofst_max_list os ! j * o_blk_sz opt \<le> sizes ! j" "sy_io_count s = 0"
    using sync_start_seq [OF assms(1,3-5,7-11,15)] by blast
  have job: "seq_read_job K opt ?n os fds file pos now"
    using s(2,4) assms(2,5,6,10,12-14) io_file_sizes_ready(2) [OF assms(1,3)]
    by (auto simp: seq_read_job_def io_option_invar_def)
  obtain tv w1 where tv: "k_gettimeofday K w = (tv, w1)" "TV2LONG tv = now w"
    using assms(12) unfolding sync_disk_def by (metis prod.collapse)
  obtain s' w' where run: "sync_loop K opt fds tv s w1 = Some (Inr (s', w'))"
    "TV2LONG tv + o_timeout opt * 1000000 \<le> now w'"
    using seq_read_loop [OF job s(3), of tv w1] by blast
  obtain k where "counted opt (100 * k) s s'"
    using sync_loop_counted [OF run(1) _ refl] assms(5) by auto
  then have "sy_io_count s' = 100 * int k" using s(5) by (simp add: counted_def)
  moreover have "do_sync_io K opt thread_id common_seed th_tid fds buf grand lg w =
      Some (Inr (\<lparr>m_iowait_time = sy_iowait_time s', m_count = sy_io_count s'\<rparr>, s', w'))"
    using assms(5) s(1) tv(1) run(1) by (simp add: do_sync_io_def)
  ultimately show ?thesis using run(2) tv(2) by auto
qed


text \<open>
  C38: Whenever \<open>do_sync_io\<close> returns, with any pattern and any kernel, the count it reports is a
  multiple of 100, and the log has grown by one line per counted request if there is a log and
  by none otherwise. With \<open>PATTERN_SEEKINCR\<close> the count is 0: the source has no branch for it.
\<close>

theorem sync_count_and_log:
  assumes "do_sync_io K opt thread_id common_seed th_tid fds buf grand lg w = Some (Inr (m, s, w'))"
    and "log_ok opt lg"
  shows "\<exists>k. m_count m = 100 * int k \<and>
    lg_count (sy_log s) = lg_count lg + (if o_logfile opt then m_count m else 0) \<and>
    length (lg_lines (sy_log s)) = length (lg_lines lg) + (if o_logfile opt then 100 * k else 0) \<and>
    (o_pattern opt = PATTERN_SEEKINCR \<longrightarrow> m_count m = 0)"
proof -
  obtain s0 where s0: "sync_start opt thread_id common_seed th_tid buf grand lg = Inr s0"
    using assms(1) by (auto simp: do_sync_io_def bind_co_eq_Inr)
  have start: "sy_io_count s0 = 0" "sy_log s0 = lg"
    using s0 by (auto simp: sync_start_def bind_c_eq_Inr)
  obtain k where k: "counted opt (100 * k) s0 s" "o_pattern opt = PATTERN_SEEKINCR \<longrightarrow> k = 0"
  proof (cases "o_pattern opt = PATTERN_SEEKINCR")
    case True
    then have "s = s0" using assms(1) s0 by (auto simp: do_sync_io_def case_prod_beta)
    then show ?thesis using that [of 0] by simp
  next
    case False
    then obtain tv w1 where "sync_loop K opt fds tv s0 w1 = Some (Inr (s, w'))"
      using assms(1) s0 by (auto simp: do_sync_io_def bind_co_eq_Inr case_prod_beta)
    then obtain k where "counted opt (100 * k) s0 s" using sync_loop_counted [OF _ False refl] by metis
    then show ?thesis using that False by simp
  qed
  have m: "m_count m = sy_io_count s"
    using assms(1) by (auto simp: do_sync_io_def bind_co_eq_Inr case_prod_beta)
  have c: "sy_io_count s = 100 * int k"
    "lg_count (sy_log s) = lg_count lg + (if o_logfile opt then 100 * int k else 0)"
    "log_ok opt (sy_log s)"
    using k(1) start assms(2) by (simp_all add: counted_def)
  have "int (length (lg_lines (sy_log s))) =
      int (length (lg_lines lg) + (if o_logfile opt then 100 * k else 0))"
    using c(2,3) assms(2) by (cases "o_logfile opt") (simp_all add: log_ok_def)
  then have "length (lg_lines (sy_log s)) =
      length (lg_lines lg) + (if o_logfile opt then 100 * k else 0)"
    by (simp only: of_nat_eq_iff)
  with m c k(2) show ?thesis by (intro exI [of _ k]) simp
qed

text \<open>
  C39: In the mixed read/write mode only the random pattern works: with the sequential or the
  seek-distance pattern a run always ends, and no request is ever counted, since the first one
  ends the process (or stops before).
\<close>

theorem sync_mix_needs_random:
  assumes "\<not> o_read opt" and "\<not> o_write opt"
    and "o_pattern opt = PATTERN_SEQ \<or> o_pattern opt = PATTERN_SEEKDIST"
  shows "\<exists>r. do_sync_io K opt thread_id common_seed th_tid fds buf grand lg w = Some r \<and>
    (\<forall>m s w'. r = Inr (m, s, w') \<longrightarrow> m_count m = 0)"
proof (cases "sync_start opt thread_id common_seed th_tid buf grand lg")
  case (Inr s)
  obtain tv w1 where tv: "k_gettimeofday K w = (tv, w1)" by fastforce
  obtain elapsed w2 where el: "mb_elapsed_time_from K tv w1 = (elapsed, w2)" by fastforce
  obtain e where "sync_request K opt fds s w2 = Some (Inl e)" 
    using sync_mix_request [OF assms, of K fds s w2] by blast
  then have "sync_round K opt fds 100 s w2 = Some (Inl e)" by (simp add: numeral_eq_Suc)
  then have loop: "sync_loop K opt fds tv s w1 =
      (if d_less elapsed (d_of_int (o_timeout opt)) then Some (Inl e) else Some (Inr (s, w2)))"
    by (subst sync_loop.simps) (simp add: el)
  have "sy_io_count s = 0" using Inr by (auto simp: sync_start_def bind_c_eq_Inr)
  then show ?thesis using loop Inr tv assms(3) by (auto simp: do_sync_io_def)
qed (simp add: do_sync_io_def)

subsection \<open>A disk with one file\<close>

definition demo_disk :: "8 word list \<Rightarrow> (nat \<times> int) kernel" where
  "demo_disk file =
     \<lparr>k_read = \<lambda>fd sz (p, now).
        (let bytes = take (unat sz) (drop p file)
         in (int (length bytes), bytes, p + length bytes, now + 20000)),
      k_write = \<lambda>fd bytes (p, now). (int (length bytes), p, now + 20000),
      k_pread64 = \<lambda>fd sz offset (p, now).
        (let bytes = take (unat sz) (drop (nat offset) file)
         in (int (length bytes), bytes, p, now + 20000)),
      k_pwrite64 = \<lambda>fd bytes offset (p, now). (int (length bytes), p, now + 20000),
      k_lseek64 = \<lambda>fd offset (p, now). (offset, nat offset, now),
      k_gettimeofday = \<lambda>(p, now). (\<lparr>tv_sec = 0, tv_usec = now\<rparr>, p, now),
      k_usleep = \<lambda>usec (p, now). (p, now)\<rparr>"

lemma demo_disk_reads: "reads_file (demo_disk file) fd file fst"
  by (auto simp: reads_file_def demo_disk_def Let_def word_less_nat_alt min_def)

lemma demo_disk_ok: "sync_disk (demo_disk (replicate 65536 0)) [3] (\<lambda>fd. replicate 65536 0)
    (\<lambda>fd. fst) (\<lambda>w. snd (w :: nat \<times> int))"
  using demo_disk_reads [of "replicate 65536 0" 3]
  by (auto simp: sync_disk_def demo_disk_def Let_def TV2LONG_def)

definition demo_sync :: micbench_io_option where
  "demo_sync = demo_seq\<lparr>o_read := True, o_write := False, o_logfile := False, o_logfile_path := None\<rparr>"

lemma demo_sync_sel [simp]:
  "o_multi demo_sync = 2" "o_pattern demo_sync = PATTERN_SEQ" "o_blk_sz demo_sync = 512"
  "o_nr_files demo_sync = 1" "o_ofst_start demo_sync = 0" "o_ofst_end demo_sync = 128"
  "o_misalign demo_sync = 0" "o_file_size_list demo_sync = Some [65536]" "o_read demo_sync"
  "\<not> o_logfile demo_sync" "o_timeout demo_sync = 5"
  by (simp_all add: demo_sync_def demo_seq_def demo_option_def)

lemma demo_sync_ready: "io_ready demo_env demo_sync"
  by (simp add: io_ready_def demo_sync_def demo_seq_def demo_option_def demo_env_def io_files_ok_def
      mb_getsize_def crem_def cdiv_def io_open_mode_def)

lemma demo_sync_invar: "io_option_invar demo_env demo_sync"
  by (simp add: io_option_invar_def demo_sync_def demo_seq_def demo_option_def rwmix_ok_def
      affinities_ok_def in_int_def in_long_def)


lemma seekincr_run:
  "do_sync_io (demo_disk []) (demo_sync\<lparr>o_pattern := PATTERN_SEEKINCR\<rparr>) 0 77 4711 [3] [] 0
     \<lparr>lg_count = 0, lg_start_usec = 0, lg_lines = []\<rparr> (0, 0) =
   Some (Inr (\<lparr>m_iowait_time = Fin 0, m_count = 0\<rparr>,
     \<lparr>sy_rand = srand48_r (77 XOR 4711), sy_grand = 0, sy_file_idx = 0,
      sy_offsets = \<lparr>ofst_list = [0], ofst_min_list = [0], ofst_max_list = [128],
        seekdist_side_list = [0]\<rparr>, sy_buf = [], sy_iowait_time = Fin 0, sy_io_count = 0,
      sy_log = \<lparr>lg_count = 0, lg_start_usec = 0, lg_lines = []\<rparr>\<rparr>, (0, 0)))"
  by (simp add: do_sync_io_def sync_start_def io_file_sizes_def io_ofst_min_def io_ofst_max_def
      io_first_ofst_def demo_disk_def del: xor_numerals)

theorem sync_count_and_log_witness:
  "\<exists>m s w'. do_sync_io (demo_disk []) (demo_sync\<lparr>o_pattern := PATTERN_SEEKINCR\<rparr>) 0 77 4711 [3] [] 0
     \<lparr>lg_count = 0, lg_start_usec = 0, lg_lines = []\<rparr> (0, 0) = Some (Inr (m, s, w')) \<and> m_count m = 0"
  using sync_count_and_log [OF seekincr_run] seekincr_run by (simp add: log_ok_def)

theorem sync_mix_needs_random_witness:
  "\<exists>r. do_sync_io (demo_disk []) (demo_sync\<lparr>o_read := False\<rparr>) 0 77 4711 [3] [] 0
      \<lparr>lg_count = 0, lg_start_usec = 0, lg_lines = []\<rparr> (0, 0) = Some r \<and>
    (\<forall>m s w'. r = Inr (m, s, w') \<longrightarrow> m_count m = 0)"
  by (rule sync_mix_needs_random) (simp_all add: demo_sync_def demo_seq_def)

end
