(* ===== verification/BtReplay.thy ===== *)
theory BtReplay
  imports BlkTrace IoSync
begin

section \<open>micbench-btreplay\<close>

text \<open>
  src/src/micbench-btreplay.c and micbench-btreplay.h: the options, the work of a thread on one
  request, and the monitor thread, which shares only the stop flag and the queue, which it
  reads; it is a function of what it finds there. The program around them is in BtMain.
\<close>

unbundle bit_operations_syntax

subsection \<open>Options\<close>

record mb_btreplay_option =
  ro_verbose :: bool
  ro_vverbose :: bool
  ro_direct :: bool
  ro_multi :: int
  ro_timeout :: int
  ro_repeat :: bool
  ro_btdump_path :: string
  ro_target_path :: string

text \<open>The paths are not set before the operands are read; here they start empty.\<close>

definition btreplay_default_option :: mb_btreplay_option where
  "btreplay_default_option =
     \<lparr>ro_verbose = False, ro_vverbose = False, ro_direct = False, ro_multi = 1, ro_timeout = 0,
      ro_repeat = False, ro_btdump_path = [], ro_target_path = []\<rparr>"

text \<open>The option string \<open>+vVm:dt:r\<close>.\<close>

definition btreplay_optspec :: optspec where
  "btreplay_optspec = map (\<lambda>c. (c, False)) ''vVdr'' @ map (\<lambda>c. (c, True)) ''mt''"

definition btreplay_set_flag :: "char \<Rightarrow> mb_btreplay_option \<Rightarrow> mb_btreplay_option option" where
  "btreplay_set_flag c opt =
     (if c = CHR ''v'' then Some (opt\<lparr>ro_verbose := True\<rparr>)
      else if c = CHR ''V'' then Some (opt\<lparr>ro_verbose := True, ro_vverbose := True\<rparr>)
      else if c = CHR ''d'' then Some (opt\<lparr>ro_direct := True\<rparr>)
      else if c = CHR ''r'' then Some (opt\<lparr>ro_repeat := True\<rparr>)
      else None)"

definition btreplay_set_value ::
  "char \<Rightarrow> string \<Rightarrow> mb_btreplay_option \<Rightarrow> mb_btreplay_option option" where
  "btreplay_set_value c arg opt =
     (let num = fst (strtol arg)
      in if c = CHR ''m'' then Some (opt\<lparr>ro_multi := to_int num\<rparr>)
         else if c = CHR ''t'' then Some (opt\<lparr>ro_timeout := to_int num\<rparr>)
         else None)"

fun btreplay_option_loop ::
  "(opt_event \<times> string list) list \<Rightarrow> mb_btreplay_option \<Rightarrow> mb_btreplay_option option" where
  "btreplay_option_loop [] opt = Some opt"
| "btreplay_option_loop ((ev, rest) # evs) opt =
     Option.bind
       (case ev of
          Opt c \<Rightarrow> btreplay_set_flag c opt
        | OptArg c arg \<Rightarrow> btreplay_set_value c arg opt
        | OptBad \<Rightarrow> None)
       (btreplay_option_loop evs)"

text \<open>\<open>None\<close> if the function returns \<open>-1\<close>.\<close>

definition mb_btreplay_parse_args :: "string list \<Rightarrow> mb_btreplay_option option" where
  "mb_btreplay_parse_args argv =
     (let (evs, args) = getopt_scan btreplay_optspec argv
      in Option.bind (btreplay_option_loop evs btreplay_default_option) (\<lambda>opt.
         case args of
           btdump # target # others \<Rightarrow>
             if ro_repeat opt \<and> ro_timeout opt = 0 then None
             else Some (opt\<lparr>ro_btdump_path := btdump, ro_target_path := target\<rparr>)
         | _ \<Rightarrow> None))"

subsection \<open>The work of a thread\<close>

text \<open>
  A thread has its own descriptor, the position after its last request and a buffer. What a
  fresh buffer of \<open>n\<close> bytes holds is the argument \<open>junk n\<close>.
\<close>

record bt_thread =
  bw_tid :: int
  bw_fd :: int
  bw_endpos :: int
  bw_buf :: "8 word list"

definition bt_memalign :: "(nat \<Rightarrow> nat \<Rightarrow> 8 word) \<Rightarrow> nat \<Rightarrow> 8 word list" where
  "bt_memalign junk n = map (junk n) [0..<n]"

definition bt_is_write :: "blk_io_trace \<Rightarrow> bool" where
  "bt_is_write t \<longleftrightarrow> bt_action t AND BLK_TC_ACT BLK_TC_WRITE \<noteq> 0"

definition bt_is_issue :: "blk_io_trace \<Rightarrow> bool" where
  "bt_is_issue t \<longleftrightarrow> bt_action t AND 0xffff = blk_ta_val TA_ISSUE"

text \<open>\<open>trace.sector * 512\<close> is computed in 64 bits and read as \<open>int64_t\<close>.\<close>

definition bt_ofst :: "blk_io_trace \<Rightarrow> int" where
  "bt_ofst t = sint (bt_sector t * 512)"

definition bt_size :: "blk_io_trace \<Rightarrow> 64 word" where
  "bt_size t = ucast (bt_bytes t)"

definition bt_grow :: "(nat \<Rightarrow> nat \<Rightarrow> 8 word) \<Rightarrow> 64 word \<Rightarrow> 8 word list \<Rightarrow> 8 word list" where
  "bt_grow junk sz buf = (if length buf < unat sz then bt_memalign junk (unat sz) else buf)"

text \<open>The transfer itself; errors of the system calls do not end it (\<open>continue_on_error\<close>).\<close>

definition bt_transfer ::
  "('w, 'k) kernel_scheme \<Rightarrow> int \<Rightarrow> blk_io_trace \<Rightarrow> 8 word list \<Rightarrow> 'w \<Rightarrow>
     (8 word list \<times> 'w) c_result option" where
  "bt_transfer K fd t buf w =
     (if bt_is_write t
      then bind_co (mb_writeall K fd buf (bt_size t) True w) (\<lambda>(n, w'). Some (Inr (buf, w')))
      else bind_co (mb_readall K fd buf (bt_size t) True w) (\<lambda>(n, buf', w'). Some (Inr (buf', w'))))"

text \<open>So a transfer either returns or runs forever; it never ends the process.\<close>

lemma readall_continues: "readall_loop K fd True buf ofs sz w = Some r \<Longrightarrow> \<exists>x. r = Inr x"
proof -
  assume "readall_loop K fd True buf ofs sz w = Some r"
  then have "True \<longrightarrow> (\<exists>x. r = Inr x)"
  proof (rule readall_loop.raw_induct [where P = "\<lambda>K fd c buf ofs sz w r. c \<longrightarrow> (\<exists>x. r = Inr x)", rotated])
    fix loop K fd c buf ofs sz and w :: 'a and r
    assume IH: "\<And>K fd c buf ofs sz w r. loop K fd c buf ofs sz w = Some r \<Longrightarrow> c \<longrightarrow> (\<exists>x. r = Inr x)"
      and eq: "(let (ret, bytes, w') = k_read K fd sz w; buf' = splice buf ofs bytes
        in if ret = -1 \<and> \<not> c then Some (Inl Exit_Failure)
           else if (word_of_int ret :: 64 word) < sz
           then loop K fd c buf' (ofs + nat ret) (sz - word_of_int ret) w'
           else Some (Inr (buf', w'))) = Some r"
    show "c \<longrightarrow> (\<exists>x. r = Inr x)"
      using eq IH by (auto simp: Let_def split: prod.splits if_splits)
  qed
  then show ?thesis by simp
qed

lemma writeall_continues: "writeall_loop K fd True buf ofs sz w = Some r \<Longrightarrow> \<exists>x. r = Inr x"
proof -
  assume "writeall_loop K fd True buf ofs sz w = Some r"
  then have "True \<longrightarrow> (\<exists>x. r = Inr x)"
  proof (rule writeall_loop.raw_induct [where P = "\<lambda>K fd c buf ofs sz w r. c \<longrightarrow> (\<exists>x. r = Inr x)", rotated])
    fix loop K fd c buf ofs sz and w :: 'a and r
    assume IH: "\<And>K fd c buf ofs sz w r. loop K fd c buf ofs sz w = Some r \<Longrightarrow> c \<longrightarrow> (\<exists>x. r = Inr x)"
      and eq: "(let (ret, w') = k_write K fd (take (unat sz) (drop ofs buf)) w
        in if ret = -1 \<and> \<not> c then Some (Inl Exit_Failure)
           else if (word_of_int ret :: 64 word) < sz
           then loop K fd c buf (ofs + nat ret) (sz - word_of_int ret) w'
           else Some (Inr w')) = Some r"
    show "c \<longrightarrow> (\<exists>x. r = Inr x)"
      using eq IH by (auto simp: Let_def split: prod.splits if_splits)
  qed
  then show ?thesis by simp
qed

lemma bt_transfer_no_exit: "bt_transfer K fd t buf w \<noteq> Some (Inl e)"
  by (auto simp: bt_transfer_def mb_readall_def mb_writeall_def split: option.splits
      dest: readall_continues writeall_continues)

text \<open>What \<open>-V\<close> shows of a request on the standard output.\<close>

definition bt_show ::
  "mb_btreplay_option \<Rightarrow> bt_thread \<Rightarrow> blk_io_trace \<Rightarrow> string" where
  "bt_show opt th t =
     (if ro_vverbose opt
      then (if bt_ofst t \<noteq> bw_endpos th
            then ''[tid: '' @ show_int (bw_tid th) @ ''] lseek64 to '' @ show_int (bt_ofst t) @ [CHR 0x0A]
            else []) @
           ''[tid: '' @ show_int (bw_tid th) @ ''] '' @ (if bt_is_write t then ''write'' else ''read'') @
           '' on fd:'' @ show_int (bw_fd th) @ '' at '' @ show_int (bt_ofst t) @ '' + '' @
           show_nat (unat (bt_size t)) @ [CHR 0x0A]
      else [])"

text \<open>
  One request: a new buffer if the old one is too small, a seek unless the request continues
  the last one (a failing seek is only reported on the error stream), the transfer, the new
  position.
\<close>

definition bt_serve ::
  "('w, 'k) kernel_scheme \<Rightarrow> (nat \<Rightarrow> nat \<Rightarrow> 8 word) \<Rightarrow> mb_btreplay_option \<Rightarrow> blk_io_trace \<Rightarrow>
     bt_thread \<Rightarrow> 'w \<Rightarrow> (bt_thread \<times> string \<times> 'w) c_result option" where
  "bt_serve K junk opt t th w =
     (if bt_is_issue t
      then let buf = bt_grow junk (bt_size t) (bw_buf th);
               w1 = (if bt_ofst t \<noteq> bw_endpos th then snd (k_lseek64 K (bw_fd th) (bt_ofst t) w) else w)
           in bind_co (bt_transfer K (bw_fd th) t buf w1) (\<lambda>(buf', w2).
              Some (Inr (th\<lparr>bw_buf := buf', bw_endpos := sint (word_of_int (bt_ofst t) + bt_size t)\<rparr>,
                         bt_show opt th t, w2)))
      else Some (Inr (th, [], w)))"

subsection \<open>The monitor\<close>

text \<open>
  With \<open>-v\<close> a further thread reports the length of the queue on the error stream. \<open>stop k\<close> is what
  its \<open>k\<close>-th look at \<open>control.stop\<close> finds, one second after the look before; \<open>len k\<close> is the length
  of the queue at that time. The inner loop returns \<open>None\<close> if it finds the flag set, otherwise
  the number of looks so far; the result of the thread is what it writes.
\<close>

fun monitor_wait :: "(nat \<Rightarrow> bool) \<Rightarrow> nat \<Rightarrow> nat \<Rightarrow> nat option" where
  "monitor_wait stop k 0 = Some k"
| "monitor_wait stop k (Suc i) = (if stop k then None else monitor_wait stop (Suc k) i)"

definition monitor_line :: "int \<Rightarrow> string" where
  "monitor_line n = ''[monitor] ioreq queue length: '' @ show_int n @ [CHR 0x0A]"

partial_function (option) monitor_thread_handler ::
  "(nat \<Rightarrow> bool) \<Rightarrow> (nat \<Rightarrow> int) \<Rightarrow> nat \<Rightarrow> string option" where
  "monitor_thread_handler stop len k =
     (case monitor_wait stop k 10 of
        None \<Rightarrow> Some []
      | Some k' \<Rightarrow>
          Option.bind (monitor_thread_handler stop len k') (\<lambda>rest. Some (monitor_line (len k') @ rest)))"

lemma monitor_wait_eq:
  assumes "stop n" and "\<forall>j. k \<le> j \<and> j < n \<longrightarrow> \<not> stop j" and "k \<le> n"
  shows "monitor_wait stop k i = (if k + i \<le> n then Some (k + i) else None)"
  using assms(2,3)
proof (induction i arbitrary: k)
  case (Suc i)
  show ?case
  proof (cases "k = n")
    case False
    then have "monitor_wait stop k (Suc i) = monitor_wait stop (Suc k) i" using Suc.prems by simp
    also have "\<dots> = (if Suc k + i \<le> n then Some (Suc k + i) else None)"
      using Suc.prems False by (intro Suc.IH) auto
    finally show ?thesis by simp
  qed (use assms(1) in simp)
qed simp

lemma monitor_from:
  assumes "stop n" and "\<forall>j. k \<le> j \<and> j < n \<longrightarrow> \<not> stop j" and "k \<le> n"
  shows "monitor_thread_handler stop len k =
    Some (concat (map (\<lambda>m. monitor_line (len (k + 10 * Suc m))) [0..<(n - k) div 10]))"
  using assms(2,3)
proof (induction "n - k" arbitrary: k rule: less_induct)
  case less
  note wait = monitor_wait_eq [OF assms(1) less.prems, of 10]
  show ?case
  proof (cases "k + 10 \<le> n")
    case True
    have "monitor_thread_handler stop len (k + 10) =
        Some (concat (map (\<lambda>m. monitor_line (len (k + 10 + 10 * Suc m))) [0..<(n - (k + 10)) div 10]))"
      using less.prems True by (intro less.hyps) auto
    moreover have "(n - k) div 10 = Suc ((n - (k + 10)) div 10)"
      using True by (simp add: le_div_geq)
    ultimately show ?thesis
      using wait True
      by (subst monitor_thread_handler.simps)
        (simp add: upt_conv_Cons map_Suc_upt [symmetric] comp_def add.assoc del: upt_Suc)
  next
    case False
    then have "(n - k) div 10 = 0" by simp
    then show ?thesis using wait False by (subst monitor_thread_handler.simps) simp
  qed
qed

subsection \<open>The saved seek\<close>

text \<open>
  The reference: every request seeks to its own position before it transfers.
\<close>

definition bt_serve_seek ::
  "('w, 'k) kernel_scheme \<Rightarrow> (nat \<Rightarrow> nat \<Rightarrow> 8 word) \<Rightarrow> mb_btreplay_option \<Rightarrow> blk_io_trace \<Rightarrow>
     bt_thread \<Rightarrow> 'w \<Rightarrow> (bt_thread \<times> string \<times> 'w) c_result option" where
  "bt_serve_seek K junk opt t th w =
     (if bt_is_issue t
      then bind_co (bt_transfer K (bw_fd th) t (bt_grow junk (bt_size t) (bw_buf th))
                      (snd (k_lseek64 K (bw_fd th) (512 * uint (bt_sector t)) w))) (\<lambda>(buf', w2).
           Some (Inr (th\<lparr>bw_buf := buf',
                         bw_endpos := 512 * uint (bt_sector t) + uint (bt_bytes t)\<rparr>,
                      bt_show opt th t, w2)))
      else Some (Inr (th, [], w)))"

text \<open>A thread that serves one request after the other.\<close>

primrec bt_serve_list ::
  "(blk_io_trace \<Rightarrow> bt_thread \<Rightarrow> 'w \<Rightarrow> (bt_thread \<times> string \<times> 'w) c_result option) \<Rightarrow>
     blk_io_trace list \<Rightarrow> bt_thread \<Rightarrow> 'w \<Rightarrow> (bt_thread \<times> string \<times> 'w) c_result option" where
  "bt_serve_list serve [] th w = Some (Inr (th, [], w))"
| "bt_serve_list serve (t # ts) th w =
     bind_co (serve t th w) (\<lambda>(th1, out1, w1).
     bind_co (bt_serve_list serve ts th1 w1) (\<lambda>(th2, out2, w2). Some (Inr (th2, out1 @ out2, w2))))"

text \<open>
  The documented behaviour of a seekable file without errors: a seek goes where it is told,
  a seek to where the file is does nothing, and a transfer moves the position by what it
  transferred.
\<close>

definition seeks_file :: "('w, 'k) kernel_scheme \<Rightarrow> int \<Rightarrow> ('w \<Rightarrow> int) \<Rightarrow> bool" where
  "seeks_file K fd pos \<longleftrightarrow>
     (\<forall>w. snd (k_lseek64 K fd (pos w) w) = w) \<and>
     (\<forall>a w. 0 \<le> a \<longrightarrow> pos (snd (k_lseek64 K fd a w)) = a) \<and>
     (\<forall>sz w. case k_read K fd sz w of (ret, bytes, w') \<Rightarrow>
        0 \<le> ret \<and> ret \<le> uint sz \<and> pos w' = pos w + ret) \<and>
     (\<forall>bytes w. case k_write K fd bytes w of (ret, w') \<Rightarrow>
        0 \<le> ret \<and> ret \<le> int (length bytes) \<and> pos w' = pos w + ret)"

lemma chunk_left:
  fixes sz :: "64 word"
  assumes "0 \<le> ret" and "ret \<le> uint sz"
  shows "word_of_int ret < sz \<longleftrightarrow> ret < uint sz" and "uint (sz - word_of_int ret) = uint sz - ret"
proof -
  have r: "uint (word_of_int ret :: 64 word) = ret"
    using assms uint_lt2p [of sz] by (simp add: uint_word_of_int_eq take_bit_int_eq_self)
  then show "word_of_int ret < sz \<longleftrightarrow> ret < uint sz" by (simp add: word_less_def)
  show "uint (sz - word_of_int ret) = uint sz - ret"
    using r assms by (simp add: uint_sub_if')
qed

lemma readall_moves:
  assumes "readall_loop K fd c buf ofs sz w = Some (Inr (buf', w'))" and "seeks_file K fd pos"
  shows "pos w' = pos w + uint sz"
proof -
  have "\<forall>buf' w'. r = Inr (buf', w') \<longrightarrow> seeks_file K fd pos \<longrightarrow> pos w' = pos w + uint sz"
    if "readall_loop K fd c buf ofs sz w = Some r" for r
  proof (rule readall_loop.raw_induct [OF _ that])
    fix loop K fd c buf ofs sz and w :: 'a and r
    assume IH: "\<And>K fd c buf ofs sz w r. loop K fd c buf ofs sz w = Some r \<Longrightarrow>
        \<forall>buf' w'. r = Inr (buf', w') \<longrightarrow> seeks_file K fd pos \<longrightarrow> pos w' = pos w + uint sz"
      and eq: "(let (ret, bytes, w') = k_read K fd sz w; buf' = splice buf ofs bytes
        in if ret = -1 \<and> \<not> c then Some (Inl Exit_Failure)
           else if (word_of_int ret :: 64 word) < sz
           then loop K fd c buf' (ofs + nat ret) (sz - word_of_int ret) w'
           else Some (Inr (buf', w'))) = Some r"
    show "\<forall>buf' w'. r = Inr (buf', w') \<longrightarrow> seeks_file K fd pos \<longrightarrow> pos w' = pos w + uint sz"
    proof (intro allI impI)
      fix buf' w' assume r: "r = Inr (buf', w')" and law: "seeks_file K fd pos"
      obtain ret bytes w1 where k: "k_read K fd sz w = (ret, bytes, w1)" by (metis prod_cases3)
      have l: "0 \<le> ret" "ret \<le> uint sz" "pos w1 = pos w + ret"
        using law k unfolding seeks_file_def by (auto dest!: spec [of _ sz] spec [of _ w])
      note ch = chunk_left [OF l(1,2)]
      show "pos w' = pos w + uint sz"
      proof (cases "ret < uint sz")
        case True
        then have "loop K fd c (splice buf ofs bytes) (ofs + nat ret) (sz - word_of_int ret) w1 = Some r"
          using eq l(1) ch(1) by (simp add: k Let_def)
        from IH [OF this] r law have "pos w' = pos w1 + uint (sz - word_of_int ret)" by blast
        then show ?thesis using ch(2) l(3) by simp
      next
        case False
        then have "w' = w1" using eq l(1) ch(1) r by (simp add: k Let_def)
        then show ?thesis using False l by simp
      qed
    qed
  qed
  then show ?thesis using assms by blast
qed

lemma writeall_moves:
  assumes "writeall_loop K fd c buf ofs sz w = Some (Inr w')" and "seeks_file K fd pos"
  shows "pos w' = pos w + uint sz"
proof -
  have "\<forall>w'. r = Inr w' \<longrightarrow> seeks_file K fd pos \<longrightarrow> pos w' = pos w + uint sz"
    if "writeall_loop K fd c buf ofs sz w = Some r" for r
  proof (rule writeall_loop.raw_induct [OF _ that])
    fix loop K fd c buf ofs sz and w :: 'a and r
    assume IH: "\<And>K fd c buf ofs sz w r. loop K fd c buf ofs sz w = Some r \<Longrightarrow>
        \<forall>w'. r = Inr w' \<longrightarrow> seeks_file K fd pos \<longrightarrow> pos w' = pos w + uint sz"
      and eq: "(let (ret, w') = k_write K fd (take (unat sz) (drop ofs buf)) w
        in if ret = -1 \<and> \<not> c then Some (Inl Exit_Failure)
           else if (word_of_int ret :: 64 word) < sz
           then loop K fd c buf (ofs + nat ret) (sz - word_of_int ret) w'
           else Some (Inr w')) = Some r"
    show "\<forall>w'. r = Inr w' \<longrightarrow> seeks_file K fd pos \<longrightarrow> pos w' = pos w + uint sz"
    proof (intro allI impI)
      fix w' assume r: "r = Inr w'" and law: "seeks_file K fd pos"
      let ?bytes = "take (unat sz) (drop ofs buf)"
      obtain ret w1 where k: "k_write K fd ?bytes w = (ret, w1)" by fastforce
      have "0 \<le> ret \<and> ret \<le> int (length ?bytes) \<and> pos w1 = pos w + ret"
        using law k unfolding seeks_file_def by (auto dest!: spec [of _ ?bytes] spec [of _ w])
      moreover have "length ?bytes \<le> unat sz" by simp
      then have "int (length ?bytes) \<le> uint sz" using uint_nat [of sz] by linarith
      ultimately have l: "0 \<le> ret" "ret \<le> uint sz" "pos w1 = pos w + ret" by auto
      note ch = chunk_left [OF l(1,2)]
      show "pos w' = pos w + uint sz"
      proof (cases "ret < uint sz")
        case True
        then have "loop K fd c buf (ofs + nat ret) (sz - word_of_int ret) w1 = Some r"
          using eq l(1) ch(1) by (simp add: k Let_def)
        from IH [OF this] r law have "pos w' = pos w1 + uint (sz - word_of_int ret)" by blast
        then show ?thesis using ch(2) l(3) by simp
      next
        case False
        then have "w' = w1" using eq l(1) ch(1) r by (simp add: k Let_def)
        then show ?thesis using False l by simp
      qed
    qed
  qed
  then show ?thesis using assms by blast
qed

lemma bt_transfer_moves:
  assumes "bt_transfer K fd t buf w = Some (Inr (buf', w'))" and "seeks_file K fd pos"
  shows "pos w' = pos w + uint (bt_size t)"
proof (cases "bt_is_write t")
  case True
  then have "writeall_loop K fd True buf 0 (bt_size t) w = Some (Inr w')"
    using assms(1)
    by (auto simp: bt_transfer_def mb_writeall_def bind_c_eq_Inr bind_co_eq_Inr split: option.splits)
  then show ?thesis using assms(2) by (rule writeall_moves)
next
  case False
  then have "readall_loop K fd True buf 0 (bt_size t) w = Some (Inr (buf', w'))"
    using assms(1)
    by (auto simp: bt_transfer_def mb_readall_def bind_c_eq_Inr bind_co_eq_Inr split: option.splits)
  then show ?thesis using assms(2) by (rule readall_moves)
qed

text \<open>A request in range: its end is below \<open>2^63\<close>.\<close>

definition bt_in_range :: "blk_io_trace \<Rightarrow> bool" where
  "bt_in_range t \<longleftrightarrow> 512 * uint (bt_sector t) + uint (bt_bytes t) < 2 ^ 63"

lemma sint64_small: "0 \<le> x \<Longrightarrow> x < 2 ^ 63 \<Longrightarrow> sint (word_of_int x :: 64 word) = x"
  by (simp add: signed_of_int signed_take_bit_int_eq_self)

lemma bt_in_range_ofst:
  assumes "bt_in_range t"
  shows "bt_ofst t = 512 * uint (bt_sector t)"
    and "sint (word_of_int (bt_ofst t) + bt_size t) = 512 * uint (bt_sector t) + uint (bt_bytes t)"
proof -
  let ?p = "512 * uint (bt_sector t)"
  have b: "0 \<le> ?p" "?p < 2 ^ 63" "0 \<le> ?p + uint (bt_bytes t)" "?p + uint (bt_bytes t) < 2 ^ 63"
    using assms uint_ge_0 [of "bt_bytes t"] uint_ge_0 [of "bt_sector t"]
    unfolding bt_in_range_def by linarith+
  have "bt_sector t * 512 = word_of_int ?p" by simp
  then have "bt_ofst t = sint (word_of_int ?p :: 64 word)" unfolding bt_ofst_def by (rule arg_cong)
  from this sint64_small [OF b(1,2)] show ofst: "bt_ofst t = ?p" by (rule trans)
  have "word_of_int (bt_ofst t) + bt_size t = word_of_int (?p + uint (bt_bytes t))"
    by (simp add: ofst bt_size_def)
  then have "sint (word_of_int (bt_ofst t) + bt_size t) =
      sint (word_of_int (?p + uint (bt_bytes t)) :: 64 word)" by (rule arg_cong)
  from this sint64_small [OF b(3,4)]
  show "sint (word_of_int (bt_ofst t) + bt_size t) = ?p + uint (bt_bytes t)" by (rule trans)
qed

lemma uint_bt_size: "uint (bt_size t) = uint (bt_bytes t)"
  using uint_lt2p [of "bt_bytes t"]
  by (simp add: bt_size_def unsigned_ucast_eq take_bit_int_eq_self)

text \<open>Where the thread is: nowhere yet, or where its last request ended.\<close>

lemma bt_serve_same:
  assumes "seeks_file K (bw_fd th) pos" and "bt_in_range t"
    and "bw_endpos th = -1 \<or> bw_endpos th = pos w"
  shows "bt_serve K junk opt t th w = bt_serve_seek K junk opt t th w \<and>
    (\<forall>th' out w'. bt_serve K junk opt t th w = Some (Inr (th', out, w')) \<longrightarrow>
       bw_fd th' = bw_fd th \<and> (bw_endpos th' = -1 \<or> bw_endpos th' = pos w'))"
proof (cases "bt_is_issue t")
  case False
  then show ?thesis using assms(3) by (simp add: bt_serve_def bt_serve_seek_def)
next
  case True
  note r = bt_in_range_ofst [OF assms(2)]
  let ?w1 = "snd (k_lseek64 K (bw_fd th) (bt_ofst t) w)"
  have nonneg: "0 \<le> bt_ofst t" by (simp add: r(1))
  have "?w1 = w" if "bt_ofst t = bw_endpos th"
    using that assms(1,3) nonneg by (simp add: seeks_file_def)
  then have w1: "(if bt_ofst t \<noteq> bw_endpos th then ?w1 else w) = ?w1" by simp
  have "pos ?w1 = bt_ofst t" using assms(1) nonneg by (simp add: seeks_file_def)
  then have moves: "pos w' = 512 * uint (bt_sector t) + uint (bt_bytes t)"
    if "bt_transfer K (bw_fd th) t buf ?w1 = Some (Inr (buf', w'))" for buf buf' w'
    using bt_transfer_moves [OF that assms(1)] r(1) uint_bt_size by simp
  show ?thesis
    using True r w1 moves
    by (auto simp: bt_serve_def bt_serve_seek_def Let_def bind_co_eq_Inr)
qed

text \<open>
  A read that reaches beyond the end of the target never returns: at the end \<open>read(2)\<close> says 0,
  and \<open>mb_readall\<close> asks again.
\<close>

theorem bt_serve_past_end:
  assumes "reads_file K (bw_fd th) file pos"
    and "\<forall>a w. 0 \<le> a \<longrightarrow> pos (snd (k_lseek64 K (bw_fd th) a w)) = nat a"
    and "bt_is_issue t" and "\<not> bt_is_write t" and "bw_endpos th = -1" and "bt_in_range t"
    and "512 * uint (bt_sector t) \<le> int (length file)"
    and "int (length file) < 512 * uint (bt_sector t) + uint (bt_bytes t)"
  shows "bt_serve K junk opt t th w = None"
proof (cases "bt_serve K junk opt t th w")
  case (Some r)
  let ?w1 = "snd (k_lseek64 K (bw_fd th) (bt_ofst t) w)"
  have ofst: "bt_ofst t = 512 * uint (bt_sector t)" by (rule bt_in_range_ofst(1) [OF assms(6)])
  have at: "pos ?w1 = nat (512 * uint (bt_sector t))" using assms(2) ofst by simp
  have seek: "bt_ofst t \<noteq> bw_endpos th" using ofst assms(5) uint_ge_0 [of "bt_sector t"] by linarith
  obtain r' where "bt_transfer K (bw_fd th) t (bt_grow junk (bt_size t) (bw_buf th)) ?w1 = Some r'"
    using Some assms(3) seek
    by (cases "bt_transfer K (bw_fd th) t (bt_grow junk (bt_size t) (bw_buf th)) ?w1")
      (auto simp: bt_serve_def Let_def bind_co_def)
  then obtain r2 where "readall_loop K (bw_fd th) True (bt_grow junk (bt_size t) (bw_buf th)) 0 (bt_size t) ?w1 =
      Some r2"
    using assms(4) by (auto simp: bt_transfer_def mb_readall_def bind_co_def split: option.splits)
  from readall_loop_eof [OF this assms(1)] at assms(7)
  have "nat (512 * uint (bt_sector t)) + unat (bt_size t) \<le> length file" by simp
  then show ?thesis using assms(8) uint_bt_size [of t] uint_nat [of "bt_size t"] by linarith
qed

subsection \<open>Properties\<close>

text \<open>
  C11: saving the seek is right. On a seekable file without errors, a thread that serves its
  requests one after the other, seeking only if a request does not start where the last one
  ended, does exactly what it would do if it sought before every request: the same transfers
  at the same places, the same buffers, the same output.
\<close>

theorem bt_seek_saved:
  assumes "seeks_file K (bw_fd th) pos" and "\<forall>t \<in> set ts. bt_in_range t" and "bw_endpos th = -1"
  shows "bt_serve_list (bt_serve K junk opt) ts th w = bt_serve_list (bt_serve_seek K junk opt) ts th w"
proof -
  have "bw_fd th = fd \<Longrightarrow> seeks_file K fd pos \<Longrightarrow> \<forall>t \<in> set ts. bt_in_range t \<Longrightarrow>
      bw_endpos th = -1 \<or> bw_endpos th = pos w \<Longrightarrow>
      bt_serve_list (bt_serve K junk opt) ts th w = bt_serve_list (bt_serve_seek K junk opt) ts th w" for fd
  proof (induction ts arbitrary: th w)
    case (Cons t ts)
    have same: "bt_serve K junk opt t th w = bt_serve_seek K junk opt t th w"
      "\<And>th' out w'. bt_serve K junk opt t th w = Some (Inr (th', out, w')) \<Longrightarrow>
         bw_fd th' = bw_fd th \<and> (bw_endpos th' = -1 \<or> bw_endpos th' = pos w')"
      using bt_serve_same [of K th pos t w junk opt] Cons.prems by auto
    show ?case
    proof (cases "\<exists>th1 out1 w1. bt_serve K junk opt t th w = Some (Inr (th1, out1, w1))")
      case True
      then obtain th1 out1 w1 where one: "bt_serve K junk opt t th w = Some (Inr (th1, out1, w1))" by blast
      have "bt_serve_list (bt_serve K junk opt) ts th1 w1 =
          bt_serve_list (bt_serve_seek K junk opt) ts th1 w1"
        using Cons.IH [of th1 w1] Cons.prems same(2) [OF one] by auto
      then show ?thesis using one same(1) by simp
    next
      case False
      then have "bt_serve K junk opt t th w = None \<or> (\<exists>e. bt_serve K junk opt t th w = Some (Inl e))"
        by (metis not_Some_eq sum.exhaust surj_pair)
      then show ?thesis using same(1) by auto
    qed
  qed simp
  then show ?thesis using assms by blast
qed

text \<open>
  The monitor ends. If the \<open>n\<close>-th look at the flag is the first that finds it set, the thread
  returns then, and it has written the length of the queue after every ten seconds.
\<close>

theorem monitor_ends:
  assumes "stop n" and "\<forall>j < n. \<not> stop j"
  shows "monitor_thread_handler stop len 0 =
    Some (concat (map (\<lambda>m. monitor_line (len (10 * Suc m))) [0..<n div 10]))"
  using monitor_from [of stop n 0 len] assms by simp

subsection \<open>A device\<close>

text \<open>A device that transfers what it is asked for; the world is the position.\<close>

definition demo_bt :: "int kernel" where
  "demo_bt =
     \<lparr>k_read = \<lambda>fd sz w. (uint sz, replicate (unat sz) 0, w + uint sz),
      k_write = \<lambda>fd bytes w. (int (length bytes), w + int (length bytes)),
      k_pread64 = \<lambda>fd sz offset w. (uint sz, replicate (unat sz) 0, w),
      k_pwrite64 = \<lambda>fd bytes offset w. (int (length bytes), w),
      k_lseek64 = \<lambda>fd offset w. (offset, offset),
      k_gettimeofday = \<lambda>w. (\<lparr>tv_sec = 0, tv_usec = 0\<rparr>, w), k_usleep = \<lambda>usec w. w\<rparr>"

definition demo_trace :: blk_io_trace where
  "demo_trace =
     \<lparr>bt_magic = 0x65617407, bt_sequence = 1, bt_time = 5, bt_sector = 2048, bt_bytes = 4096,
      bt_action = 0x400007, bt_pid = 42, bt_device = 0x800000, bt_cpu = 3, bt_error = 0,
      bt_pdu_len = 0\<rparr>"

lemma demo_bt_seeks: "seeks_file demo_bt fd (\<lambda>w. w)"
  by (simp add: seeks_file_def demo_bt_def)

theorem bt_seek_saved_witness:
  "bt_serve_list (bt_serve demo_bt (\<lambda>n i. 0) btreplay_default_option)
      [demo_trace, demo_trace\<lparr>bt_sector := 2056\<rparr>]
      \<lparr>bw_tid = 1, bw_fd = 3, bw_endpos = -1, bw_buf = []\<rparr> 0 =
   bt_serve_list (bt_serve_seek demo_bt (\<lambda>n i. 0) btreplay_default_option)
      [demo_trace, demo_trace\<lparr>bt_sector := 2056\<rparr>]
      \<lparr>bw_tid = 1, bw_fd = 3, bw_endpos = -1, bw_buf = []\<rparr> 0 \<and>
   bt_ofst (demo_trace\<lparr>bt_sector := 2056\<rparr>) =
     sint (word_of_int (bt_ofst demo_trace) + bt_size demo_trace)"
proof
  have r: "bt_in_range demo_trace" "bt_in_range (demo_trace\<lparr>bt_sector := 2056\<rparr>)"
    by (simp_all add: bt_in_range_def demo_trace_def)
  show "bt_ofst (demo_trace\<lparr>bt_sector := 2056\<rparr>) =
      sint (word_of_int (bt_ofst demo_trace) + bt_size demo_trace)"
    unfolding bt_in_range_ofst(1) [OF r(2)] bt_in_range_ofst(2) [OF r(1)] by (simp add: demo_trace_def)
qed (rule bt_seek_saved [where pos = "\<lambda>w. w"],
  simp_all add: demo_bt_seeks bt_in_range_def demo_trace_def)

theorem monitor_ends_witness:
  "monitor_thread_handler (\<lambda>k. 23 \<le> k) (\<lambda>k. 30 - int k) 0 =
     Some (monitor_line 20 @ monitor_line 10)"
  using monitor_ends [of "\<lambda>k. 23 \<le> k" 23 "\<lambda>k. 30 - int k"] by (simp add: numeral_2_eq_2)

end
