(* ===== verification/BtMain.thy ===== *)
theory BtMain
  imports BtReplay "HOL-Library.Multiset"
begin

section \<open>micbench-btreplay: the program\<close>

text \<open>
  The program of src/src/micbench-btreplay.c from its start to its end: the main thread creates
  the consumers, opens the dump, reads it record by record into the queue, adds a stop entry per
  consumer, closes the dump and joins; a consumer opens the target, takes entries from the queue
  and serves them until it finds a stop entry, and closes its descriptor. The threads interleave in
  any order; a system call or an operation on the queue is one step, and so is the transfer of one
  request. A transfer that never returns keeps its thread where it is. The asynchronous queue of
  GLib is a parameter, of which only is assumed that it is a FIFO queue with atomic operations.
\<close>

subsection \<open>The state\<close>

text \<open>An entry of the queue: a trace, or the request to stop.\<close>

datatype mb_btreplay_ioreq = Ioreq_stop | Ioreq blk_io_trace

text \<open>
  Where a consumer is: before its \<open>open\<close>, before a pop, with a request at hand, before its
  \<open>close\<close>, at its end. And where the main thread is; the numbers count the threads created, the
  stop entries pushed and the threads joined.
\<close>

datatype bt_phase = Bt_start | Bt_idle | Bt_busy blk_io_trace | Bt_closing | Bt_stopped

datatype bt_main =
  Bm_create nat | Bm_open | Bm_fetch | Bm_stop nat | Bm_close | Bm_join nat | Bm_done

text \<open>
  The queue of GLib: \<open>g_async_queue_new\<close>, \<open>g_async_queue_push\<close> and \<open>g_async_queue_pop\<close>, where
  \<open>None\<close> means that the caller has to wait. Its documented behaviour: \<open>items\<close> are the entries
  in their order.
\<close>

record 'q async_queue =
  q_new :: 'q
  q_push :: "mb_btreplay_ioreq \<Rightarrow> 'q \<Rightarrow> 'q"
  q_pop :: "'q \<Rightarrow> (mb_btreplay_ioreq \<times> 'q) option"

definition fifo_queue :: "'q async_queue \<Rightarrow> ('q \<Rightarrow> mb_btreplay_ioreq list) \<Rightarrow> bool" where
  "fifo_queue Q items \<longleftrightarrow>
     items (q_new Q) = [] \<and> (\<forall>r q. items (q_push Q r q) = items q @ [r]) \<and>
     (\<forall>q. case q_pop Q q of None \<Rightarrow> items q = [] | Some (r, q') \<Rightarrow> items q = r # items q')"

text \<open>
  The further calls of the program. \<open>fopen\<close> gives the descriptor of the stream and the bytes
  \<open>fread\<close> will deliver; \<open>None\<close> is the null pointer.
\<close>

record 'w bt_kernel = "'w kernel" +
  b_open :: "string \<Rightarrow> bool \<Rightarrow> 'w \<Rightarrow> int \<times> 'w"
  b_close :: "int \<Rightarrow> 'w \<Rightarrow> 'w"
  b_fopen :: "string \<Rightarrow> 'w \<Rightarrow> (int \<times> 8 word list) option \<times> 'w"
  b_create :: "int \<Rightarrow> 'w \<Rightarrow> int \<times> 'w"

text \<open>
  The state of the program: where the main thread is, the dump while it is open (its descriptor
  and the bytes still to be read), the queue, the consumers, the standard output, the world, and how the
  process ended if a call of \<open>exit\<close> or undefined behaviour ended it. Two members are history: the entries that
  were popped and the requests that were served.
\<close>

record ('q, 'w) bt_sys =
  bs_main :: bt_main
  bs_file :: "(int \<times> 8 word list) option"
  bs_queue :: 'q
  bs_threads :: "(bt_thread \<times> bt_phase) list"
  bs_out :: string
  bs_world :: 'w
  bs_end :: "c_stop option"
  bs_popped :: "mb_btreplay_ioreq list"
  bs_served :: "(nat \<times> blk_io_trace) list"

subsection \<open>The main thread\<close>

definition bt_push :: "'q async_queue \<Rightarrow> mb_btreplay_ioreq \<Rightarrow> ('q, 'w) bt_sys \<Rightarrow> ('q, 'w) bt_sys" where
  "bt_push Q r s = s\<lparr>bs_queue := q_push Q r (bs_queue s)\<rparr>"

text \<open>A thread that has been created: its locals get their values when it opens the target.\<close>

definition bt_new_thread :: "nat \<Rightarrow> bt_thread \<times> bt_phase" where
  "bt_new_thread n = (\<lparr>bw_tid = int n + 1, bw_fd = 0, bw_endpos = 0, bw_buf = []\<rparr>, Bt_start)"

definition bt_create ::
  "('w, 'k) bt_kernel_scheme \<Rightarrow> mb_btreplay_option \<Rightarrow> nat \<Rightarrow> ('q, 'w) bt_sys \<Rightarrow> ('q, 'w) bt_sys" where
  "bt_create K opt n s =
     (if int n < ro_multi opt
      then let (ret, w) = b_create K (int n) (bs_world s)
           in if ret \<noteq> 0 then s\<lparr>bs_world := w, bs_end := Some Exit_Failure\<rparr>
              else s\<lparr>bs_world := w, bs_threads := bs_threads s @ [bt_new_thread n], bs_main := Bm_create (Suc n)\<rparr>
      else s\<lparr>bs_main := Bm_open\<rparr>)"

definition bt_fopen ::
  "('w, 'k) bt_kernel_scheme \<Rightarrow> mb_btreplay_option \<Rightarrow> ('q, 'w) bt_sys \<Rightarrow> ('q, 'w) bt_sys" where
  "bt_fopen K opt s =
     (let (stream, w) = b_fopen K (ro_btdump_path opt) (bs_world s)
      in s\<lparr>bs_world := w, bs_file := stream, bs_main := Bm_fetch\<rparr>)"

text \<open>The next record of the dump; a dump that could not be opened is a null pointer here.\<close>

definition bt_fetch :: "'q async_queue \<Rightarrow> ('q, 'w) bt_sys \<Rightarrow> ('q, 'w) bt_sys" where
  "bt_fetch Q s =
     (case bs_file s of
        None \<Rightarrow> s\<lparr>bs_end := Some Undefined\<rparr>
      | Some (fd, bytes) \<Rightarrow>
          (case mb_fetch_blk_io_trace bytes of
             Inl e \<Rightarrow> s\<lparr>bs_end := Some e\<rparr>
           | Inr (None, out, rest) \<Rightarrow>
               s\<lparr>bs_file := Some (fd, rest), bs_out := bs_out s @ out, bs_main := Bm_stop 0\<rparr>
           | Inr (Some t, out, rest) \<Rightarrow>
               bt_push Q (Ioreq t) (s\<lparr>bs_file := Some (fd, rest), bs_out := bs_out s @ out\<rparr>)))"

definition bt_push_stop ::
  "'q async_queue \<Rightarrow> mb_btreplay_option \<Rightarrow> nat \<Rightarrow> ('q, 'w) bt_sys \<Rightarrow> ('q, 'w) bt_sys" where
  "bt_push_stop Q opt n s =
     (if int n < ro_multi opt then bt_push Q Ioreq_stop (s\<lparr>bs_main := Bm_stop (Suc n)\<rparr>)
      else s\<lparr>bs_main := Bm_close\<rparr>)"

definition bt_fclose :: "('w, 'k) bt_kernel_scheme \<Rightarrow> ('q, 'w) bt_sys \<Rightarrow> ('q, 'w) bt_sys" where
  "bt_fclose K s =
     (case bs_file s of
        None \<Rightarrow> s\<lparr>bs_end := Some Undefined\<rparr>
      | Some (fd, bytes) \<Rightarrow>
          s\<lparr>bs_world := b_close K fd (bs_world s), bs_file := None, bs_main := Bm_join 0\<rparr>)"

text \<open>A join waits until the thread has ended.\<close>

definition bt_join :: "mb_btreplay_option \<Rightarrow> nat \<Rightarrow> ('q, 'w) bt_sys \<Rightarrow> ('q, 'w) bt_sys option" where
  "bt_join opt n s =
     (if int n < ro_multi opt
      then if n < length (bs_threads s) \<and> snd (bs_threads s ! n) = Bt_stopped
           then Some (s\<lparr>bs_main := Bm_join (Suc n)\<rparr>) else None
      else Some (s\<lparr>bs_main := Bm_done\<rparr>))"

definition bt_main_step ::
  "'q async_queue \<Rightarrow> ('w, 'k) bt_kernel_scheme \<Rightarrow> mb_btreplay_option \<Rightarrow> ('q, 'w) bt_sys \<Rightarrow>
     ('q, 'w) bt_sys option" where
  "bt_main_step Q K opt s =
     (case bs_main s of
        Bm_create n \<Rightarrow> Some (bt_create K opt n s)
      | Bm_open \<Rightarrow> Some (bt_fopen K opt s)
      | Bm_fetch \<Rightarrow> Some (bt_fetch Q s)
      | Bm_stop n \<Rightarrow> Some (bt_push_stop Q opt n s)
      | Bm_close \<Rightarrow> Some (bt_fclose K s)
      | Bm_join n \<Rightarrow> bt_join opt n s
      | Bm_done \<Rightarrow> None)"

subsection \<open>The consumers\<close>

definition bt_set :: "nat \<Rightarrow> bt_thread \<times> bt_phase \<Rightarrow> ('q, 'w) bt_sys \<Rightarrow> ('q, 'w) bt_sys" where
  "bt_set i x s = s\<lparr>bs_threads := (bs_threads s)[i := x]\<rparr>"

definition bt_open ::
  "('w, 'k) bt_kernel_scheme \<Rightarrow> (nat \<Rightarrow> nat \<Rightarrow> 8 word) \<Rightarrow> mb_btreplay_option \<Rightarrow> nat \<Rightarrow> bt_thread \<Rightarrow>
     ('q, 'w) bt_sys \<Rightarrow> ('q, 'w) bt_sys" where
  "bt_open K junk opt i th s =
     (let (fd, w) = b_open K (ro_target_path opt) (ro_direct opt) (bs_world s)
      in if fd = -1 then s\<lparr>bs_world := w, bs_end := Some Exit_Failure\<rparr>
         else bt_set i (th\<lparr>bw_fd := fd, bw_endpos := -1, bw_buf := bt_memalign junk (64 * 1024)\<rparr>, Bt_idle)
                (s\<lparr>bs_world := w\<rparr>))"

definition bt_pop :: "'q async_queue \<Rightarrow> nat \<Rightarrow> bt_thread \<Rightarrow> ('q, 'w) bt_sys \<Rightarrow> ('q, 'w) bt_sys option" where
  "bt_pop Q i th s =
     (case q_pop Q (bs_queue s) of
        None \<Rightarrow> None
      | Some (r, queue) \<Rightarrow>
          Some (bt_set i (th, case r of Ioreq_stop \<Rightarrow> Bt_closing | Ioreq t \<Rightarrow> Bt_busy t)
            (s\<lparr>bs_queue := queue, bs_popped := bs_popped s @ [r]\<rparr>)))"

text \<open>A transfer that never returns gives no step.\<close>

definition bt_io ::
  "('w, 'k) kernel_scheme \<Rightarrow> (nat \<Rightarrow> nat \<Rightarrow> 8 word) \<Rightarrow> mb_btreplay_option \<Rightarrow> nat \<Rightarrow> bt_thread \<Rightarrow> blk_io_trace \<Rightarrow>
     ('q, 'w) bt_sys \<Rightarrow> ('q, 'w) bt_sys option" where
  "bt_io K junk opt i th t s =
     (case bt_serve K junk opt t th (bs_world s) of
        None \<Rightarrow> None
      | Some (Inl e) \<Rightarrow> Some (s\<lparr>bs_end := Some e\<rparr>)
      | Some (Inr (th', out, w)) \<Rightarrow>
          Some (bt_set i (th', Bt_idle)
            (s\<lparr>bs_world := w, bs_out := bs_out s @ out, bs_served := bs_served s @ [(i, t)]\<rparr>)))"

definition bt_close ::
  "('w, 'k) bt_kernel_scheme \<Rightarrow> nat \<Rightarrow> bt_thread \<Rightarrow> ('q, 'w) bt_sys \<Rightarrow> ('q, 'w) bt_sys" where
  "bt_close K i th s = bt_set i (th, Bt_stopped) (s\<lparr>bs_world := b_close K (bw_fd th) (bs_world s)\<rparr>)"

definition bt_thread_step ::
  "'q async_queue \<Rightarrow> ('w, 'k) bt_kernel_scheme \<Rightarrow> (nat \<Rightarrow> nat \<Rightarrow> 8 word) \<Rightarrow> mb_btreplay_option \<Rightarrow> nat \<Rightarrow>
     ('q, 'w) bt_sys \<Rightarrow> ('q, 'w) bt_sys option" where
  "bt_thread_step Q K junk opt i s =
     (if i < length (bs_threads s)
      then case bs_threads s ! i of (th, ph) \<Rightarrow>
        (case ph of
           Bt_start \<Rightarrow> Some (bt_open K junk opt i th s)
         | Bt_idle \<Rightarrow> bt_pop Q i th s
         | Bt_busy t \<Rightarrow> bt_io K junk opt i th t s
         | Bt_closing \<Rightarrow> Some (bt_close K i th s)
         | Bt_stopped \<Rightarrow> None)
      else None)"

subsection \<open>The program\<close>

text \<open>A process that has ended makes no step.\<close>

inductive bt_step ::
  "'q async_queue \<Rightarrow> ('w, 'k) bt_kernel_scheme \<Rightarrow> (nat \<Rightarrow> nat \<Rightarrow> 8 word) \<Rightarrow> mb_btreplay_option \<Rightarrow>
     ('q, 'w) bt_sys \<Rightarrow> ('q, 'w) bt_sys \<Rightarrow> bool" for Q K junk opt where
  main: "bs_end s = None \<Longrightarrow> bt_main_step Q K opt s = Some s' \<Longrightarrow> bt_step Q K junk opt s s'"
| thread: "bs_end s = None \<Longrightarrow> bt_thread_step Q K junk opt i s = Some s' \<Longrightarrow> bt_step Q K junk opt s s'"

definition mb_btreplay_main ::
  "'q async_queue \<Rightarrow> string list \<Rightarrow> 'w \<Rightarrow> (mb_btreplay_option \<times> ('q, 'w) bt_sys) c_result" where
  "mb_btreplay_main Q argv w =
     (case mb_btreplay_parse_args argv of
        None \<Rightarrow> Inl Exit_Failure
      | Some opt \<Rightarrow>
          Inr (opt, \<lparr>bs_main = Bm_create 0, bs_file = None, bs_queue = q_new Q, bs_threads = [], bs_out = [],
                     bs_world = w, bs_end = None, bs_popped = [], bs_served = []\<rparr>))"

text \<open>What the main thread pushes for the traces \<open>ts\<close>.\<close>

definition bt_requests :: "mb_btreplay_option \<Rightarrow> blk_io_trace list \<Rightarrow> mb_btreplay_ioreq list" where
  "bt_requests opt ts = map Ioreq ts @ replicate (nat (ro_multi opt)) Ioreq_stop"

subsection \<open>The shape of a run\<close>

lemmas bt_main_defs = bt_main_step_def bt_create_def bt_fopen_def bt_fetch_def bt_push_stop_def
  bt_fclose_def bt_join_def bt_push_def

lemma bt_main_cases:
  assumes "bt_main_step Q K opt s = Some s'"
  obtains (created) n w where "bs_main s = Bm_create n" "int n < ro_multi opt" "b_create K (int n) (bs_world s) = (0, w)"
      "s' = s\<lparr>bs_world := w, bs_threads := bs_threads s @ [bt_new_thread n], bs_main := Bm_create (Suc n)\<rparr>"
  | (not_created) n ret w where "bs_main s = Bm_create n" "b_create K (int n) (bs_world s) = (ret, w)" "ret \<noteq> 0"
      "s' = s\<lparr>bs_world := w, bs_end := Some Exit_Failure\<rparr>"
  | (all_created) n where "bs_main s = Bm_create n" "\<not> int n < ro_multi opt" "s' = s\<lparr>bs_main := Bm_open\<rparr>"
  | (fopen) stream w where "bs_main s = Bm_open" "b_fopen K (ro_btdump_path opt) (bs_world s) = (stream, w)"
      "s' = s\<lparr>bs_world := w, bs_file := stream, bs_main := Bm_fetch\<rparr>"
  | (no_file) "bs_main s = Bm_fetch" "bs_file s = None" "s' = s\<lparr>bs_end := Some Undefined\<rparr>"
  | (bad_record) fd bytes e where "bs_main s = Bm_fetch" "bs_file s = Some (fd, bytes)"
      "mb_fetch_blk_io_trace bytes = Inl e" "s' = s\<lparr>bs_end := Some e\<rparr>"
  | (last_record) fd bytes out rest where "bs_main s = Bm_fetch" "bs_file s = Some (fd, bytes)"
      "mb_fetch_blk_io_trace bytes = Inr (None, out, rest)"
      "s' = s\<lparr>bs_file := Some (fd, rest), bs_out := bs_out s @ out, bs_main := Bm_stop 0\<rparr>"
  | (one_record) fd bytes t out rest where "bs_main s = Bm_fetch" "bs_file s = Some (fd, bytes)"
      "mb_fetch_blk_io_trace bytes = Inr (Some t, out, rest)"
      "s' = s\<lparr>bs_file := Some (fd, rest), bs_out := bs_out s @ out,
              bs_queue := q_push Q (Ioreq t) (bs_queue s)\<rparr>"
  | (stop) n where "bs_main s = Bm_stop n" "int n < ro_multi opt"
      "s' = s\<lparr>bs_main := Bm_stop (Suc n), bs_queue := q_push Q Ioreq_stop (bs_queue s)\<rparr>"
  | (all_stops) n where "bs_main s = Bm_stop n" "\<not> int n < ro_multi opt" "s' = s\<lparr>bs_main := Bm_close\<rparr>"
  | (no_fclose) "bs_main s = Bm_close" "bs_file s = None" "s' = s\<lparr>bs_end := Some Undefined\<rparr>"
  | (fclose) fd bytes where "bs_main s = Bm_close" "bs_file s = Some (fd, bytes)"
      "s' = s\<lparr>bs_world := b_close K fd (bs_world s), bs_file := None, bs_main := Bm_join 0\<rparr>"
  | (joined) n where "bs_main s = Bm_join n" "int n < ro_multi opt" "n < length (bs_threads s)"
      "snd (bs_threads s ! n) = Bt_stopped" "s' = s\<lparr>bs_main := Bm_join (Suc n)\<rparr>"
  | (all_joined) n where "bs_main s = Bm_join n" "\<not> int n < ro_multi opt" "s' = s\<lparr>bs_main := Bm_done\<rparr>"
proof (cases "bs_main s")
  case (Bm_create n)
  then show thesis using assms created [of n] not_created [of n] all_created [of n]
    by (auto simp: bt_main_step_def bt_create_def split: if_splits prod.splits)
next
  case Bm_open
  then show thesis using assms fopen by (auto simp: bt_main_step_def bt_fopen_def split: prod.splits)
next
  case Bm_fetch
  then show thesis using assms no_file bad_record last_record one_record
    by (auto simp: bt_main_step_def bt_fetch_def bt_push_def split: option.splits prod.splits sum.splits)
next
  case (Bm_stop n)
  then show thesis using assms stop [of n] all_stops [of n]
    by (auto simp: bt_main_step_def bt_push_stop_def bt_push_def split: if_splits)
next
  case Bm_close
  then show thesis using assms no_fclose fclose
    by (auto simp: bt_main_step_def bt_fclose_def split: option.splits prod.splits)
next
  case (Bm_join n)
  then show thesis using assms joined [of n] all_joined [of n]
    by (auto simp: bt_main_step_def bt_join_def split: if_splits)
next
  case Bm_done
  then show thesis using assms by (simp add: bt_main_step_def)
qed

lemma bt_thread_cases:
  assumes "bt_thread_step Q K junk opt i s = Some s'"
  obtains (opened) th fd w where "i < length (bs_threads s)" "bs_threads s ! i = (th, Bt_start)"
      "b_open K (ro_target_path opt) (ro_direct opt) (bs_world s) = (fd, w)" "fd \<noteq> -1"
      "s' = s\<lparr>bs_world := w, bs_threads := (bs_threads s)[i := (th\<lparr>bw_fd := fd, bw_endpos := -1,
              bw_buf := bt_memalign junk (64 * 1024)\<rparr>, Bt_idle)]\<rparr>"
  | (not_opened) th w where "i < length (bs_threads s)" "bs_threads s ! i = (th, Bt_start)"
      "b_open K (ro_target_path opt) (ro_direct opt) (bs_world s) = (-1, w)"
      "s' = s\<lparr>bs_world := w, bs_end := Some Exit_Failure\<rparr>"
  | (pop) th r queue where "i < length (bs_threads s)" "bs_threads s ! i = (th, Bt_idle)"
      "q_pop Q (bs_queue s) = Some (r, queue)"
      "s' = s\<lparr>bs_queue := queue, bs_popped := bs_popped s @ [r],
              bs_threads := (bs_threads s)[i := (th, case r of Ioreq_stop \<Rightarrow> Bt_closing | Ioreq t \<Rightarrow> Bt_busy t)]\<rparr>"
  | (served) th t th' out w where "i < length (bs_threads s)" "bs_threads s ! i = (th, Bt_busy t)"
      "bt_serve K junk opt t th (bs_world s) = Some (Inr (th', out, w))"
      "s' = s\<lparr>bs_world := w, bs_out := bs_out s @ out, bs_served := bs_served s @ [(i, t)],
              bs_threads := (bs_threads s)[i := (th', Bt_idle)]\<rparr>"
  | (ended) th t e where "i < length (bs_threads s)" "bs_threads s ! i = (th, Bt_busy t)"
      "bt_serve K junk opt t th (bs_world s) = Some (Inl e)" "s' = s\<lparr>bs_end := Some e\<rparr>"
  | (closed) th where "i < length (bs_threads s)" "bs_threads s ! i = (th, Bt_closing)"
      "s' = s\<lparr>bs_world := b_close K (bw_fd th) (bs_world s),
              bs_threads := (bs_threads s)[i := (th, Bt_stopped)]\<rparr>"
proof -
  have i: "i < length (bs_threads s)" using assms by (auto simp: bt_thread_step_def split: if_splits)
  obtain th ph where th: "bs_threads s ! i = (th, ph)" by fastforce
  show thesis
  proof (cases ph)
    case Bt_start
    then show thesis using assms i th opened not_opened
      by (auto simp: bt_thread_step_def bt_open_def bt_set_def split: if_splits prod.splits)
  next
    case Bt_idle
    then show thesis using assms i th pop
      by (auto simp: bt_thread_step_def bt_pop_def bt_set_def split: option.splits prod.splits)
  next
    case (Bt_busy t)
    then show thesis using assms i th served ended
      by (auto simp: bt_thread_step_def bt_io_def bt_set_def split: option.splits prod.splits sum.splits)
  next
    case Bt_closing
    then show thesis using assms i th closed
      by (auto simp: bt_thread_step_def bt_close_def bt_set_def)
  next
    case Bt_stopped
    then show thesis using assms i th by (simp add: bt_thread_step_def)
  qed
qed

text \<open>
  Where the main thread is tells how many consumers there are, whether the dump is open, and which
  consumers have stopped for certain.
\<close>

definition bt_shape :: "mb_btreplay_option \<Rightarrow> ('q, 'w) bt_sys \<Rightarrow> bool" where
  "bt_shape opt s \<longleftrightarrow>
     (let m = nat (ro_multi opt); n = length (bs_threads s); stream = bs_file s;
          stopped = (\<lambda>k. \<forall>i < k. snd (bs_threads s ! i) = Bt_stopped)
      in case bs_main s of
           Bm_create k \<Rightarrow> k \<le> m \<and> n = k \<and> stream = None
         | Bm_open \<Rightarrow> n = m \<and> stream = None
         | Bm_fetch \<Rightarrow> n = m
         | Bm_stop k \<Rightarrow> k \<le> m \<and> n = m \<and> stream \<noteq> None
         | Bm_close \<Rightarrow> n = m \<and> stream \<noteq> None
         | Bm_join k \<Rightarrow> k \<le> m \<and> n = m \<and> stream = None \<and> stopped k
         | Bm_done \<Rightarrow> n = m \<and> stream = None \<and> stopped m)"

lemma bt_thread_shape:
  assumes "bt_thread_step Q K junk opt i s = Some s'"
  shows "\<exists>x. bs_threads s' = (bs_threads s)[i := x]" and "snd (bs_threads s ! i) \<noteq> Bt_stopped"
    and "i < length (bs_threads s)" and "bs_main s' = bs_main s" and "bs_file s' = bs_file s"
proof -
  have same: "\<exists>x. xs = xs[i := x]" for xs :: "(bt_thread \<times> bt_phase) list"
    by (metis list_update_id)
  from assms have "(\<exists>x. bs_threads s' = (bs_threads s)[i := x]) \<and> snd (bs_threads s ! i) \<noteq> Bt_stopped \<and>
      i < length (bs_threads s) \<and> bs_main s' = bs_main s \<and> bs_file s' = bs_file s"
  proof (cases rule: bt_thread_cases)
    case not_opened
    then show ?thesis using same [of "bs_threads s"] by simp
  next
    case ended
    then show ?thesis using same [of "bs_threads s"] by simp
  qed (simp_all, blast+)
  then show "\<exists>x. bs_threads s' = (bs_threads s)[i := x]" and "snd (bs_threads s ! i) \<noteq> Bt_stopped"
    and "i < length (bs_threads s)" and "bs_main s' = bs_main s" and "bs_file s' = bs_file s" by blast+
qed

lemma bt_step_shape:
  assumes "bt_step Q K junk opt s s'" and "bt_shape opt s"
  shows "bt_shape opt s'"
  using assms(1)
proof cases
  case main
  from main(2) show ?thesis using assms(2)
    by (cases rule: bt_main_cases) (auto simp: bt_shape_def Let_def less_Suc_eq nth_append)
next
  case (thread i)
  note sh = bt_thread_shape [OF thread(2)]
  obtain x where x: "bs_threads s' = (bs_threads s)[i := x]" using sh(1) by blast
  have "snd (bs_threads s' ! j) = Bt_stopped" if "snd (bs_threads s ! j) = Bt_stopped" for j
    using that sh(2) x by (cases "j = i") auto
  then show ?thesis using assms(2) sh(4,5) x
    by (auto simp: bt_shape_def Let_def split: bt_main.splits)
qed

subsection \<open>Every descriptor is closed\<close>

text \<open>The books of the kernel on open descriptors.\<close>

definition bt_ledger :: "('w, 'k) bt_kernel_scheme \<Rightarrow> ('w \<Rightarrow> int multiset) \<Rightarrow> bool" where
  "bt_ledger K opens \<longleftrightarrow>
     (\<forall>path direct w. opens (snd (b_open K path direct w)) =
        (if fst (b_open K path direct w) = -1 then opens w
         else add_mset (fst (b_open K path direct w)) (opens w))) \<and>
     (\<forall>path w. opens (snd (b_fopen K path w)) =
        (case fst (b_fopen K path w) of None \<Rightarrow> opens w | Some (fd, bytes) \<Rightarrow> add_mset fd (opens w))) \<and>
     (\<forall>fd w. opens (b_close K fd w) = opens w - {#fd#}) \<and>
     (\<forall>n w. opens (snd (b_create K n w)) = opens w) \<and>
     (\<forall>fd sz w. opens (snd (snd (k_read K fd sz w))) = opens w) \<and>
     (\<forall>fd bytes w. opens (snd (k_write K fd bytes w)) = opens w) \<and>
     (\<forall>fd ofst w. opens (snd (k_lseek64 K fd ofst w)) = opens w)"

text \<open>A consumer has its descriptor from its \<open>open\<close> to its \<open>close\<close>; so has the main thread.\<close>

definition bt_live :: "bt_phase \<Rightarrow> bool" where
  "bt_live ph \<longleftrightarrow> ph \<noteq> Bt_start \<and> ph \<noteq> Bt_stopped"

definition bt_held :: "(bt_thread \<times> bt_phase) list \<Rightarrow> int multiset" where
  "bt_held ths = sum_list (map (\<lambda>x. if bt_live (snd x) then {#bw_fd (fst x)#} else {#}) ths)"

definition bt_dump_held :: "('q, 'w) bt_sys \<Rightarrow> int multiset" where
  "bt_dump_held s = (case bs_file s of None \<Rightarrow> {#} | Some (fd, bytes) \<Rightarrow> {#fd#})"

lemma bt_live_simps [simp]:
  "\<not> bt_live Bt_start" "bt_live Bt_idle" "bt_live (Bt_busy t)" "bt_live Bt_closing" "\<not> bt_live Bt_stopped"
  by (simp_all add: bt_live_def)

text \<open>What a list update does to a sum over the list.\<close>

lemma sum_list_upd:
  fixes f :: "'a \<Rightarrow> 'b :: comm_monoid_add"
  assumes "i < length xs"
  shows "sum_list (map f (xs[i := x])) + f (xs ! i) = sum_list (map f xs) + f x"
  using assms
proof (induction xs arbitrary: i)
  case (Cons y ys)
  then show ?case by (cases i) (auto simp: ac_simps)
qed simp

lemma bt_held_upd:
  assumes "i < length ths"
  shows "bt_held (ths[i := x]) + (if bt_live (snd (ths ! i)) then {#bw_fd (fst (ths ! i))#} else {#}) =
    bt_held ths + (if bt_live (snd x) then {#bw_fd (fst x)#} else {#})"
  unfolding bt_held_def by (rule sum_list_upd [OF assms])

lemma bt_held_start [simp]: "bt_held (ths @ [bt_new_thread n]) = bt_held ths"
  by (simp add: bt_held_def bt_new_thread_def)

lemma bt_held_stopped: "\<forall>i < length ths. snd (ths ! i) = Bt_stopped \<Longrightarrow> bt_held ths = {#}"
proof -
  assume "\<forall>i < length ths. snd (ths ! i) = Bt_stopped"
  then have "map (\<lambda>x. if bt_live (snd x) then {#bw_fd (fst x)#} else {#}) ths = map (\<lambda>x. {#}) ths"
    by (auto simp: list_eq_iff_nth_eq)
  then show ?thesis by (simp only: bt_held_def) (simp add: sum_list_triv)
qed

lemma bt_serve_ledger:
  assumes "bt_serve K junk opt t th w = Some (Inr (th', out, w'))" and "bt_ledger K opens"
  shows "opens w' = opens w \<and> bw_fd th' = bw_fd th"
proof (cases "bt_is_issue t")
  case True
  define w1 where "w1 = (if bt_ofst t \<noteq> bw_endpos th then snd (k_lseek64 K (bw_fd th) (bt_ofst t) w) else w)"
  have w1: "opens w1 = opens w" using assms(2) by (simp add: w1_def bt_ledger_def)
  have trans: "transp (\<lambda>w w'. opens w' = opens w)" by (simp add: transp_def)
  obtain buf buf' where tr: "bt_transfer K (bw_fd th) t buf w1 = Some (Inr (buf', w'))"
    and th': "bw_fd th' = bw_fd th"
    using assms(1) True by (auto simp: bt_serve_def Let_def w1_def [symmetric] bind_co_eq_Inr)
  have "opens w' = opens w1"
  proof (cases "bt_is_write t")
    case True
    then have "writeall_loop K (bw_fd th) True buf 0 (bt_size t) w1 = Some (Inr w')"
      using tr by (auto simp: bt_transfer_def mb_writeall_def bind_c_eq_Inr bind_co_eq_Inr split: option.splits)
    from writeall_loop_rel [OF this _ trans] show ?thesis using assms(2) by (simp add: bt_ledger_def)
  next
    case False
    then have "readall_loop K (bw_fd th) True buf 0 (bt_size t) w1 = Some (Inr (buf', w'))"
      using tr by (auto simp: bt_transfer_def mb_readall_def bind_c_eq_Inr bind_co_eq_Inr split: option.splits)
    from readall_loop_rel [OF this _ trans] show ?thesis using assms(2) by (simp add: bt_ledger_def)
  qed
  then show ?thesis using w1 th' by simp
qed (use assms(1) in \<open>simp add: bt_serve_def\<close>)

lemma bt_step_held:
  assumes "bt_step Q K junk opt s s'" and "bt_ledger K opens"
    and "opens (bs_world s) = base + bt_held (bs_threads s) + bt_dump_held s" and "bt_shape opt s"
  shows "opens (bs_world s') = base + bt_held (bs_threads s') + bt_dump_held s'"
  using assms(1)
proof cases
  case main
  from main(2) show ?thesis
  proof (cases rule: bt_main_cases)
    case (created n w)
    then have "opens w = opens (bs_world s)" using assms(2) unfolding bt_ledger_def by (metis snd_conv)
    then show ?thesis using created assms(3) by (simp add: bt_dump_held_def)
  next
    case (not_created n ret w)
    then have "opens w = opens (bs_world s)" using assms(2) unfolding bt_ledger_def by (metis snd_conv)
    then show ?thesis using not_created assms(3) by (simp add: bt_dump_held_def)
  next
    case (fopen stream w)
    then have "opens w = (case stream of None \<Rightarrow> opens (bs_world s) | Some (fd, bytes) \<Rightarrow> add_mset fd (opens (bs_world s)))"
      using assms(2) unfolding bt_ledger_def by (metis fst_conv snd_conv)
    moreover have "bs_file s = None" using fopen(1) assms(4) by (simp add: bt_shape_def Let_def)
    ultimately show ?thesis using fopen assms(3) by (auto simp: bt_dump_held_def split: option.splits)
  next
    case (fclose fd bytes)
    then show ?thesis using assms(2,3) by (simp add: bt_dump_held_def bt_ledger_def)
  qed (use assms(3) in \<open>simp_all add: bt_dump_held_def\<close>)
next
  case (thread i)
  from thread(2) show ?thesis
  proof (cases rule: bt_thread_cases)
    case (opened th fd w)
    then have "opens w = add_mset fd (opens (bs_world s))"
      using assms(2) unfolding bt_ledger_def by (metis fst_conv snd_conv)
    then show ?thesis using opened assms(3) bt_held_upd [OF opened(1), of "(th\<lparr>bw_fd := fd, bw_endpos := -1,
              bw_buf := bt_memalign junk (64 * 1024)\<rparr>, Bt_idle)"] by (simp add: bt_dump_held_def)
  next
    case (not_opened th w)
    then have "opens w = opens (bs_world s)" using assms(2) unfolding bt_ledger_def by (metis fst_conv snd_conv)
    then show ?thesis using not_opened assms(3) by (simp add: bt_dump_held_def)
  next
    case (pop th r queue)
    let ?x = "(th, case r of Ioreq_stop \<Rightarrow> Bt_closing | Ioreq t \<Rightarrow> Bt_busy t)"
    have "bt_held ((bs_threads s)[i := ?x]) = bt_held (bs_threads s)"
      using bt_held_upd [OF pop(1), of ?x] pop(2) by (cases r) simp_all
    then show ?thesis using pop assms(3) by (simp add: bt_dump_held_def)
  next
    case (served th t th' out w)
    have "bt_held ((bs_threads s)[i := (th', Bt_idle)]) = bt_held (bs_threads s)"
      using bt_held_upd [OF served(1), of "(th', Bt_idle)"] served(2) bt_serve_ledger [OF served(3) assms(2)] by simp
    then show ?thesis using served assms(3) bt_serve_ledger [OF served(3) assms(2)] by (simp add: bt_dump_held_def)
  next
    case (closed th)
    have "bt_held (bs_threads s) = add_mset (bw_fd th) (bt_held ((bs_threads s)[i := (th, Bt_stopped)]))"
      using bt_held_upd [OF closed(1), of "(th, Bt_stopped)"] closed(2) by simp
    then show ?thesis using closed assms(2,3) by (simp add: bt_dump_held_def bt_ledger_def)
  qed (use assms(3) in \<open>simp_all add: bt_dump_held_def\<close>)
qed

lemma bt_steps_held:
  "(bt_step Q K junk opt ^^ k) s s' \<Longrightarrow> bt_ledger K opens \<Longrightarrow> bt_shape opt s \<Longrightarrow>
   opens (bs_world s) = base + bt_held (bs_threads s) + bt_dump_held s \<Longrightarrow>
   opens (bs_world s') = base + bt_held (bs_threads s') + bt_dump_held s' \<and> bt_shape opt s'"
proof (induction k arbitrary: s')
  case (Suc k)
  then obtain s1 where "(bt_step Q K junk opt ^^ k) s s1" "bt_step Q K junk opt s1 s'" by auto
  then show ?case using Suc bt_step_held bt_step_shape by blast
qed simp

lemma btreplay_main_init:
  assumes "mb_btreplay_main Q argv w = Inr (opt, s0)"
  shows "s0 = \<lparr>bs_main = Bm_create 0, bs_file = None, bs_queue = q_new Q, bs_threads = [], bs_out = [],
    bs_world = w, bs_end = None, bs_popped = [], bs_served = []\<rparr>"
    and "bt_shape opt s0"
  using assms by (auto simp: mb_btreplay_main_def bt_shape_def split: option.splits)

subsection \<open>Every request is served exactly once\<close>

definition bt_busy :: "(bt_thread \<times> bt_phase) list \<Rightarrow> blk_io_trace multiset" where
  "bt_busy ths = sum_list (map (\<lambda>x. case snd x of Bt_busy t \<Rightarrow> {#t#} | _ \<Rightarrow> {#}) ths)"

definition bt_stops :: "(bt_thread \<times> bt_phase) list \<Rightarrow> nat" where
  "bt_stops ths = sum_list (map (\<lambda>x. if snd x = Bt_closing \<or> snd x = Bt_stopped then 1 else 0) ths)"

definition bt_due :: "(bt_thread \<times> bt_phase) list \<Rightarrow> nat" where
  "bt_due ths = sum_list (map (\<lambda>x. if snd x = Bt_idle \<or> snd x = Bt_stopped then 0 else 1) ths)"

lemma bt_sums_upd:
  assumes "i < length ths"
  shows "bt_busy (ths[i := x]) + (case snd (ths ! i) of Bt_busy t \<Rightarrow> {#t#} | _ \<Rightarrow> {#}) =
      bt_busy ths + (case snd x of Bt_busy t \<Rightarrow> {#t#} | _ \<Rightarrow> {#})"
    and "bt_stops (ths[i := x]) + (if snd (ths ! i) = Bt_closing \<or> snd (ths ! i) = Bt_stopped then 1 else 0) =
      bt_stops ths + (if snd x = Bt_closing \<or> snd x = Bt_stopped then 1 else 0)"
    and "bt_due (ths[i := x]) + (if snd (ths ! i) = Bt_idle \<or> snd (ths ! i) = Bt_stopped then 0 else 1) =
      bt_due ths + (if snd x = Bt_idle \<or> snd x = Bt_stopped then 0 else 1)"
  unfolding bt_busy_def bt_stops_def bt_due_def by (rule sum_list_upd [OF assms])+

lemma bt_sums_start [simp]:
  "bt_busy (ths @ [bt_new_thread n]) = bt_busy ths" "bt_stops (ths @ [bt_new_thread n]) = bt_stops ths"
  "bt_due (ths @ [bt_new_thread n]) = Suc (bt_due ths)"
  by (simp_all add: bt_busy_def bt_stops_def bt_due_def bt_new_thread_def)

lemma bt_sums_nil [simp]: "bt_busy [] = {#}" "bt_stops [] = 0" "bt_due [] = 0"
  by (simp_all add: bt_busy_def bt_stops_def bt_due_def)

definition bt_traces :: "mb_btreplay_ioreq list \<Rightarrow> blk_io_trace list" where
  "bt_traces rs = concat (map (\<lambda>r. case r of Ioreq_stop \<Rightarrow> [] | Ioreq t \<Rightarrow> [t]) rs)"

text \<open>What the main thread has still to push, of the traces \<open>ts\<close> and the stop entries.\<close>

definition bt_todo :: "mb_btreplay_option \<Rightarrow> blk_io_trace list \<Rightarrow> mb_btreplay_ioreq list \<Rightarrow> ('q, 'w) bt_sys \<Rightarrow> bool" where
  "bt_todo opt ts todo s \<longleftrightarrow>
     (case bs_main s of
        Bm_create n \<Rightarrow> todo = bt_requests opt ts
      | Bm_open \<Rightarrow> todo = bt_requests opt ts
      | Bm_fetch \<Rightarrow> \<exists>fd bytes ts' out. bs_file s = Some (fd, bytes) \<and> fetch_all bytes = Inr (ts', out) \<and>
                      todo = bt_requests opt ts'
      | Bm_stop n \<Rightarrow> todo = replicate (nat (ro_multi opt) - n) Ioreq_stop
      | _ \<Rightarrow> todo = [])"

text \<open>
  The invariant: what was popped, is queued and is still to be pushed are the requests in their
  order; the threads that stop are as many as the stop entries popped; and the requests
  popped are those served and those being served.
\<close>

definition bt_inv ::
  "('q \<Rightarrow> mb_btreplay_ioreq list) \<Rightarrow> mb_btreplay_option \<Rightarrow> blk_io_trace list \<Rightarrow> mb_btreplay_ioreq list \<Rightarrow>
     ('q, 'w) bt_sys \<Rightarrow> bool" where
  "bt_inv items opt ts todo s \<longleftrightarrow>
     bt_shape opt s \<and> bt_todo opt ts todo s \<and>
     bs_popped s @ items (bs_queue s) @ todo = bt_requests opt ts \<and>
     bt_stops (bs_threads s) = count_list (bs_popped s) Ioreq_stop \<and>
     mset (bt_traces (bs_popped s)) = mset (map snd (bs_served s)) + bt_busy (bs_threads s)"

text \<open>The steps left: of the main thread besides its pushes, and in all.\<close>

definition bt_main_due :: "nat \<Rightarrow> bt_main \<Rightarrow> nat" where
  "bt_main_due m main =
     (case main of Bm_create n \<Rightarrow> 2 * (m - n) + m + 6 | Bm_open \<Rightarrow> m + 5 | Bm_fetch \<Rightarrow> m + 4 | Bm_stop n \<Rightarrow> m + 3
      | Bm_close \<Rightarrow> m + 2 | Bm_join n \<Rightarrow> m - n + 1 | Bm_done \<Rightarrow> 0)"

definition bt_left ::
  "('q \<Rightarrow> mb_btreplay_ioreq list) \<Rightarrow> mb_btreplay_option \<Rightarrow> mb_btreplay_ioreq list \<Rightarrow> ('q, 'w) bt_sys \<Rightarrow> nat" where
  "bt_left items opt todo s =
     bt_main_due (nat (ro_multi opt)) (bs_main s) + 3 * length todo + 2 * length (items (bs_queue s)) +
     bt_due (bs_threads s)"

lemma fifo_push: "fifo_queue Q items \<Longrightarrow> items (q_push Q r q) = items q @ [r]"
  by (simp add: fifo_queue_def)

lemma fifo_pop:
  assumes "fifo_queue Q items"
  shows "q_pop Q q = None \<longleftrightarrow> items q = []" and "q_pop Q q = Some (r, q') \<Longrightarrow> items q = r # items q'"
proof -
  have law: "case q_pop Q q of None \<Rightarrow> items q = [] | Some (r, q') \<Rightarrow> items q = r # items q'"
    using assms by (simp add: fifo_queue_def)
  then show "q_pop Q q = None \<longleftrightarrow> items q = []" by (cases "q_pop Q q") auto
  show "items q = r # items q'" if "q_pop Q q = Some (r, q')" using law that by simp
qed

text \<open>The dump can be opened, holds \<open>bytes\<close>, and nobody writes it meanwhile.\<close>

definition bt_dump :: "('w, 'k) bt_kernel_scheme \<Rightarrow> string \<Rightarrow> 8 word list \<Rightarrow> bool" where
  "bt_dump K path bytes \<longleftrightarrow> (\<forall>w. \<exists>fd. fst (b_fopen K path w) = Some (fd, bytes))"

lemma bt_main_inv:
  assumes "bt_main_step Q K opt s = Some s'" and "bs_end s' = None" and "bs_end s = None"
    and "bt_inv items opt ts todo s" and "bt_shape opt s'" and "fifo_queue Q items"
    and "bt_dump K (ro_btdump_path opt) bytes" and "fetch_all bytes = Inr (ts, out)"
  shows "\<exists>todo'. bt_inv items opt ts todo' s' \<and> bt_left items opt todo' s' < bt_left items opt todo s"
proof -
  note inv = assms(4) [unfolded bt_inv_def]
  have todo: "bt_todo opt ts todo s" and sh: "bt_shape opt s" using inv by simp_all
  have keep: "\<exists>todo'. bt_inv items opt ts todo' s' \<and> bt_left items opt todo' s' < bt_left items opt todo s"
    if "bt_todo opt ts todo s'" "bs_queue s' = bs_queue s" "bs_popped s' = bs_popped s" "bs_served s' = bs_served s"
      "bt_busy (bs_threads s') = bt_busy (bs_threads s)" "bt_stops (bs_threads s') = bt_stops (bs_threads s)"
      "bt_main_due (nat (ro_multi opt)) (bs_main s') + bt_due (bs_threads s') <
         bt_main_due (nat (ro_multi opt)) (bs_main s) + bt_due (bs_threads s)"
    using that inv assms(5) by (intro exI [of _ todo]) (simp add: bt_inv_def bt_left_def)
  have pushed: "\<exists>todo'. bt_inv items opt ts todo' s' \<and> bt_left items opt todo' s' < bt_left items opt todo s"
    if "todo = r # todo'" "bt_todo opt ts todo' s'" "bs_queue s' = q_push Q r (bs_queue s)" "bs_popped s' = bs_popped s"
      "bs_served s' = bs_served s" "bs_threads s' = bs_threads s"
      "bt_main_due (nat (ro_multi opt)) (bs_main s') \<le> bt_main_due (nat (ro_multi opt)) (bs_main s)" for r todo'
    using that inv assms(5) fifo_push [OF assms(6)] by (intro exI [of _ todo']) (simp add: bt_inv_def bt_left_def)
  from assms(1) show ?thesis
  proof (cases rule: bt_main_cases)
    case (created n w)
    have "n < nat (ro_multi opt)" using created(2) by linarith
    then show ?thesis using created todo by (intro keep) (auto simp: bt_todo_def bt_main_due_def)
  next
    case (all_created n)
    then show ?thesis using todo by (intro keep) (simp_all add: bt_todo_def bt_main_due_def)
  next
    case (fopen stream w)
    obtain fd where "stream = Some (fd, bytes)"
      using assms(7) fopen(2) unfolding bt_dump_def by (metis fst_conv)
    then show ?thesis using fopen todo assms(8) by (intro keep) (simp_all add: bt_todo_def bt_main_due_def)
  next
    case (last_record fd bytes' out' rest)
    then have "fetch_all bytes' = Inr ([], out')" by (subst fetch_all.simps) simp
    then show ?thesis using last_record todo
      by (intro keep) (simp_all add: bt_todo_def bt_main_due_def bt_requests_def)
  next
    case (one_record fd bytes' t out' rest)
    from todo one_record(1,2) obtain ts' out2 where all: "fetch_all bytes' = Inr (ts', out2)"
      "todo = bt_requests opt ts'" by (auto simp: bt_todo_def)
    then obtain ts2 out3 where "fetch_all rest = Inr (ts2, out3)" "ts' = t # ts2"
      using one_record(3) by (subst (asm) fetch_all.simps) (auto simp: bind_c_eq_Inr)
    then show ?thesis using one_record all(2)
      by (intro pushed [of "Ioreq t" "bt_requests opt ts2"]) (simp_all add: bt_todo_def bt_requests_def)
  next
    case (stop n)
    then have "n < nat (ro_multi opt)" by linarith
    then have "todo = Ioreq_stop # replicate (nat (ro_multi opt) - Suc n) Ioreq_stop"
      using stop(1) todo by (simp add: bt_todo_def Suc_diff_Suc flip: replicate_Suc)
    then show ?thesis using stop by (intro pushed) (simp_all add: bt_todo_def bt_main_due_def)
  next
    case (all_stops n)
    then show ?thesis using todo by (intro keep) (simp_all add: bt_todo_def bt_main_due_def)
  next
    case (fclose fd bytes')
    then show ?thesis using todo by (intro keep) (simp_all add: bt_todo_def bt_main_due_def)
  next
    case (joined n)
    then have "n < nat (ro_multi opt)" by linarith
    then show ?thesis using joined todo by (intro keep) (auto simp: bt_todo_def bt_main_due_def)
  next
    case (all_joined n)
    then show ?thesis using todo by (intro keep) (simp_all add: bt_todo_def bt_main_due_def)
  qed (use assms(2) in simp_all)
qed

lemma bt_thread_inv:
  assumes "bt_thread_step Q K junk opt i s = Some s'" and "bs_end s' = None"
    and "bt_inv items opt ts todo s" and "bt_shape opt s'" and "fifo_queue Q items"
  shows "bt_inv items opt ts todo s' \<and> bt_left items opt todo s' < bt_left items opt todo s"
proof -
  note inv = assms(3) [unfolded bt_inv_def]
  have todo: "bt_todo opt ts todo s'"
    using inv bt_thread_shape(4,5) [OF assms(1)] by (auto simp: bt_todo_def split: bt_main.splits)
  from assms(1) show ?thesis
  proof (cases rule: bt_thread_cases)
    case (opened th fd w)
    let ?x = "(th\<lparr>bw_fd := fd, bw_endpos := -1, bw_buf := bt_memalign junk (64 * 1024)\<rparr>, Bt_idle)"
    show ?thesis using inv opened assms(4) todo bt_sums_upd [OF opened(1), of ?x] by (simp add: bt_inv_def bt_left_def)
  next
    case (pop th r queue)
    let ?x = "(th, case r of Ioreq_stop \<Rightarrow> Bt_closing | Ioreq t \<Rightarrow> Bt_busy t)"
    show ?thesis using inv pop assms(4) todo bt_sums_upd [OF pop(1), of ?x] fifo_pop(2) [OF assms(5) pop(3)]
      by (cases r) (simp_all add: bt_inv_def bt_left_def bt_traces_def)
  next
    case (served th t th' out w)
    let ?x = "(th', Bt_idle)"
    show ?thesis using inv served assms(4) todo bt_sums_upd [OF served(1), of ?x] by (simp add: bt_inv_def bt_left_def)
  next
    case (closed th)
    let ?x = "(th, Bt_stopped)"
    show ?thesis using inv closed assms(4) todo bt_sums_upd [OF closed(1), of ?x] by (simp add: bt_inv_def bt_left_def)
  qed (use assms(2) in simp_all)
qed

subsection \<open>The target\<close>

text \<open>
  The documented behaviour of a target of \<open>tsize\<close> bytes that can be opened and works without
  errors. \<open>pos w fd\<close> is the position of a descriptor that is open on the target. A call of \<open>open\<close> or
  \<open>fopen\<close> gives a descriptor that is not open; a descriptor has a position of its own, which
  only its own calls move; a seek inside the target goes where it is told; a transfer inside the
  target makes progress, and moves the position by what it transferred.
\<close>

definition bt_target ::
  "('w, 'k) bt_kernel_scheme \<Rightarrow> ('w \<Rightarrow> int multiset) \<Rightarrow> ('w \<Rightarrow> int \<Rightarrow> int option) \<Rightarrow> string \<Rightarrow> int \<Rightarrow> bool" where
  "bt_target K opens pos path tsize \<longleftrightarrow>
     bt_ledger K opens \<and> tsize < 2 ^ 63 \<and>
     (\<forall>direct w. case b_open K path direct w of (fd, w') \<Rightarrow>
        fd \<noteq> -1 \<and> fd \<notin># opens w \<and> pos w' = (pos w)(fd := Some 0)) \<and>
     (\<forall>p w. case b_fopen K p w of (stream, w') \<Rightarrow>
        pos w' = pos w \<and> (\<forall>fd bytes. stream = Some (fd, bytes) \<longrightarrow> fd \<notin># opens w)) \<and>
     (\<forall>fd w. pos (b_close K fd w) = (pos w)(fd := None)) \<and>
     (\<forall>n w. case b_create K n w of (ret, w') \<Rightarrow> ret = 0 \<and> pos w' = pos w) \<and>
     (\<forall>fd a w. pos w fd \<noteq> None \<and> 0 \<le> a \<and> a \<le> tsize \<longrightarrow>
        pos (snd (k_lseek64 K fd a w)) = (pos w)(fd := Some a)) \<and>
     (\<forall>fd sz w p. pos w fd = Some p \<and> p + uint sz \<le> tsize \<longrightarrow>
        (case k_read K fd sz w of (ret, bytes, w') \<Rightarrow>
           0 \<le> ret \<and> ret \<le> uint sz \<and> (0 < sz \<longrightarrow> 0 < ret) \<and> pos w' = (pos w)(fd := Some (p + ret)))) \<and>
     (\<forall>fd bytes w p. pos w fd = Some p \<and> p + int (length bytes) \<le> tsize \<longrightarrow>
        (case k_write K fd bytes w of (ret, w') \<Rightarrow>
           0 \<le> ret \<and> ret \<le> int (length bytes) \<and> (bytes \<noteq> [] \<longrightarrow> 0 < ret) \<and>
           pos w' = (pos w)(fd := Some (p + ret))))"

text \<open>A request that lies in the target.\<close>

definition bt_inside :: "int \<Rightarrow> blk_io_trace \<Rightarrow> bool" where
  "bt_inside tsize t \<longleftrightarrow> 512 * uint (bt_sector t) + uint (bt_bytes t) \<le> tsize"

text \<open>The laws one by one: open, fopen, close, create, seek, read, write.\<close>

lemmas bt_target_laws =
  iffD1 [OF bt_target_def, THEN conjunct2, THEN conjunct2, THEN conjunct1]
  iffD1 [OF bt_target_def, THEN conjunct2, THEN conjunct2, THEN conjunct2, THEN conjunct1]
  iffD1 [OF bt_target_def, THEN conjunct2, THEN conjunct2, THEN conjunct2, THEN conjunct2, THEN conjunct1]
  iffD1 [OF bt_target_def, THEN conjunct2, THEN conjunct2, THEN conjunct2, THEN conjunct2, THEN conjunct2, THEN conjunct1]
  iffD1 [OF bt_target_def, THEN conjunct2, THEN conjunct2, THEN conjunct2, THEN conjunct2, THEN conjunct2, THEN conjunct2, THEN conjunct1]
  iffD1 [OF bt_target_def, THEN conjunct2, THEN conjunct2, THEN conjunct2, THEN conjunct2, THEN conjunct2, THEN conjunct2, THEN conjunct2, THEN conjunct1]
  iffD1 [OF bt_target_def, THEN conjunct2, THEN conjunct2, THEN conjunct2, THEN conjunct2, THEN conjunct2, THEN conjunct2, THEN conjunct2, THEN conjunct2]

lemma bt_target_read:
  assumes "bt_target K opens pos path tsize" and "pos w fd = Some p" and "p + uint sz \<le> tsize"
    and "k_read K fd sz w = (ret, bytes, w')"
  shows "0 \<le> ret" and "ret \<le> uint sz" and "0 < sz \<longrightarrow> 0 < ret" and "pos w' = (pos w)(fd := Some (p + ret))"
proof -
  have "case k_read K fd sz w of (ret, bytes, w') \<Rightarrow>
      0 \<le> ret \<and> ret \<le> uint sz \<and> (0 < sz \<longrightarrow> 0 < ret) \<and> pos w' = (pos w)(fd := Some (p + ret))"
    by (rule bt_target_laws(6) [OF assms(1), rule_format, OF conjI [OF assms(2,3)]])
  then show "0 \<le> ret" and "ret \<le> uint sz" and "0 < sz \<longrightarrow> 0 < ret" and "pos w' = (pos w)(fd := Some (p + ret))"
    using assms(4) by simp_all
qed

lemma bt_target_write:
  assumes "bt_target K opens pos path tsize" and "pos w fd = Some p" and "p + int (length bytes) \<le> tsize"
    and "k_write K fd bytes w = (ret, w')"
  shows "0 \<le> ret" and "ret \<le> int (length bytes)" and "bytes \<noteq> [] \<longrightarrow> 0 < ret"
    and "pos w' = (pos w)(fd := Some (p + ret))"
proof -
  have "case k_write K fd bytes w of (ret, w') \<Rightarrow>
      0 \<le> ret \<and> ret \<le> int (length bytes) \<and> (bytes \<noteq> [] \<longrightarrow> 0 < ret) \<and> pos w' = (pos w)(fd := Some (p + ret))"
    by (rule bt_target_laws(7) [OF assms(1), rule_format, OF conjI [OF assms(2,3)]])
  then show "0 \<le> ret" and "ret \<le> int (length bytes)" and "bytes \<noteq> [] \<longrightarrow> 0 < ret"
    and "pos w' = (pos w)(fd := Some (p + ret))" using assms(4) by simp_all
qed

text \<open>So the transfers return, in however many calls.\<close>

lemma readall_inside:
  assumes "bt_target K opens pos path tsize" and "pos w fd = Some p" and "p + uint sz \<le> tsize"
  shows "\<exists>buf' w'. readall_loop K fd True buf ofs sz w = Some (Inr (buf', w')) \<and>
    pos w' = (pos w)(fd := Some (p + uint sz))"
  using assms(2,3)
proof (induction "unat sz" arbitrary: sz ofs buf w p rule: less_induct)
  case less
  obtain ret bytes w1 where k: "k_read K fd sz w = (ret, bytes, w1)" by (metis prod_cases3)
  note l = bt_target_read [OF assms(1) less.prems k]
  note ch = chunk_left [OF l(1,2)]
  have step: "readall_loop K fd True buf ofs sz w =
      (if ret < uint sz then readall_loop K fd True (splice buf ofs bytes) (ofs + nat ret) (sz - word_of_int ret) w1
       else Some (Inr (splice buf ofs bytes, w1)))"
    using ch(1) by (subst readall_loop.simps) (simp add: k Let_def)
  show ?case
  proof (cases "ret < uint sz")
    case True
    let ?sz = "sz - word_of_int ret"
    have "0 < sz" using True l(1) by (simp add: word_less_def)
    then have "uint ?sz < uint sz" using l(3) ch(2) by simp
    then have lt: "unat ?sz < unat sz" unfolding word_less_def [symmetric] word_less_nat_alt .
    have "pos w1 fd = Some (p + ret)" "p + ret + uint ?sz \<le> tsize" using l(4) ch(2) less.prems(2) by simp_all
    from less.hyps [OF lt this] obtain buf' w' where
      "readall_loop K fd True (splice buf ofs bytes) (ofs + nat ret) ?sz w1 = Some (Inr (buf', w'))"
      "pos w' = (pos w1)(fd := Some (p + ret + uint ?sz))" by blast
    then show ?thesis using True l(4) ch(2) step by auto
  next
    case False
    then have "ret = uint sz" using l(2) by simp
    then show ?thesis using False l(4) step by simp
  qed
qed

lemma writeall_inside:
  assumes "bt_target K opens pos path tsize" and "pos w fd = Some p" and "p + uint sz \<le> tsize"
    and "ofs + unat sz \<le> length buf"
  shows "\<exists>w'. writeall_loop K fd True buf ofs sz w = Some (Inr w') \<and>
    pos w' = (pos w)(fd := Some (p + uint sz))"
  using assms(2-)
proof (induction "unat sz" arbitrary: sz ofs w p rule: less_induct)
  case less
  let ?bytes = "take (unat sz) (drop ofs buf)"
  have len: "int (length ?bytes) = uint sz" using less.prems(3) uint_nat [of sz] by simp
  obtain ret w1 where k: "k_write K fd ?bytes w = (ret, w1)" by fastforce
  have "p + int (length ?bytes) \<le> tsize" using less.prems(2) len by simp
  note l = bt_target_write [OF assms(1) less.prems(1) this k, unfolded len]
  note ch = chunk_left [OF l(1,2)]
  have step: "writeall_loop K fd True buf ofs sz w =
      (if ret < uint sz then writeall_loop K fd True buf (ofs + nat ret) (sz - word_of_int ret) w1
       else Some (Inr w1))"
    using ch(1) by (subst writeall_loop.simps) (simp add: k Let_def)
  show ?case
  proof (cases "ret < uint sz")
    case True
    let ?sz = "sz - word_of_int ret"
    have "0 < length ?bytes" using True l(1) len by linarith
    then have "?bytes \<noteq> []" by (rule length_greater_0_conv [THEN iffD1])
    then have "uint ?sz < uint sz" using l(3) ch(2) by simp
    then have lt: "unat ?sz < unat sz" unfolding word_less_def [symmetric] word_less_nat_alt .
    have "int (unat ?sz) = uint sz - ret" unfolding ch(2) [symmetric] by (rule uint_nat [symmetric])
    then have fits: "ofs + nat ret + unat ?sz \<le> length buf"
      using less.prems(3) l(1) True uint_nat [of sz] by linarith
    have "pos w1 fd = Some (p + ret)" "p + ret + uint ?sz \<le> tsize" using l(4) ch(2) less.prems(2) by simp_all
    from less.hyps [OF lt this fits] obtain w' where
      "writeall_loop K fd True buf (ofs + nat ret) ?sz w1 = Some (Inr w')"
      "pos w' = (pos w1)(fd := Some (p + ret + uint ?sz))" by blast
    then show ?thesis using True l(4) ch(2) step by auto
  next
    case False
    then have "ret = uint sz" using l(2) by simp
    then show ?thesis using False l(4) step by simp
  qed
qed

text \<open>Where a consumer is on the target: nowhere yet, or where its last request ended.\<close>

definition bt_at :: "('w \<Rightarrow> int multiset) \<Rightarrow> ('w \<Rightarrow> int \<Rightarrow> int option) \<Rightarrow> 'w \<Rightarrow> bt_thread \<Rightarrow> bool" where
  "bt_at opens pos w th \<longleftrightarrow> bw_fd th \<in># opens w \<and>
     (\<exists>p. pos w (bw_fd th) = Some p \<and> (bw_endpos th = -1 \<or> bw_endpos th = p))"

lemma bt_serve_inside:
  assumes "bt_target K opens pos path tsize" and "bt_at opens pos w th"
    and "bt_is_issue t \<longrightarrow> bt_inside tsize t"
  obtains th' out w' where "bt_serve K junk opt t th w = Some (Inr (th', out, w'))"
    and "bw_fd th' = bw_fd th" and "bt_at opens pos w' th'" and "opens w' = opens w"
    and "\<forall>fd. fd \<noteq> bw_fd th \<longrightarrow> pos w' fd = pos w fd"
proof (cases "bt_is_issue t")
  case False
  then show thesis using that [of th "[]" w] assms(2) by (simp add: bt_serve_def)
next
  case True
  have ledger: "bt_ledger K opens" using assms(1) by (simp add: bt_target_def)
  let ?fd = "bw_fd th" let ?buf = "bt_grow junk (bt_size t) (bw_buf th)"
  let ?fin = "512 * uint (bt_sector t) + uint (bt_bytes t)"
  have inside: "?fin \<le> tsize" "tsize < 2 ^ 63" using True assms(1,3) by (simp_all add: bt_inside_def bt_target_def)
  then have "bt_in_range t" unfolding bt_in_range_def by linarith
  note r = bt_in_range_ofst [OF this]
  define w1 where "w1 = (if bt_ofst t \<noteq> bw_endpos th then snd (k_lseek64 K ?fd (bt_ofst t) w) else w)"
  obtain p where p: "pos w ?fd = Some p" "bw_endpos th = -1 \<or> bw_endpos th = p"
    using assms(2) by (auto simp: bt_at_def)
  have nonneg: "0 \<le> bt_ofst t" "bt_ofst t \<le> tsize"
    using r(1) inside(1) uint_ge_0 [of "bt_sector t"] uint_ge_0 [of "bt_bytes t"] by linarith+
  have seek: "pos (snd (k_lseek64 K ?fd (bt_ofst t) w)) = (pos w)(?fd := Some (bt_ofst t))"
    using assms(1) p(1) nonneg unfolding bt_target_def by (metis option.distinct(1))
  have w1: "pos w1 = (pos w)(?fd := Some (bt_ofst t))"
  proof (cases "bt_ofst t = bw_endpos th")
    case True
    then have "bt_ofst t = p" using p(2) nonneg(1) by linarith
    then show ?thesis using True p(1) by (simp add: w1_def fun_upd_idem)
  qed (use seek in \<open>simp add: w1_def\<close>)
  have room: "pos w1 ?fd = Some (bt_ofst t)" "bt_ofst t + uint (bt_size t) \<le> tsize"
    using w1 r(1) inside(1) by (simp_all add: uint_bt_size)
  have fits: "0 + unat (bt_size t) \<le> length ?buf" by (simp add: bt_grow_def bt_memalign_def)
  obtain buf' w' where tr: "bt_transfer K ?fd t ?buf w1 = Some (Inr (buf', w'))"
    and w': "pos w' = (pos w1)(?fd := Some (bt_ofst t + uint (bt_size t)))"
  proof (cases "bt_is_write t")
    case True
    from writeall_inside [OF assms(1) room fits] obtain w' where
      "writeall_loop K ?fd True ?buf 0 (bt_size t) w1 = Some (Inr w')"
      "pos w' = (pos w1)(?fd := Some (bt_ofst t + uint (bt_size t)))" by blast
    then show ?thesis using that True by (simp add: bt_transfer_def mb_writeall_def)
  next
    case False
    from readall_inside [OF assms(1) room, of ?buf 0] obtain buf' w' where
      "readall_loop K ?fd True ?buf 0 (bt_size t) w1 = Some (Inr (buf', w'))"
      "pos w' = (pos w1)(?fd := Some (bt_ofst t + uint (bt_size t)))" by blast
    then show ?thesis using that False by (simp add: bt_transfer_def mb_readall_def)
  qed
  define th' where "th' = th\<lparr>bw_buf := buf', bw_endpos := sint (word_of_int (bt_ofst t) + bt_size t)\<rparr>"
  have serve: "bt_serve K junk opt t th w = Some (Inr (th', bt_show opt th t, w'))"
    using True tr by (simp add: bt_serve_def Let_def w1_def [symmetric] th'_def)
  have opens: "opens w' = opens w" and fd: "bw_fd th' = bw_fd th" using bt_serve_ledger [OF serve ledger] by simp_all
  have "bt_at opens pos w' th'"
    using assms(2) opens fd w' r uint_bt_size [of t] by (simp add: bt_at_def th'_def)
  then show thesis using that [OF serve fd _ opens] w' w1 by simp
qed

text \<open>
  The consumers that are on the target have descriptors of their own, which are not the one of the dump.
\<close>

definition bt_dev :: "('w \<Rightarrow> int multiset) \<Rightarrow> ('w \<Rightarrow> int \<Rightarrow> int option) \<Rightarrow> ('q, 'w) bt_sys \<Rightarrow> bool" where
  "bt_dev opens pos s \<longleftrightarrow>
     (\<forall>i < length (bs_threads s). bt_live (snd (bs_threads s ! i)) \<longrightarrow>
        bt_at opens pos (bs_world s) (fst (bs_threads s ! i)) \<and>
        (\<forall>fd bytes. bs_file s = Some (fd, bytes) \<longrightarrow> bw_fd (fst (bs_threads s ! i)) \<noteq> fd) \<and>
        (\<forall>j < length (bs_threads s). j \<noteq> i \<and> bt_live (snd (bs_threads s ! j)) \<longrightarrow>
           bw_fd (fst (bs_threads s ! j)) \<noteq> bw_fd (fst (bs_threads s ! i)))) \<and>
     (\<forall>fd bytes. bs_file s = Some (fd, bytes) \<longrightarrow> fd \<in># opens (bs_world s))"

lemma bt_dev_upd:
  assumes "bt_dev opens pos s" and "i < length (bs_threads s)"
    and "bs_threads s' = (bs_threads s)[i := (th', ph')]" and "bs_file s' = bs_file s"
    and "\<And>fd. fd \<in># opens (bs_world s) \<Longrightarrow> fd \<noteq> bw_fd th' \<Longrightarrow>
      fd \<in># opens (bs_world s') \<and> pos (bs_world s') fd = pos (bs_world s) fd"
    and "bt_live ph' \<Longrightarrow> bt_at opens pos (bs_world s') th'"
    and "bt_live (snd (bs_threads s ! i)) \<and> bw_fd th' = bw_fd (fst (bs_threads s ! i)) \<or>
      bw_fd th' \<notin># opens (bs_world s)"
  shows "bt_dev opens pos s'"
proof -
  let ?ths = "bs_threads s" and ?w = "bs_world s" and ?w' = "bs_world s'"
  have live: "bt_at opens pos ?w (fst (?ths ! j))" "\<forall>fd bytes. bs_file s = Some (fd, bytes) \<longrightarrow> bw_fd (fst (?ths ! j)) \<noteq> fd"
    "\<forall>k < length ?ths. k \<noteq> j \<and> bt_live (snd (?ths ! k)) \<longrightarrow> bw_fd (fst (?ths ! k)) \<noteq> bw_fd (fst (?ths ! j))"
    if "j < length ?ths" "bt_live (snd (?ths ! j))" for j
    using assms(1) that unfolding bt_dev_def by blast+
  have stream: "fd \<in># opens ?w" if "bs_file s = Some (fd, bytes)" for fd bytes
    using assms(1) that unfolding bt_dev_def by blast
  have other: "bw_fd (fst (?ths ! j)) \<noteq> bw_fd th'" if "j < length ?ths" "bt_live (snd (?ths ! j))" "j \<noteq> i" for j
    using assms(7)
  proof
    assume "bt_live (snd (?ths ! i)) \<and> bw_fd th' = bw_fd (fst (?ths ! i))"
    then show ?thesis using live(3) [OF assms(2)] that by simp
  next
    assume "bw_fd th' \<notin># opens ?w"
    then show ?thesis using live(1) [OF that(1,2)] unfolding bt_at_def by metis
  qed
  have mine: "fd \<noteq> bw_fd th'" if "bs_file s = Some (fd, bytes)" for fd bytes
    using assms(7)
  proof
    assume "bt_live (snd (?ths ! i)) \<and> bw_fd th' = bw_fd (fst (?ths ! i))"
    then show ?thesis using live(2) [OF assms(2)] that by auto
  next
    assume "bw_fd th' \<notin># opens ?w"
    then show ?thesis using stream [OF that] by metis
  qed
  have at: "bt_at opens pos ?w' (fst (?ths ! j))" if "j < length ?ths" "bt_live (snd (?ths ! j))" "j \<noteq> i" for j
    using live(1) [OF that(1,2)] other [OF that] assms(5) unfolding bt_at_def by metis
  have "bt_at opens pos ?w' (fst (bs_threads s' ! j)) \<and>
      (\<forall>fd bytes. bs_file s' = Some (fd, bytes) \<longrightarrow> bw_fd (fst (bs_threads s' ! j)) \<noteq> fd) \<and>
      (\<forall>k < length (bs_threads s'). k \<noteq> j \<and> bt_live (snd (bs_threads s' ! k)) \<longrightarrow>
         bw_fd (fst (bs_threads s' ! k)) \<noteq> bw_fd (fst (bs_threads s' ! j)))"
    if "j < length (bs_threads s')" "bt_live (snd (bs_threads s' ! j))" for j
  proof (cases "j = i")
    case True
    then show ?thesis using that assms(2-4,6) mine other by auto
  next
    case False
    then have j: "j < length ?ths" "bt_live (snd (?ths ! j))" using that assms(3) by simp_all
    then show ?thesis using False at live [OF j] other [OF j False] assms(2-4)
      by (auto simp: nth_list_update)
  qed
  moreover have "fd \<in># opens ?w'" if "bs_file s' = Some (fd, bytes)" for fd bytes
    using that assms(4,5) stream mine by simp
  ultimately show ?thesis unfolding bt_dev_def by blast
qed

lemma bt_busy_mem:
  assumes "i < length ths" and "ths ! i = (th, Bt_busy t)"
  shows "t \<in># bt_busy ths"
proof -
  have "bt_busy ths = add_mset t (bt_busy (ths[i := (th, Bt_idle)]))"
    using bt_sums_upd(1) [OF assms(1), of "(th, Bt_idle)"] assms(2) by simp
  then show ?thesis by (metis union_single_eq_member)
qed

lemma bt_thread_dev:
  assumes "bt_thread_step Q K junk opt i s = Some s'" and "bs_end s = None" and "bt_dev opens pos s"
    and "bt_target K opens pos (ro_target_path opt) tsize"
    and "\<And>t. t \<in># bt_busy (bs_threads s) \<Longrightarrow> bt_is_issue t \<longrightarrow> bt_inside tsize t"
  shows "bt_dev opens pos s' \<and> bs_end s' = None"
proof -
  have ledger: "bt_ledger K opens" using assms(4) by (simp add: bt_target_def)
  have live: "bt_at opens pos (bs_world s) (fst (bs_threads s ! i))"
    if "i < length (bs_threads s)" "bt_live (snd (bs_threads s ! i))"
    using assms(3) that unfolding bt_dev_def by blast
  note open' = bt_target_laws(1) [OF assms(4), rule_format, where direct = "ro_direct opt" and w = "bs_world s"]
  from assms(1) show ?thesis
  proof (cases rule: bt_thread_cases)
    case (opened th fd w)
    have fresh: "fd \<notin># opens (bs_world s)" "pos w = (pos (bs_world s))(fd := Some 0)"
      using open' opened(3) by simp_all
    have "opens w = add_mset fd (opens (bs_world s))"
      using ledger opened(3,4) unfolding bt_ledger_def by (metis fst_conv snd_conv)
    then have "bt_dev opens pos s'" using opened fresh
      by (intro bt_dev_upd [OF assms(3) opened(1)]) (auto simp: bt_at_def)
    then show ?thesis using opened assms(2) by simp
  next
    case (not_opened th w)
    then show ?thesis using open' by simp
  next
    case (pop th r queue)
    have "bt_at opens pos (bs_world s) th" using live pop(1,2) by simp
    then have "bt_dev opens pos s'" using pop by (intro bt_dev_upd [OF assms(3) pop(1)]) auto
    then show ?thesis using pop assms(2) by simp
  next
    case (served th t th' out w)
    have "t \<in># bt_busy (bs_threads s)"
      by (rule bt_busy_mem [OF served(1,2)])
    then have ok: "bt_is_issue t \<longrightarrow> bt_inside tsize t" by (rule assms(5))
    have "bt_at opens pos (bs_world s) th" using live served(1,2) by simp
    from bt_serve_inside [OF assms(4) this ok, of junk opt] served(3)
    have "bw_fd th' = bw_fd th" "bt_at opens pos w th'" "opens w = opens (bs_world s)"
      "\<forall>fd. fd \<noteq> bw_fd th \<longrightarrow> pos w fd = pos (bs_world s) fd" by (metis Inr_inject option.inject prod.inject)+
    then have "bt_dev opens pos s'" using served by (intro bt_dev_upd [OF assms(3) served(1)]) auto
    then show ?thesis using served assms(2) by simp
  next
    case (ended th t e)
    have "t \<in># bt_busy (bs_threads s)"
      by (rule bt_busy_mem [OF ended(1,2)])
    then have ok: "bt_is_issue t \<longrightarrow> bt_inside tsize t" by (rule assms(5))
    have "bt_at opens pos (bs_world s) th" using live ended(1,2) by simp
    from bt_serve_inside [OF assms(4) this ok, of junk opt] ended(3) show ?thesis by (metis Inl_Inr_False option.inject)
  next
    case (closed th)
    have "opens (b_close K (bw_fd th) (bs_world s)) = opens (bs_world s) - {#bw_fd th#}"
      using ledger by (simp add: bt_ledger_def)
    then have "bt_dev opens pos s'" using closed bt_target_laws(3) [OF assms(4)]
      by (intro bt_dev_upd [OF assms(3) closed(1)]) (auto simp: in_diff_count)
    then show ?thesis using closed assms(2) by simp
  qed
qed

lemma bt_dev_same:
  assumes "bt_dev opens pos s" and "bs_threads s' = bs_threads s" and "bs_file s' = bs_file s \<or> bs_file s' = None"
    and "opens (bs_world s') = opens (bs_world s)" and "pos (bs_world s') = pos (bs_world s)"
  shows "bt_dev opens pos s'"
  using assms unfolding bt_dev_def bt_at_def by (elim disjE) simp_all

lemma bt_main_dev:
  assumes "bt_main_step Q K opt s = Some s'" and "bs_end s = None" and "bt_dev opens pos s"
    and "bt_target K opens pos (ro_target_path opt) tsize"
    and "bt_inv items opt ts todo s"
  shows "bt_dev opens pos s' \<and> bs_end s' = None"
proof -
  have ledger: "bt_ledger K opens" using assms(4) by (simp add: bt_target_def)
  have sh: "bt_shape opt s" and todo: "bt_todo opt ts todo s" using assms(5) by (simp_all add: bt_inv_def)
  from assms(1) show ?thesis
  proof (cases rule: bt_main_cases)
    case (created n w)
    have w: "opens w = opens (bs_world s)" "pos w = pos (bs_world s)"
      using ledger created(3) bt_target_laws(4) [OF assms(4), rule_format, where n = "int n" and w = "bs_world s"]
      unfolding bt_ledger_def by (metis snd_conv, simp)
    show ?thesis using assms(2,3) created(4) w
      by (auto simp: bt_dev_def bt_at_def nth_append bt_new_thread_def less_Suc_eq)
  next
    case (not_created n ret w)
    then show ?thesis using bt_target_laws(4) [OF assms(4), rule_format, where n = "int n" and w = "bs_world s"] by simp
  next
    case (fopen stream w)
    note law = bt_target_laws(2) [OF assms(4), rule_format, where p = "ro_btdump_path opt" and w = "bs_world s"]
    have w: "pos w = pos (bs_world s)" "\<And>fd bytes. stream = Some (fd, bytes) \<Longrightarrow> fd \<notin># opens (bs_world s)"
      using law fopen(2) by auto
    have opens: "opens w = (case stream of None \<Rightarrow> opens (bs_world s) | Some (fd, bytes) \<Rightarrow> add_mset fd (opens (bs_world s)))"
      using ledger fopen(2) unfolding bt_ledger_def by (metis fst_conv snd_conv)
    then have more: "fd \<in># opens w" if "fd \<in># opens (bs_world s)" for fd
      using that by (auto split: option.splits)
    have none: "bs_file s = None" using sh fopen(1) by (simp add: bt_shape_def Let_def)
    show ?thesis using assms(2,3) fopen(3) w more opens none
      by (auto simp: bt_dev_def bt_at_def)
  next
    case no_file
    then show ?thesis using todo by (simp add: bt_todo_def)
  next
    case (bad_record fd bytes e)
    then obtain ts' out where "fetch_all bytes = Inr (ts', out)" using todo by (auto simp: bt_todo_def)
    then show ?thesis using bad_record(3) by (subst (asm) fetch_all.simps) simp
  next
    case (last_record fd bytes out rest)
    then show ?thesis using assms(2,3) by (auto simp: bt_dev_def)
  next
    case (one_record fd bytes t out rest)
    then show ?thesis using assms(2,3) by (auto simp: bt_dev_def)
  next
    case no_fclose
    then show ?thesis using sh by (simp add: bt_shape_def Let_def)
  next
    case (fclose fd bytes)
    have "opens (b_close K fd (bs_world s)) = opens (bs_world s) - {#fd#}"
      "pos (b_close K fd (bs_world s)) = (pos (bs_world s))(fd := None)"
      using ledger bt_target_laws(3) [OF assms(4)] by (simp_all add: bt_ledger_def)
    then show ?thesis using assms(2,3) fclose by (auto simp: bt_dev_def bt_at_def in_diff_count)
  qed (use assms(2) in \<open>auto intro!: bt_dev_same [OF assms(3)]\<close>)
qed

text \<open>All together, for every run on a target that holds the requests.\<close>

definition bt_ok ::
  "('q \<Rightarrow> mb_btreplay_ioreq list) \<Rightarrow> mb_btreplay_option \<Rightarrow> blk_io_trace list \<Rightarrow> ('w \<Rightarrow> int multiset) \<Rightarrow>
     ('w \<Rightarrow> int \<Rightarrow> int option) \<Rightarrow> mb_btreplay_ioreq list \<Rightarrow> ('q, 'w) bt_sys \<Rightarrow> bool" where
  "bt_ok items opt ts opens pos todo s \<longleftrightarrow>
     bt_inv items opt ts todo s \<and> bt_dev opens pos s \<and> bs_end s = None"

lemma bt_traces_requests: "bt_traces (bt_requests opt ts) = ts"
  by (induction ts) (simp_all add: bt_traces_def bt_requests_def)

lemma bt_busy_of_dump:
  assumes "bt_inv items opt ts todo s" and "t \<in># bt_busy (bs_threads s)"
  shows "t \<in> set ts"
proof -
  have "t \<in> set (bt_traces (bs_popped s))"
    using assms by (metis bt_inv_def set_mset_mset union_iff)
  then have "t \<in> set (bt_traces (bs_popped s @ items (bs_queue s) @ todo))" by (simp add: bt_traces_def)
  then show ?thesis using assms(1) by (simp add: bt_inv_def bt_traces_requests)
qed

lemma bt_step_ok:
  assumes "bt_step Q K junk opt s s'" and "bt_ok items opt ts opens pos todo s" and "fifo_queue Q items"
    and "bt_target K opens pos (ro_target_path opt) tsize"
    and "bt_dump K (ro_btdump_path opt) bytes" and "fetch_all bytes = Inr (ts, out)"
    and "\<forall>t \<in> set ts. bt_is_issue t \<longrightarrow> bt_inside tsize t"
  shows "\<exists>todo'. bt_ok items opt ts opens pos todo' s' \<and> bt_left items opt todo' s' < bt_left items opt todo s"
proof -
  have inv: "bt_inv items opt ts todo s" and dev: "bt_dev opens pos s" and run: "bs_end s = None"
    using assms(2) by (simp_all add: bt_ok_def)
  have sh: "bt_shape opt s'" using bt_step_shape [OF assms(1)] inv by (simp add: bt_inv_def)
  from assms(1) show ?thesis
  proof cases
    case main
    have "bt_dev opens pos s' \<and> bs_end s' = None" by (rule bt_main_dev [OF main(2) run dev assms(4) inv])
    then show ?thesis using bt_main_inv [OF main(2) _ run inv sh assms(3,5,6)] by (auto simp: bt_ok_def)
  next
    case (thread i)
    have "bt_dev opens pos s' \<and> bs_end s' = None"
      using bt_busy_of_dump [OF inv] assms(7) by (intro bt_thread_dev [OF thread(2) run dev assms(4)]) blast
    then show ?thesis using bt_thread_inv [OF thread(2) _ inv sh assms(3)] by (auto simp: bt_ok_def)
  qed
qed

lemma bt_steps_ok:
  "(bt_step Q K junk opt ^^ k) s s' \<Longrightarrow> bt_ok items opt ts opens pos todo s \<Longrightarrow> fifo_queue Q items \<Longrightarrow>
    bt_target K opens pos (ro_target_path opt) tsize \<Longrightarrow> bt_dump K (ro_btdump_path opt) bytes \<Longrightarrow>
    fetch_all bytes = Inr (ts, out) \<Longrightarrow> \<forall>t \<in> set ts. bt_is_issue t \<longrightarrow> bt_inside tsize t \<Longrightarrow>
    \<exists>todo'. bt_ok items opt ts opens pos todo' s' \<and> k + bt_left items opt todo' s' \<le> bt_left items opt todo s"
proof (induction k arbitrary: s')
  case (Suc k)
  then obtain s1 where s1: "(bt_step Q K junk opt ^^ k) s s1" "bt_step Q K junk opt s1 s'" by auto
  with Suc obtain todo1 where t1: "bt_ok items opt ts opens pos todo1 s1"
    "k + bt_left items opt todo1 s1 \<le> bt_left items opt todo s" by blast
  from bt_step_ok [OF s1(2) t1(1) Suc.prems(3-7)] obtain todo2 where
    "bt_ok items opt ts opens pos todo2 s'" "bt_left items opt todo2 s' < bt_left items opt todo1 s1" by blast
  with t1(2) show ?case by (intro exI [of _ todo2]) simp
qed auto

text \<open>When nobody can move, every thread has stopped and nothing is left.\<close>

lemma count_stop_requests: "count_list (bt_requests opt ts) Ioreq_stop = nat (ro_multi opt)"
proof -
  have "count_list (map Ioreq ts) Ioreq_stop = 0" by (induction ts) simp_all
  moreover have "count_list (replicate n Ioreq_stop) Ioreq_stop = n" for n by (induction n) simp_all
  ultimately show ?thesis by (simp add: bt_requests_def)
qed

lemma bt_stops_all: "bt_stops ths \<le> length ths"
    "bt_stops ths = length ths \<longleftrightarrow> (\<forall>x \<in> set ths. snd x = Bt_closing \<or> snd x = Bt_stopped)"
proof -
  have "bt_stops ths \<le> length ths \<and>
      (bt_stops ths = length ths \<longleftrightarrow> (\<forall>x \<in> set ths. snd x = Bt_closing \<or> snd x = Bt_stopped))"
    by (induction ths) (auto simp: bt_stops_def)
  then show "bt_stops ths \<le> length ths"
    "bt_stops ths = length ths \<longleftrightarrow> (\<forall>x \<in> set ths. snd x = Bt_closing \<or> snd x = Bt_stopped)" by blast+
qed

lemma bt_stuck_threads:
  assumes "\<not> (\<exists>s'. bt_step Q K junk opt s s')" and "bt_ok items opt ts opens pos todo s"
    and "fifo_queue Q items" and "bt_target K opens pos (ro_target_path opt) tsize"
    and "\<forall>t \<in> set ts. bt_is_issue t \<longrightarrow> bt_inside tsize t"
    and "i < length (bs_threads s)"
  shows "snd (bs_threads s ! i) = Bt_stopped \<or> snd (bs_threads s ! i) = Bt_idle \<and> items (bs_queue s) = []"
proof -
  have run: "bs_end s = None" and inv: "bt_inv items opt ts todo s" and dev: "bt_dev opens pos s"
    using assms(2) by (simp_all add: bt_ok_def)
  have none: "bt_thread_step Q K junk opt i s = None"
    using assms(1) bt_step.thread [of s Q K junk opt i, OF run] by (cases "bt_thread_step Q K junk opt i s") auto
  obtain th ph where th: "bs_threads s ! i = (th, ph)" by fastforce
  show ?thesis
  proof (cases ph)
    case Bt_idle
    then have "q_pop Q (bs_queue s) = None"
      using none assms(6) th by (auto simp: bt_thread_step_def bt_pop_def split: option.splits)
    then show ?thesis using fifo_pop(1) [OF assms(3)] th Bt_idle by auto
  next
    case (Bt_busy t)
    have "t \<in># bt_busy (bs_threads s)" using th Bt_busy by (intro bt_busy_mem [OF assms(6)]) simp
    then have ok: "bt_is_issue t \<longrightarrow> bt_inside tsize t" using bt_busy_of_dump [OF inv] assms(5) by blast
    have "bt_at opens pos (bs_world s) th" using dev assms(6) th Bt_busy unfolding bt_dev_def by force
    then obtain th' out w' where "bt_serve K junk opt t th (bs_world s) = Some (Inr (th', out, w'))"
      by (rule bt_serve_inside [OF assms(4) _ ok, of _ _ junk opt]) (rule that)
    then show ?thesis using none assms(6) th Bt_busy by (simp add: bt_thread_step_def bt_io_def)
  qed (use none assms(6) th in \<open>simp_all add: bt_thread_step_def\<close>)
qed

lemma bt_stuck_main:
  assumes "bt_main_step Q K opt s = None" and "bt_todo opt ts todo s"
  shows "todo = [] \<and> (bs_main s = Bm_done \<or> (\<exists>n. bs_main s = Bm_join n \<and> int n < ro_multi opt \<and>
    \<not> (n < length (bs_threads s) \<and> snd (bs_threads s ! n) = Bt_stopped)))"
  using assms by (auto simp: bt_main_step_def bt_join_def bt_todo_def split: bt_main.splits if_splits)

lemma bt_stuck_done:
  assumes "\<not> (\<exists>s'. bt_step Q K junk opt s s')" and "bt_ok items opt ts opens pos todo s"
    and "fifo_queue Q items" and "bt_target K opens pos (ro_target_path opt) tsize"
    and "\<forall>t \<in> set ts. bt_is_issue t \<longrightarrow> bt_inside tsize t" and "1 \<le> ro_multi opt"
  shows "bs_main s = Bm_done \<and> items (bs_queue s) = [] \<and> length (bs_threads s) = nat (ro_multi opt) \<and>
    (\<forall>(th, ph) \<in> set (bs_threads s). ph = Bt_stopped) \<and> bs_popped s = bt_requests opt ts \<and>
    mset (map snd (bs_served s)) = mset ts"
proof -
  let ?ths = "bs_threads s"
  have run: "bs_end s = None" and inv: "bt_inv items opt ts todo s" using assms(2) by (simp_all add: bt_ok_def)
  have all: "bs_popped s @ items (bs_queue s) @ todo = bt_requests opt ts" and sh: "bt_shape opt s"
    and stops: "bt_stops ?ths = count_list (bs_popped s) Ioreq_stop"
    and served: "mset (bt_traces (bs_popped s)) = mset (map snd (bs_served s)) + bt_busy ?ths"
    and td: "bt_todo opt ts todo s"
    using inv by (simp_all add: bt_inv_def)
  have "bt_main_step Q K opt s = None"
    using assms(1) bt_step.main [of s Q K opt, OF run] by (cases "bt_main_step Q K opt s") auto
  note main = bt_stuck_main [OF this td]
  have len: "length ?ths = nat (ro_multi opt)" using main sh by (auto simp: bt_shape_def Let_def)
  note ph = bt_stuck_threads [OF assms(1-5)]
  have queue: "items (bs_queue s) = []"
  proof (rule ccontr)
    assume q: "items (bs_queue s) \<noteq> []"
    then have "\<forall>x \<in> set ?ths. snd x = Bt_closing \<or> snd x = Bt_stopped" using ph by (metis in_set_conv_nth)
    then have "bt_stops ?ths = nat (ro_multi opt)" using bt_stops_all(2) len by metis
    then have "count_list (items (bs_queue s)) Ioreq_stop = 0"
      using stops count_stop_requests [of opt ts] main unfolding all [symmetric] by simp
    moreover have "last (items (bs_queue s)) = Ioreq_stop"
      using arg_cong [OF all, of last] q main assms(6) by (simp add: bt_requests_def)
    ultimately show False using q last_in_set [OF q] by (metis count_list_0_iff)
  qed
  have popped: "bs_popped s = bt_requests opt ts" using all main queue by simp
  then have "bt_stops ?ths = length ?ths" using stops len by (simp add: count_stop_requests)
  then have "\<forall>x \<in> set ?ths. snd x = Bt_closing \<or> snd x = Bt_stopped" using bt_stops_all(2) by metis
  then have stopped: "\<forall>i < length ?ths. snd (?ths ! i) = Bt_stopped" using ph by (metis bt_phase.distinct nth_mem)
  then have set: "\<forall>x \<in> set ?ths. snd x = Bt_stopped" by (metis in_set_conv_nth)
  have "bt_busy ?ths = sum_list (map (\<lambda>x. {#}) ?ths)"
    unfolding bt_busy_def using set by (intro arg_cong [of _ _ sum_list] map_cong) auto
  then have "bt_busy ?ths = {#}" by (simp add: sum_list_triv)
  moreover have "bs_main s = Bm_done" using main stopped len by auto
  ultimately show ?thesis
    using queue len set popped served by (auto simp: bt_traces_requests)
qed

text \<open>All of it, for a run from the start of the program.\<close>

lemma bt_replay:
  assumes "mb_btreplay_main Q argv w = Inr (opt, s0)" and "1 \<le> ro_multi opt" and "fifo_queue Q items"
    and "bt_dump K (ro_btdump_path opt) bytes" and "fetch_all bytes = Inr (ts, out)"
    and "bt_target K opens pos (ro_target_path opt) tsize"
    and "\<forall>t \<in> set ts. bt_is_issue t \<longrightarrow> bt_inside tsize t"
    and "(bt_step Q K junk opt ^^ k) s0 s"
  shows "k \<le> 3 * length ts + 6 * nat (ro_multi opt) + 6 \<and> bs_end s = None \<and>
    (\<not> (\<exists>s'. bt_step Q K junk opt s s') \<longrightarrow>
       bs_main s = Bm_done \<and> items (bs_queue s) = [] \<and> length (bs_threads s) = nat (ro_multi opt) \<and>
       (\<forall>(th, ph) \<in> set (bs_threads s). ph = Bt_stopped) \<and> bs_popped s = bt_requests opt ts \<and>
       mset (map snd (bs_served s)) = mset ts)"
proof -
  have new: "items (q_new Q) = []" using assms(3) by (simp add: fifo_queue_def)
  note s0 = btreplay_main_init [OF assms(1)]
  let ?all = "bt_requests opt ts"
  have "bt_ok items opt ts opens pos ?all s0"
    using new s0(2) by (simp add: s0(1) bt_ok_def bt_inv_def bt_dev_def bt_todo_def bt_traces_def)
  moreover have "bt_left items opt ?all s0 = 3 * length ts + 6 * nat (ro_multi opt) + 6"
    using new by (simp add: s0(1) bt_left_def bt_main_due_def bt_requests_def)
  ultimately obtain todo where "bt_ok items opt ts opens pos todo s" "k \<le> 3 * length ts + 6 * nat (ro_multi opt) + 6"
    using bt_steps_ok [OF assms(8) _ assms(3,6,4,5,7)] by fastforce
  then show ?thesis using bt_stuck_done [OF _ _ assms(3,6,7,2), of junk s todo] unfolding bt_ok_def by blast
qed

subsection \<open>Properties\<close>

text \<open>
  C10: the replay ends and serves every trace of the dump exactly once. For a program with at least one thread,
  on a dump whose requests lie in the target and a target that can be opened and works without
  errors, every run of the main thread and the consumers from the start of the program, in whatever order they take their
  steps, is at most \<open>3 n + 6 m + 6\<close> steps long for \<open>n\<close> traces and \<open>m\<close> threads, and never ends the process
  before. When nobody can move, the main thread has joined everybody, all threads have stopped, the
  queue is empty, the traces were taken from it in the order of the dump, and the requests
  served are the traces the dump holds, each as often as it occurs there.
\<close>

theorem btreplay_serves_all:
  assumes "mb_btreplay_main Q argv w = Inr (opt, s0)" and "1 \<le> ro_multi opt" and "fifo_queue Q items"
    and "bt_dump K (ro_btdump_path opt) bytes" and "fetch_all bytes = Inr (ts, out)"
    and "bt_target K opens pos (ro_target_path opt) tsize"
    and "\<forall>t \<in> set ts. bt_is_issue t \<longrightarrow> bt_inside tsize t"
    and "(bt_step Q K junk opt ^^ k) s0 s"
  shows "k \<le> 3 * length ts + 6 * nat (ro_multi opt) + 6 \<and> bs_end s = None \<and>
    (\<not> (\<exists>s'. bt_step Q K junk opt s s') \<longrightarrow>
       bs_main s = Bm_done \<and> items (bs_queue s) = [] \<and> length (bs_threads s) = nat (ro_multi opt) \<and>
       (\<forall>(th, ph) \<in> set (bs_threads s). ph = Bt_stopped) \<and> bs_popped s = bt_requests opt ts \<and>
       mset (map snd (bs_served s)) = mset ts)"
  using assms by (rule bt_replay)

text \<open>
  C12: the descriptors. On a kernel that keeps books of the open descriptors, at any moment of any run from
  the start of the program those that are open are the ones from before, one for each thread that
  has opened the target and not closed it yet, and the one of the dump from its \<open>fopen\<close> to its
  \<open>fclose\<close>; and when the main thread is done, only the ones from before are open.
\<close>

theorem btreplay_descriptors:
  assumes "mb_btreplay_main Q argv w = Inr (opt, s0)" and "bt_ledger K opens"
    and "(bt_step Q K junk opt ^^ k) s0 s"
  shows "opens (bs_world s) = opens w + bt_held (bs_threads s) + bt_dump_held s \<and>
    (bs_main s = Bm_done \<longrightarrow> opens (bs_world s) = opens w)"
proof -
  note s0 = btreplay_main_init [OF assms(1)]
  have "opens (bs_world s0) = opens w + bt_held (bs_threads s0) + bt_dump_held s0"
    by (simp add: s0(1) bt_held_def bt_dump_held_def)
  from bt_steps_held [OF assms(3,2) s0(2) this]
  have held: "opens (bs_world s) = opens w + bt_held (bs_threads s) + bt_dump_held s" and sh: "bt_shape opt s" by simp_all
  have "bt_held (bs_threads s) = {#} \<and> bt_dump_held s = {#}" if "bs_main s = Bm_done"
    using sh that bt_held_stopped [of "bs_threads s"] by (auto simp: bt_shape_def Let_def bt_dump_held_def)
  then show ?thesis using held by simp
qed

subsection \<open>A device\<close>

text \<open>
  A device that transfers what it is asked for and keeps its books: the open descriptors and the
  positions of those on the target. The dump holds one record.
\<close>

definition demo_queue :: "mb_btreplay_ioreq list async_queue" where
  "demo_queue =
     \<lparr>q_new = [], q_push = \<lambda>r q. q @ [r],
      q_pop = \<lambda>q. (case q of [] \<Rightarrow> None | r # q' \<Rightarrow> Some (r, q'))\<rparr>"

lemma demo_queue_fifo: "fifo_queue demo_queue (\<lambda>q. q)"
  by (simp add: fifo_queue_def demo_queue_def split: list.splits)

definition next_fd :: "int multiset \<Rightarrow> int" where
  "next_fd m = Max (insert 2 (set_mset m)) + 1"

definition books_bt :: "8 word list \<Rightarrow> (int multiset \<times> (int \<Rightarrow> int option)) bt_kernel" where
  "books_bt dump =
     \<lparr>k_read = \<lambda>fd sz (m, p). (uint sz, replicate (unat sz) 0, m, p(fd := map_option (\<lambda>a. a + uint sz) (p fd))),
      k_write = \<lambda>fd bytes (m, p). (int (length bytes), m, p(fd := map_option (\<lambda>a. a + int (length bytes)) (p fd))),
      k_pread64 = \<lambda>fd sz offset w. (uint sz, replicate (unat sz) 0, w),
      k_pwrite64 = \<lambda>fd bytes offset w. (int (length bytes), w),
      k_lseek64 = \<lambda>fd offset (m, p). (offset, m, p(fd := map_option (\<lambda>a. offset) (p fd))),
      k_gettimeofday = \<lambda>w. (\<lparr>tv_sec = 0, tv_usec = 0\<rparr>, w), k_usleep = \<lambda>usec w. w,
      b_open = \<lambda>path direct (m, p). (next_fd m, add_mset (next_fd m) m, p(next_fd m := Some 0)),
      b_close = \<lambda>fd (m, p). (m - {#fd#}, p(fd := None)),
      b_fopen = \<lambda>path (m, p). (Some (next_fd m, dump), add_mset (next_fd m) m, p),
      b_create = \<lambda>n w. (0, w)\<rparr>"

lemma next_fd_new: "next_fd m \<notin># m" "next_fd m \<noteq> -1"
proof -
  have le: "x < next_fd m" if "x \<in> insert 2 (set_mset m)" for x
    using that Max_ge [of "insert 2 (set_mset m)" x] by (auto simp: next_fd_def)
  show "next_fd m \<notin># m" using le by blast
  show "next_fd m \<noteq> -1" using le [of 2] by simp
qed

lemma books_bt_ledger: "bt_ledger (books_bt dump) fst"
  using next_fd_new by (simp add: bt_ledger_def books_bt_def case_prod_beta)

lemma books_bt_target: "bt_target (books_bt dump) fst snd path (2 ^ 40)"
  using books_bt_ledger next_fd_new
  by (auto simp: bt_target_def books_bt_def case_prod_beta word_less_def)

lemma books_bt_dump: "bt_dump (books_bt dump) path dump"
  by (simp add: bt_dump_def books_bt_def case_prod_beta)

text \<open>A schedule, and the run it gives: \<open>None\<close> is a step of the main thread.\<close>

primrec bt_run ::
  "'q async_queue \<Rightarrow> ('w, 'k) bt_kernel_scheme \<Rightarrow> (nat \<Rightarrow> nat \<Rightarrow> 8 word) \<Rightarrow> mb_btreplay_option \<Rightarrow>
     nat option list \<Rightarrow> ('q, 'w) bt_sys \<Rightarrow> ('q, 'w) bt_sys option" where
  "bt_run Q K junk opt [] s = Some s"
| "bt_run Q K junk opt (a # as) s =
     (if bs_end s = None
      then Option.bind (case a of None \<Rightarrow> bt_main_step Q K opt s | Some i \<Rightarrow> bt_thread_step Q K junk opt i s)
             (bt_run Q K junk opt as)
      else None)"

lemma bt_run_steps: "bt_run Q K junk opt as s = Some s' \<Longrightarrow> (bt_step Q K junk opt ^^ length as) s s'"
proof (induction as arbitrary: s)
  case (Cons a as)
  then obtain s1 where s1: "bt_run Q K junk opt as s1 = Some s'" "bs_end s = None"
    "(case a of None \<Rightarrow> bt_main_step Q K opt s | Some i \<Rightarrow> bt_thread_step Q K junk opt i s) = Some s1"
    by (auto simp: bind_eq_Some_conv split: if_splits)
  then have "bt_step Q K junk opt s s1" by (auto split: option.splits intro: bt_step.intros)
  from relpowp_Suc_I2 [of "bt_step Q K junk opt", OF this Cons.IH [OF s1(1)]] show ?case by simp
qed simp

lemma demo_fetch: "fetch_all (bytes_of_trace demo_trace) = Inr ([demo_trace], [])"
proof -
  have "mb_fetch_blk_io_trace (bytes_of_trace demo_trace @ []) = Inr (Some demo_trace, [], [])"
    using fetch_record [of demo_trace "[]" "[]"]
    by (simp add: dump_ok_def dump_record_def demo_trace_def BLK_IO_TRACE_MAGIC_def)
  moreover have "fetch_all [] = Inr ([], [])" by (rule fetch_all_short) (simp add: sizeof_trace_def)
  ultimately show ?thesis by (subst fetch_all.simps) simp
qed

text \<open>A run as long as it can be, from the start of the program.\<close>

abbreviation demo_argv :: "string list" where
  "demo_argv \<equiv> [''btreplay'', ''-m'', ''2'', ''dump'', ''target'']"

definition demo_replay :: mb_btreplay_option where
  "demo_replay = btreplay_default_option\<lparr>ro_multi := 2, ro_btdump_path := ''dump'', ro_target_path := ''target''\<rparr>"

abbreviation demo_step :: "(mb_btreplay_ioreq list, int multiset \<times> (int \<Rightarrow> int option)) bt_sys \<Rightarrow>
    (mb_btreplay_ioreq list, int multiset \<times> (int \<Rightarrow> int option)) bt_sys \<Rightarrow> bool" where
  "demo_step \<equiv> bt_step demo_queue (books_bt (bytes_of_trace demo_trace)) (\<lambda>n i. 0) demo_replay"

definition demo_start :: "(mb_btreplay_ioreq list, int multiset \<times> (int \<Rightarrow> int option)) bt_sys" where
  "demo_start =
     \<lparr>bs_main = Bm_create 0, bs_file = None, bs_queue = [], bs_threads = [], bs_out = [],
      bs_world = ({#}, \<lambda>fd. None), bs_end = None, bs_popped = [], bs_served = []\<rparr>"

lemma demo_main:
  "mb_btreplay_main demo_queue demo_argv ({#}, \<lambda>fd. None) =
     Inr (demo_replay, demo_start)"
proof -
  have "mb_btreplay_parse_args demo_argv = Some demo_replay" by code_simp
  then show ?thesis by (simp add: mb_btreplay_main_def demo_queue_def demo_start_def)
qed

lemma longest_run:
  assumes "\<And>k s. (step ^^ k) s0 s \<Longrightarrow> k \<le> (n :: nat)"
  obtains k s where "(step ^^ k) s0 s" and "\<not> (\<exists>s'. step s s')"
proof -
  let ?P = "\<lambda>k. \<exists>s. (step ^^ k) s0 s"
  have bound: "k \<le> n" if "?P k" for k using assms that by blast
  have "?P 0" by simp
  with bound have greatest: "?P (Greatest ?P)" "\<And>k. ?P k \<Longrightarrow> k \<le> Greatest ?P"
    using GreatestI_nat [of ?P 0 n] Greatest_le_nat [of ?P _ n] by auto
  then obtain s where s: "(step ^^ Greatest ?P) s0 s" by blast
  have "\<not> (\<exists>s'. step s s')"
    using s greatest(2) [of "Suc (Greatest ?P)"] by (auto intro: relpowp_Suc_I)
  with s show thesis by (rule that)
qed

lemma demo_inside: "\<forall>t \<in> set [demo_trace]. bt_is_issue t \<longrightarrow> bt_inside (2 ^ 40) t"
  by (simp add: bt_inside_def demo_trace_def)

lemmas demo_replay_ends = bt_replay [OF demo_main _ demo_queue_fifo books_bt_dump demo_fetch books_bt_target demo_inside]

lemma demo_replay_two: "1 \<le> ro_multi demo_replay" "ro_multi demo_replay = 2"
  by (simp_all add: demo_replay_def btreplay_default_option_def)

lemma demo_longest:
  obtains k s where "(demo_step ^^ k) demo_start s" and "\<not> (\<exists>s'. demo_step s s')" and "bs_main s = Bm_done"
proof -
  have "k \<le> 21" if "(demo_step ^^ k) demo_start s" for k s
    using demo_replay_ends [OF demo_replay_two(1) that] demo_replay_two(2) by simp
  then obtain k s where run: "(demo_step ^^ k) demo_start s" "\<not> (\<exists>s'. demo_step s s')"
    using longest_run [of demo_step demo_start 21] by blast
  moreover have "bs_main s = Bm_done" using demo_replay_ends [OF demo_replay_two(1) run(1)] run(2) by blast
  ultimately show thesis by (rule that)
qed

theorem btreplay_serves_all_witness:
  "\<exists>opt s0 k s. mb_btreplay_main demo_queue demo_argv ({#}, \<lambda>fd. None) = Inr (opt, s0) \<and>
     (bt_step demo_queue (books_bt (bytes_of_trace demo_trace)) (\<lambda>n i. 0) opt ^^ k) s0 s \<and> k \<le> 21 \<and>
     bs_main s = Bm_done \<and> bs_popped s = [Ioreq demo_trace, Ioreq_stop, Ioreq_stop] \<and>
     map snd (bs_served s) = [demo_trace]"
proof -
  obtain k s where run: "(demo_step ^^ k) demo_start s" and stuck: "\<not> (\<exists>s'. demo_step s s')"
    by (rule demo_longest)
  note all = btreplay_serves_all [OF demo_main demo_replay_two(1) demo_queue_fifo books_bt_dump demo_fetch
    books_bt_target demo_inside run]
  have fin: "bs_main s = Bm_done" "k \<le> 21" "bs_popped s = bt_requests demo_replay [demo_trace]"
      "mset (map snd (bs_served s)) = mset [demo_trace]"
    using all stuck demo_replay_two(2) by auto
  have "map snd (bs_served s) = [demo_trace]" using fin(4) by (intro iffD1 [OF mset_single_iff]) simp
  moreover have "bs_popped s = [Ioreq demo_trace, Ioreq_stop, Ioreq_stop]"
    using fin(3) demo_replay_two(2) by (simp add: bt_requests_def numeral_2_eq_2)
  ultimately show ?thesis
    by (intro exI [of _ demo_replay] exI [of _ demo_start] exI [of _ k] exI [of _ s] conjI demo_main run fin(1,2))
qed

theorem btreplay_descriptors_witness:
  "\<exists>opt s0 s k s'. mb_btreplay_main demo_queue demo_argv ({#}, \<lambda>fd. None) = Inr (opt, s0) \<and>
     (bt_step demo_queue (books_bt (bytes_of_trace demo_trace)) (\<lambda>n i. 0) opt ^^ 5) s0 s \<and>
     bt_held (bs_threads s) = {#3#} \<and> bt_dump_held s = {#4#} \<and> fst (bs_world s) = {#3, 4#} \<and>
     (bt_step demo_queue (books_bt (bytes_of_trace demo_trace)) (\<lambda>n i. 0) opt ^^ k) s0 s' \<and>
     bs_main s' = Bm_done \<and> fst (bs_world s') = {#}"
proof -
  let ?K = "books_bt (bytes_of_trace demo_trace)"
  let ?sched = "[None, None, Some 1, None, None] :: nat option list"
  obtain s where exec: "bt_run demo_queue ?K (\<lambda>n i. 0) demo_replay ?sched demo_start = Some s"
    and held: "bt_held (bs_threads s) = {#3#}" "bt_dump_held s = {#4#}"
    by (simp add: bt_main_step_def bt_thread_step_def bt_create_def bt_open_def bt_fopen_def bt_set_def demo_start_def
        bt_new_thread_def books_bt_def next_fd_def demo_replay_two(2) bt_held_def bt_dump_held_def)
  have five: "5 = length ?sched" by simp
  have run: "(demo_step ^^ 5) demo_start s" unfolding five by (rule bt_run_steps [OF exec])
  obtain k s' where fin: "(demo_step ^^ k) demo_start s'" "bs_main s' = Bm_done" by (rule demo_longest)
  note books = btreplay_descriptors [OF demo_main books_bt_ledger]
  have "fst (bs_world s) = {#3, 4#}" using conjunct1 [OF books [OF run]] held by simp
  moreover have "fst (bs_world s') = {#}" using conjunct2 [OF books [OF fin(1)]] fin(2) by simp
  ultimately show ?thesis using demo_main run held fin by blast
qed

end
