(* ===== verification/Sched.thy ===== *)
theory Sched
  imports Affinity
begin

section \<open>Threads under a schedule\<close>

text \<open>
  What src/src/micbench-lock.c and src/src/micbench-proto.c share: threads that run the same job,
  scheduled in any order. The locale \<open>fair_system\<close> states when a fair schedule brings all of them
  to their end. The first steps of their \<open>thread_handler\<close>, setting the affinity and waiting at
  the barrier of the pthread library, turn such a system into another one.
\<close>

subsection \<open>Scheduling\<close>

text \<open>
  A job is the step function of a thread: \<open>None\<close> if thread \<open>t\<close> cannot move, because it waits or
  has ended, otherwise its new state and that of the lock. Any thread that can move may move.
\<close>

type_synonym ('s, 'l) job = "nat \<Rightarrow> 's \<Rightarrow> 'l \<Rightarrow> ('s \<times> 'l) option"

inductive sys_step :: "('s, 'l) job \<Rightarrow> 's list \<times> 'l \<Rightarrow> 's list \<times> 'l \<Rightarrow> bool" for job where
  sys_stepI: "t < length ths \<Longrightarrow> job t (ths ! t) l = Some (th', l') \<Longrightarrow>
    sys_step job (ths, l) (ths[t := th'], l')"

inductive_cases sys_stepE [elim!]: "sys_step job (ths, l) (ths', l')"
inductive_simps sys_step_simps: "sys_step job s s'"

text \<open>
  A run under a schedule, the list of the threads that get the processor: a thread that cannot
  move leaves everything as it is.
\<close>

definition sched_step :: "('s, 'l) job \<Rightarrow> nat \<Rightarrow> 's list \<times> 'l \<Rightarrow> 's list \<times> 'l" where
  "sched_step job t = (\<lambda>(ths, l).
     if t < length ths
     then (case job t (ths ! t) l of None \<Rightarrow> (ths, l) | Some (th', l') \<Rightarrow> (ths[t := th'], l'))
     else (ths, l))"

definition sched_run :: "('s, 'l) job \<Rightarrow> nat list \<Rightarrow> 's list \<times> 'l \<Rightarrow> 's list \<times> 'l" where
  "sched_run job sched s = fold (sched_step job) sched s"

lemma sched_run_simps [simp]:
  "sched_run job [] s = s"
  "sched_run job (t # sched) s = sched_run job sched (sched_step job t s)"
  by (simp_all add: sched_run_def)

lemma sched_cases:
  obtains (stay) "sched_step job t s = s"
    "\<not> (t < length (fst s) \<and> job t (fst s ! t) (snd s) \<noteq> None)"
  | (move) "sys_step job s (sched_step job t s)"
proof (cases "t < length (fst s) \<and> job t (fst s ! t) (snd s) \<noteq> None")
  case True
  then obtain th' l' where "job t (fst s ! t) (snd s) = Some (th', l')" by auto
  with True have "sys_step job (fst s, snd s) (sched_step job t s)"
    using sys_stepI [of t "fst s" job "snd s" th' l'] by (simp add: sched_step_def split_def)
  then show ?thesis using move by simp
next
  case False
  then have "sched_step job t s = s"
    by (auto simp: sched_step_def split_def simp del: not_None_eq)
  with False show ?thesis by (intro stay)
qed

lemma sched_run_steps: "\<exists>k. (sys_step job ^^ k) s (sched_run job sched s)"
proof (induction sched arbitrary: s)
  case Nil
  show ?case by (intro exI [of _ 0]) simp
next
  case (Cons t sched)
  then obtain k where k: "(sys_step job ^^ k) (sched_step job t s) (sched_run job (t # sched) s)"
    by fastforce
  show ?case
  proof (cases rule: sched_cases [of job t s])
    case stay
    with k show ?thesis by auto
  next
    case move
    with k show ?thesis by (blast intro: relpowp_Suc_I2)
  qed
qed

text \<open>A schedule that names a thread that can move makes at least one step.\<close>

lemma sched_run_moves:
  assumes "u \<in> set sched" and "u < length (fst s)" and "job u (fst s ! u) (snd s) \<noteq> None"
  shows "\<exists>k. (sys_step job ^^ Suc k) s (sched_run job sched s)"
  using assms
proof (induction sched)
  case (Cons t sched)
  show ?case
  proof (cases rule: sched_cases [of job t s])
    case stay
    then have "u \<in> set sched" using Cons.prems by auto
    then show ?thesis using Cons stay(1) by simp
  next
    case move
    obtain k where "(sys_step job ^^ k) (sched_step job t s) (sched_run job (t # sched) s)"
      using sched_run_steps [of job "sched_step job t s" sched] by auto
    with move show ?thesis by (blast intro: relpowp_Suc_I2)
  qed
qed simp

subsection \<open>Fair schedules\<close>

text \<open>
  A system with an invariant, in which every step of a thread takes one off what it has to do,
  and in which nobody can move only when everybody has finished.
\<close>

locale fair_system =
  fixes job :: "('s, 'l) job" and invar :: "'s list \<times> 'l \<Rightarrow> bool" and finished :: "'s \<Rightarrow> bool"
    and todo :: "'s \<Rightarrow> nat"
  assumes invar_step: "invar (ths, l) \<Longrightarrow> t < length ths \<Longrightarrow> job t (ths ! t) l = Some (th', l') \<Longrightarrow>
      invar (ths[t := th'], l') \<and> todo (ths ! t) = Suc (todo th')"
    and stuck: "invar (ths, l) \<Longrightarrow> \<forall>t < length ths. job t (ths ! t) l = None \<Longrightarrow> t < length ths \<Longrightarrow>
      finished (ths ! t)"
    and finished_stops: "finished th \<Longrightarrow> job t th l = None"
    and todo_0: "todo th = 0 \<Longrightarrow> finished th"
begin

text \<open>Every run keeps the invariant and takes exactly the steps that are no longer to do.\<close>

lemma run:
  assumes "(sys_step job ^^ k) s0 (ths, l)" and "invar s0"
  shows "invar (ths, l) \<and> length ths = length (fst s0) \<and>
    k + sum_list (map todo ths) = sum_list (map todo (fst s0))"
  using assms(1)
proof (induction k arbitrary: ths l)
  case 0
  then show ?case using assms(2) by (cases s0) simp
next
  case (Suc k)
  then obtain ths1 l1 where run: "(sys_step job ^^ k) s0 (ths1, l1)"
    and step: "sys_step job (ths1, l1) (ths, l)" by (metis relpowp_Suc_E surj_pair)
  from step obtain t th' where t: "t < length ths1" "ths = ths1[t := th']"
    "job t (ths1 ! t) l1 = Some (th', l)" by blast
  note ih = Suc.IH [OF run]
  then have dec: "invar (ths, l)" "todo (ths1 ! t) = Suc (todo th')"
    using invar_step [OF _ t(1,3)] t(2) by simp_all
  have "todo (ths1 ! t) \<le> sum_list (map todo ths1)"
    using t(1) elem_le_sum_list [of t "map todo ths1"] by simp
  then have "sum_list (map todo ths1) = Suc (sum_list (map todo ths))"
    using t(1,2) dec(2) by (simp add: map_update sum_list_update)
  then show ?case using ih t(2) dec(1) by simp
qed

lemma sched_inv:
  assumes "sched_run job sched s0 = (ths, l)" and "invar s0"
  shows "invar (ths, l)" "length ths = length (fst s0)"
proof -
  obtain k where "(sys_step job ^^ k) s0 (ths, l)" using sched_run_steps assms(1) by metis
  from run [OF this assms(2)] show "invar (ths, l)" "length ths = length (fst s0)" by simp_all
qed

text \<open>Every thread gets a turn in every round: each round makes a step until all have finished.\<close>

lemma fair_steps:
  assumes "invar s0" and "\<forall>r \<in> set rounds. {..<length (fst s0)} \<subseteq> set r"
  shows "\<exists>k. (sys_step job ^^ k) s0 (sched_run job (concat rounds) s0) \<and>
    (length rounds \<le> k \<or> list_all finished (fst (sched_run job (concat rounds) s0)))"
  using assms(2)
proof (induction rounds rule: rev_induct)
  case Nil
  show ?case by (intro exI [of _ 0]) simp
next
  case (snoc r rounds)
  define s where "s = sched_run job (concat rounds) s0"
  have next_s: "sched_run job (concat (rounds @ [r])) s0 = sched_run job r s"
    by (simp add: s_def sched_run_def)
  obtain k where k: "(sys_step job ^^ k) s0 s" "length rounds \<le> k \<or> list_all finished (fst s)"
    using snoc by (auto simp: s_def)
  have invar_s: "invar (fst s, snd s)" "length (fst s) = length (fst s0)"
    using run [of k s0 "fst s" "snd s"] k(1) assms(1) by simp_all
  show ?case
  proof (cases "\<forall>t < length (fst s). job t (fst s ! t) (snd s) = None")
    case True
    then have "sched_step job t s = s" for t by (simp add: sched_step_def split_def)
    then have "sched_run job r s = s" by (induction r) simp_all
    moreover have "list_all finished (fst s)" using stuck [OF invar_s(1) True] by (simp add: list_all_length)
    ultimately show ?thesis using k(1) next_s by metis
  next
    case False
    then obtain u where u: "u < length (fst s)" "job u (fst s ! u) (snd s) \<noteq> None" by blast
    then have "\<not> list_all finished (fst s)" using finished_stops by (auto simp: list_all_length)
    moreover have "u \<in> set r" using snoc.prems invar_s(2) u(1) by auto
    then obtain j where "(sys_step job ^^ Suc j) s (sched_run job r s)"
      using sched_run_moves u by blast
    then have "(sys_step job ^^ (k + Suc j)) s0 (sched_run job r s)"
      using k(1) by (simp only: relpowp_add) (blast intro: relcomppI)
    ultimately show ?thesis using k(2) next_s by (intro exI [of _ "k + Suc j"]) simp
  qed
qed

lemma fair_run:
  assumes "invar s0" and "\<forall>r \<in> set rounds. {..<length (fst s0)} \<subseteq> set r"
    and "sum_list (map todo (fst s0)) \<le> length rounds"
  obtains ths l where "sched_run job (concat rounds) s0 = (ths, l)"
    and "invar (ths, l)" and "\<forall>th \<in> set ths. finished th" and "length ths = length (fst s0)"
proof -
  obtain ths l where s: "sched_run job (concat rounds) s0 = (ths, l)" by (metis surj_pair)
  obtain k where k: "(sys_step job ^^ k) s0 (ths, l)" "length rounds \<le> k \<or> list_all finished ths"
    using fair_steps [OF assms(1,2)] s by auto
  note r = run [OF k(1) assms(1)]
  have "finished th" if "th \<in> set ths" for th
  proof (cases "length rounds \<le> k")
    case True
    then have "sum_list (map todo ths) = 0" using r assms(3) by linarith
    then show ?thesis using that todo_0 by simp
  qed (use k(2) that in \<open>simp add: list_all_iff\<close>)
  with that s r show thesis by blast
qed

end

subsection \<open>Setting the affinity\<close>

text \<open>
  The start of \<open>thread_handler\<close>, in micbench-lock.c and in micbench-proto.c: a thread whose argument
  has an affinity calls \<open>sched_setaffinity\<close>. Both sources ignore the result, so only that the call was made, with
  which mask, is kept; these masks are part of what the threads share. \<open>s0\<close> is the state in which
  the rest of the handler starts.
\<close>

datatype 's aff_thread = Entering | Entered 's

definition affinity_job ::
  "(nat \<Rightarrow> mb_affinity option) \<Rightarrow> 's \<Rightarrow> ('s, 'l) job \<Rightarrow>
     ('s aff_thread, (nat \<Rightarrow> 1024 word option) \<times> 'l) job" where
  "affinity_job aff s0 job t th = (\<lambda>(masks, l).
     case th of
       Entering \<Rightarrow>
         Some (Entered s0,
               (case aff t of None \<Rightarrow> masks | Some a \<Rightarrow> masks(t \<mapsto> cpumask a), l))
     | Entered s \<Rightarrow>
         (case job t s l of None \<Rightarrow> None | Some (s', l') \<Rightarrow> Some (Entered s', (masks, l'))))"

definition aff_inner :: "'s \<Rightarrow> 's aff_thread \<Rightarrow> 's" where
  "aff_inner s0 th = (case th of Entering \<Rightarrow> s0 | Entered s \<Rightarrow> s)"

definition aff_inv ::
  "(nat \<Rightarrow> mb_affinity option) \<Rightarrow> 's \<Rightarrow> ('s list \<times> 'l \<Rightarrow> bool) \<Rightarrow>
     's aff_thread list \<times> (nat \<Rightarrow> 1024 word option) \<times> 'l \<Rightarrow> bool" where
  "aff_inv aff s0 invar = (\<lambda>(ths, masks, l). invar (map (aff_inner s0) ths, l) \<and>
     (\<forall>t < length ths. masks t = (if ths ! t = Entering then None else map_option cpumask (aff t))))"

definition aff_finished :: "('s \<Rightarrow> bool) \<Rightarrow> 's aff_thread \<Rightarrow> bool" where
  "aff_finished finished th = (case th of Entering \<Rightarrow> False | Entered s \<Rightarrow> finished s)"

definition aff_todo :: "'s \<Rightarrow> ('s \<Rightarrow> nat) \<Rightarrow> 's aff_thread \<Rightarrow> nat" where
  "aff_todo s0 todo th = (case th of Entering \<Rightarrow> Suc (todo s0) | Entered s \<Rightarrow> todo s)"

lemma aff_inner_simps [simp]: "aff_inner s0 Entering = s0" "aff_inner s0 (Entered s) = s"
  by (simp_all add: aff_inner_def)

lemma map_update_same: "t < length xs \<Longrightarrow> f y = f (xs ! t) \<Longrightarrow> map f (xs[t := y]) = map f xs"
  by (metis list_update_id map_update nth_map)

context fair_system
begin

lemma affinity_system:
  "fair_system (affinity_job aff s0 job) (aff_inv aff s0 invar) (aff_finished finished) (aff_todo s0 todo)"
proof
  fix ths :: "'s aff_thread list" and sh t th' sh'
  assume i: "aff_inv aff s0 invar (ths, sh)" and t: "t < length ths"
    and step: "affinity_job aff s0 job t (ths ! t) sh = Some (th', sh')"
  obtain masks l where sh: "sh = (masks, l)" by fastforce
  show "aff_inv aff s0 invar (ths[t := th'], sh') \<and> aff_todo s0 todo (ths ! t) = Suc (aff_todo s0 todo th')"
  proof (cases "ths ! t")
    case Entering
    then show ?thesis
      using i t step sh map_update_same [OF t, of "aff_inner s0" th']
      by (auto simp: affinity_job_def aff_inv_def aff_todo_def nth_list_update split: option.splits)
  next
    case (Entered s)
    then obtain s' l' where s': "job t s l = Some (s', l')" "th' = Entered s'" "sh' = (masks, l')"
      using step sh by (auto simp: affinity_job_def split: option.splits)
    have "invar ((map (aff_inner s0) ths)[t := s'], l') \<and> todo s = Suc (todo s')"
      using invar_step [of "map (aff_inner s0) ths" l t s' l'] i t sh Entered s'(1)
      by (simp add: aff_inv_def)
    then show ?thesis
      using i t sh Entered s' by (auto simp: aff_inv_def aff_todo_def map_update nth_list_update)
  qed
next
  fix ths :: "'s aff_thread list" and sh t
  assume i: "aff_inv aff s0 invar (ths, sh)" and t: "t < length ths"
    and st: "\<forall>t < length ths. affinity_job aff s0 job t (ths ! t) sh = None"
  obtain masks l where sh: "sh = (masks, l)" by fastforce
  have "ths ! u = Entered (aff_inner s0 (ths ! u)) \<and> job u (aff_inner s0 (ths ! u)) l = None"
    if "u < length ths" for u
  proof -
    have "affinity_job aff s0 job u (ths ! u) (masks, l) = None" using st that sh by simp
    then show ?thesis by (cases "ths ! u") (auto simp: affinity_job_def split: option.splits)
  qed
  moreover from this have "finished (map (aff_inner s0) ths ! t)"
    using stuck [of "map (aff_inner s0) ths" l t] i t sh by (simp add: aff_inv_def)
  ultimately show "aff_finished finished (ths ! t)" using t by (metis aff_finished_def aff_thread.case(2) nth_map)
next
  fix th :: "'s aff_thread" and t sh
  show "affinity_job aff s0 job t th sh = None" if "aff_finished finished th"
    using that finished_stops
    by (cases th) (auto simp: affinity_job_def aff_finished_def split: prod.splits)
  show "aff_finished finished th" if "aff_todo s0 todo th = 0"
    using that todo_0 by (cases th) (simp_all add: aff_todo_def aff_finished_def)
qed

end

subsection \<open>Waiting at the barrier\<close>

text \<open>
  \<open>pthread_barrier_wait\<close>: a thread announces itself and goes on once \<open>n\<close> threads, the count given
  to \<open>pthread_barrier_init\<close>, have done so. The number of those that have is shared.
\<close>

datatype 's bar_thread = Arriving | At_barrier | Past 's

definition barrier_job :: "nat \<Rightarrow> 's \<Rightarrow> ('s, 'l) job \<Rightarrow> ('s bar_thread, nat \<times> 'l) job" where
  "barrier_job n s0 job t th = (\<lambda>(arrived, l).
     case th of
       Arriving \<Rightarrow> Some (At_barrier, (Suc arrived, l))
     | At_barrier \<Rightarrow> if arrived < n then None else Some (Past s0, (arrived, l))
     | Past s \<Rightarrow> (case job t s l of None \<Rightarrow> None | Some (s', l') \<Rightarrow> Some (Past s', (arrived, l'))))"

definition bar_inner :: "'s \<Rightarrow> 's bar_thread \<Rightarrow> 's" where
  "bar_inner s0 th = (case th of Past s \<Rightarrow> s | _ \<Rightarrow> s0)"

definition bar_count :: "'s bar_thread list \<Rightarrow> nat" where
  "bar_count ths = length (filter (\<lambda>th. th \<noteq> Arriving) ths)"

text \<open>No thread is past the barrier before every thread has arrived at it.\<close>

definition bar_inv ::
  "nat \<Rightarrow> 's \<Rightarrow> ('s list \<times> 'l \<Rightarrow> bool) \<Rightarrow> 's bar_thread list \<times> nat \<times> 'l \<Rightarrow> bool" where
  "bar_inv n s0 invar = (\<lambda>(ths, arrived, l). invar (map (bar_inner s0) ths, l) \<and> length ths = n \<and>
     arrived = bar_count ths \<and> (\<forall>s. Past s \<in> set ths \<longrightarrow> arrived = n))"

definition bar_finished :: "('s \<Rightarrow> bool) \<Rightarrow> 's bar_thread \<Rightarrow> bool" where
  "bar_finished finished th = (case th of Past s \<Rightarrow> finished s | _ \<Rightarrow> False)"

definition bar_todo :: "'s \<Rightarrow> ('s \<Rightarrow> nat) \<Rightarrow> 's bar_thread \<Rightarrow> nat" where
  "bar_todo s0 todo th =
     (case th of Arriving \<Rightarrow> todo s0 + 2 | At_barrier \<Rightarrow> todo s0 + 1 | Past s \<Rightarrow> todo s)"

lemma bar_inner_simps [simp]:
  "bar_inner s0 Arriving = s0" "bar_inner s0 At_barrier = s0" "bar_inner s0 (Past s) = s"
  by (simp_all add: bar_inner_def)

lemma bar_count_update:
  assumes "t < length ths"
  shows "bar_count (ths[t := th]) + (if ths ! t = Arriving then 0 else 1) =
    bar_count ths + (if th = Arriving then 0 else 1)"
  using assms unfolding bar_count_def
proof (induction ths arbitrary: t)
  case (Cons a ths)
  show ?case
  proof (cases t)
    case (Suc u)
    then show ?thesis using Cons.IH [of u] Cons.prems by (simp split: if_splits)
  qed simp
qed simp

lemma bar_count_all: "bar_count ths = length ths \<longleftrightarrow> Arriving \<notin> set ths"
proof
  show "Arriving \<notin> set ths" if "bar_count ths = length ths"
    using that length_filter_less [of Arriving ths "\<lambda>th. th \<noteq> Arriving"] by (auto simp: bar_count_def)
  show "bar_count ths = length ths" if "Arriving \<notin> set ths"
    using that unfolding bar_count_def by (induction ths) auto
qed

context fair_system
begin

lemma barrier_system:
  "fair_system (barrier_job n s0 job) (bar_inv n s0 invar) (bar_finished finished) (bar_todo s0 todo)"
proof
  fix ths :: "'s bar_thread list" and sh t th' sh'
  assume i: "bar_inv n s0 invar (ths, sh)" and t: "t < length ths"
    and step: "barrier_job n s0 job t (ths ! t) sh = Some (th', sh')"
  obtain arrived l where sh: "sh = (arrived, l)" by fastforce
  note count = bar_count_update [OF t, of th']
  have past: "s' = s \<or> Past s' \<in> set ths" if "Past s' \<in> set (ths[t := Past s])" for s s'
    using that set_update_subset_insert [of ths t "Past s"] by auto
  show "bar_inv n s0 invar (ths[t := th'], sh') \<and> bar_todo s0 todo (ths ! t) = Suc (bar_todo s0 todo th')"
  proof (cases "ths ! t")
    case Arriving
    then have "Arriving \<in> set ths" using t by (metis nth_mem)
    then have "Past s \<notin> set ths" for s
      using i sh bar_count_all [of ths] by (auto simp: bar_inv_def)
    moreover from this have "Past s \<notin> set (ths[t := At_barrier])" for s
      using set_update_subset_insert [of ths t At_barrier] by auto
    ultimately show ?thesis
      using i step sh Arriving count map_update_same [OF t, of "bar_inner s0" At_barrier]
      by (auto simp: barrier_job_def bar_inv_def bar_todo_def)
  next
    case At_barrier
    have "arrived \<le> n" using i sh by (auto simp: bar_inv_def bar_count_def)
    then show ?thesis
      using i step sh At_barrier count map_update_same [OF t, of "bar_inner s0" "Past s0"]
      by (auto simp: barrier_job_def bar_inv_def bar_todo_def split: if_splits)
  next
    case (Past s)
    then obtain s' l' where s': "job t s l = Some (s', l')" "th' = Past s'" "sh' = (arrived, l')"
      using step sh by (auto simp: barrier_job_def split: option.splits)
    have "invar ((map (bar_inner s0) ths)[t := s'], l') \<and> todo s = Suc (todo s')"
      using invar_step [of "map (bar_inner s0) ths" l t s' l'] i t sh Past s'(1)
      by (simp add: bar_inv_def)
    moreover have "arrived = n" using i sh Past t by (auto simp: bar_inv_def) (metis nth_mem)
    ultimately show ?thesis
      using i sh Past s' count by (auto simp: bar_inv_def bar_todo_def map_update)
  qed
next
  fix ths :: "'s bar_thread list" and sh t
  assume i: "bar_inv n s0 invar (ths, sh)" and t: "t < length ths"
    and st: "\<forall>t < length ths. barrier_job n s0 job t (ths ! t) sh = None"
  obtain arrived l where sh: "sh = (arrived, l)" by fastforce
  have blocked: "barrier_job n s0 job u (ths ! u) (arrived, l) = None" if "u < length ths" for u
    using st that sh by simp
  have "ths ! u \<noteq> Arriving" if "u < length ths" for u
    using blocked [OF that] by (auto simp: barrier_job_def)
  then have "Arriving \<notin> set ths" by (auto simp: in_set_conv_nth)
  then have "arrived = n" using i sh bar_count_all [of ths] by (simp add: bar_inv_def)
  then have "ths ! u = Past (bar_inner s0 (ths ! u)) \<and> job u (bar_inner s0 (ths ! u)) l = None"
    if "u < length ths" for u
    using blocked [OF that] by (cases "ths ! u") (auto simp: barrier_job_def split: option.splits)
  moreover from this have "finished (map (bar_inner s0) ths ! t)"
    using stuck [of "map (bar_inner s0) ths" l t] i t sh by (simp add: bar_inv_def)
  ultimately show "bar_finished finished (ths ! t)"
    using t by (metis bar_finished_def bar_thread.case(3) nth_map)
next
  fix th :: "'s bar_thread" and t sh
  show "barrier_job n s0 job t th sh = None" if "bar_finished finished th"
    using that finished_stops
    by (cases th) (auto simp: barrier_job_def bar_finished_def split: prod.splits)
  show "bar_finished finished th" if "bar_todo s0 todo th = 0"
    using that todo_0 by (cases th) (simp_all add: bar_todo_def bar_finished_def)
qed

end

end
