(* ===== verification/LockClient.thy ===== *)
theory LockClient
  imports Sched
begin

section \<open>Threads that compete for a lock\<close>

text \<open>
  What src/src/micbench-lock.c and src/src/micbench-proto.c share: threads that run the same job,
  scheduled in any order, and compete for one lock of the pthread library. The library is not
  part of the sources, so a lock is a parameter. The locale \<open>lock_contract\<close> states its documented
  behaviour; the locale \<open>lock_client\<close> adds what a job has to do with it, and proves mutual
  exclusion and that such threads are a system that every fair schedule brings to its end.
  The jobs of the two programs are instances of it.
\<close>

subsection \<open>Locks\<close>

text \<open>The operations of a lock: acquire, if it can be taken now, and release.\<close>

record 'l lock_ops =
  lk_acquire :: "nat \<Rightarrow> 'l \<Rightarrow> 'l option"
  lk_release :: "nat \<Rightarrow> 'l \<Rightarrow> 'l"

locale lock_contract =
  fixes L :: "('l, 'm) lock_ops_scheme" and locked :: "'l \<Rightarrow> bool" and mine :: "nat \<Rightarrow> 'l \<Rightarrow> bool"
  assumes acquire_free: "\<not> locked l \<Longrightarrow> \<exists>l'. lk_acquire L t l = Some l' \<and> locked l' \<and> mine t l'"
    and acquire_held: "locked l \<Longrightarrow> lk_acquire L t l = None"
    and release_mine: "mine t l \<Longrightarrow> \<not> locked (lk_release L t l)"
begin

lemma acquired:
  assumes "lk_acquire L t l = Some l'"
  shows "\<not> locked l" "locked l'" "mine t l'"
proof -
  show free: "\<not> locked l" using assms acquire_held [of l t] by auto
  show "locked l'" "mine t l'" using acquire_free [OF free, of t] assms by simp_all
qed

end

subsection \<open>Clients\<close>

text \<open>
  A job that takes the lock when it goes inside, releases it when it leaves, does not touch it
  otherwise and waits for nothing else; \<open>todo\<close> is the number of steps a thread has left.
\<close>

locale lock_client = lock_contract L locked mine
  for L :: "('l, 'm) lock_ops_scheme" and locked mine +
  fixes job :: "('s, 'l) job" and inside finished ok :: "'s \<Rightarrow> bool" and todo :: "'s \<Rightarrow> nat"
  assumes job_todo: "ok th \<Longrightarrow> job t th l = Some (th', l') \<Longrightarrow> ok th' \<and> todo th = Suc (todo th')"
    and job_lock: "job t th l = Some (th', l') \<Longrightarrow>
      \<not> inside th \<and> inside th' \<and> lk_acquire L t l = Some l' \<or>
      inside th \<and> \<not> inside th' \<and> l' = lk_release L t l \<or>
      inside th' = inside th \<and> l' = l"
    and job_waits: "job t th l = None \<Longrightarrow> finished th \<or> \<not> inside th \<and> lk_acquire L t l = None"
    and finished_stops: "finished th \<Longrightarrow> job t th l = None"
    and finished_outside: "finished th \<Longrightarrow> \<not> inside th"
    and todo_0: "todo th = 0 \<Longrightarrow> finished th"
begin

definition exclusive :: "'s list \<times> 'l \<Rightarrow> bool" where
  "exclusive = (\<lambda>(ths, l). (\<forall>t < length ths. ok (ths ! t)) \<and>
     (locked l \<longleftrightarrow> (\<exists>t < length ths. inside (ths ! t))) \<and>
     (\<forall>t < length ths. inside (ths ! t) \<longrightarrow> mine t l) \<and>
     (\<forall>t < length ths. \<forall>u < length ths. inside (ths ! t) \<and> inside (ths ! u) \<longrightarrow> t = u))"

lemma exclusive_step:
  assumes "exclusive (ths, l)" and "t < length ths" and "job t (ths ! t) l = Some (th', l')"
  shows "exclusive (ths[t := th'], l')"
proof -
  have inv: "locked l \<longleftrightarrow> (\<exists>t < length ths. inside (ths ! t))"
    "\<forall>t < length ths. inside (ths ! t) \<longrightarrow> mine t l"
    "\<forall>t < length ths. \<forall>u < length ths. inside (ths ! t) \<and> inside (ths ! u) \<longrightarrow> t = u"
    using assms(1) by (simp_all add: exclusive_def)
  have "ok th'" using job_todo [OF _ assms(3)] assms(1,2) by (simp add: exclusive_def)
  then have oks: "ok (ths[t := th'] ! u)" if "u < length ths" for u
    using assms(1,2) that by (cases "u = t") (simp_all add: exclusive_def)
  from job_lock [OF assms(3)]
  consider (take) "\<not> inside (ths ! t)" "inside th'" "lk_acquire L t l = Some l'"
    | (leave) "inside (ths ! t)" "\<not> inside th'" "l' = lk_release L t l"
    | (keep) "inside th' = inside (ths ! t)" "l' = l" by blast
  then show ?thesis
  proof cases
    case take
    note acq = acquired [OF take(3)]
    then have "\<forall>u < length ths. \<not> inside (ths ! u)" using inv(1) by blast
    then show ?thesis
      using oks take acq assms(2) by (auto simp: exclusive_def nth_list_update split: if_splits)
  next
    case leave
    then have "\<forall>u < length ths. u \<noteq> t \<longrightarrow> \<not> inside (ths ! u)" using inv(3) assms(2) by blast
    moreover have "\<not> locked l'" using leave inv(2) assms(2) release_mine by simp
    ultimately show ?thesis using oks leave assms(2) by (auto simp: exclusive_def nth_list_update)
  next
    case keep
    then have "inside (ths[t := th'] ! u) = inside (ths ! u)" if "u < length ths" for u
      using that by (cases "u = t") simp_all
    then show ?thesis using oks inv keep by (auto simp: exclusive_def)
  qed
qed

text \<open>A start: nobody is inside, and the lock is free.\<close>

definition start :: "'s list \<times> 'l \<Rightarrow> bool" where
  "start = (\<lambda>(ths, l). \<not> locked l \<and> (\<forall>th \<in> set ths. ok th \<and> \<not> inside th))"

lemma exclusive_start: "start s \<Longrightarrow> exclusive s"
  by (cases s) (auto simp: start_def exclusive_def)

text \<open>Nobody can move only when everybody has finished.\<close>

lemma stuck:
  assumes "exclusive (ths, l)" and "\<forall>t < length ths. job t (ths ! t) l = None" and "t < length ths"
  shows "finished (ths ! t)"
proof (cases "locked l")
  case True
  then obtain u where u: "u < length ths" "inside (ths ! u)"
    using assms(1) by (auto simp: exclusive_def)
  then have "job u (ths ! u) l = None" using assms(2) by simp
  from job_waits [OF this] show ?thesis using finished_outside u(2) by blast
next
  case False
  then have "lk_acquire L t l \<noteq> None" using acquire_free [of l t] by auto
  then show ?thesis using job_waits [of t "ths ! t" l] assms(2,3) by auto
qed

end

sublocale lock_client < fair: fair_system job exclusive finished todo
proof unfold_locales
  fix ths l t th' l'
  assume a: "exclusive (ths, l)" "t < length ths" "job t (ths ! t) l = Some (th', l')"
  then show "exclusive (ths[t := th'], l') \<and> todo (ths ! t) = Suc (todo th')"
    using exclusive_step [OF a] job_todo [OF _ a(3)] by (simp add: exclusive_def)
qed (use stuck finished_stops todo_0 in auto)

end
