(* ===== verification/MemLoop.thy ===== *)
theory MemLoop
  imports Rand48
begin

section \<open>The random-access pointer loop of micbench-mem\<close>

text \<open>
  The part of \<open>do_memory_stress_rand\<close> (src/src/micbench-mem.c) that builds a loop of pointers
  through the working area, one per 64-byte cache line, shuffles it and checks it, and the
  timed traversal. The working area is a list of \<open>long\<close>s; a pointer is the index of the
  \<open>long\<close> it points to, and an access outside the mapped area is undefined.

  The main fact: one swap of the shuffle conjugates the successor function with a
  transposition of two lines, so the loop always stays a single cycle through all lines.
\<close>

type_synonym area = "nat list"

subsection \<open>Memory accesses\<close>

definition load_long :: "area \<Rightarrow> nat \<Rightarrow> nat c_result" where
  "load_long a p = (if p < length a then Inr (a ! p) else Inl Undefined)"

definition store_long :: "area \<Rightarrow> nat \<Rightarrow> nat \<Rightarrow> area c_result" where
  "store_long a p v = (if p < length a then Inr (a[p := v]) else Inl Undefined)"

definition swap_long :: "area \<Rightarrow> nat \<Rightarrow> nat \<Rightarrow> area c_result" where
  "swap_long a ptr1 ptr2 =
     (if ptr1 \<noteq> ptr2
      then bind_c (load_long a ptr1) (\<lambda>tmp.
           bind_c (load_long a ptr2) (\<lambda>v.
           bind_c (store_long a ptr1 v) (\<lambda>a1. store_long a1 ptr2 tmp)))
      else Inr a)"

subsection \<open>Building the loop\<close>

text \<open>\<open>for(ptr = ptr_start; ptr < ptr_end; ptr += 64 / sizeof(long)) *ptr = ptr + 64 / sizeof(long)\<close>.\<close>

function ptr_init_loop :: "nat \<Rightarrow> nat \<Rightarrow> area \<Rightarrow> area c_result" where
  "ptr_init_loop ptr ptr_end a =
     (if ptr < ptr_end
      then bind_c (store_long a ptr (ptr + 8)) (\<lambda>a'. ptr_init_loop (ptr + 8) ptr_end a')
      else Inr a)"
  by pat_completeness auto
termination
  by (relation "measure (\<lambda>(ptr, ptr_end, a). ptr_end - ptr)") auto

declare ptr_init_loop.simps [simp del]

text \<open>The loop is closed by a store 8 \<open>long\<close>s before \<open>ptr_end\<close>, below the area if it is shorter.\<close>

definition ptr_loop_init :: "nat \<Rightarrow> area \<Rightarrow> area c_result" where
  "ptr_loop_init working_size a =
     (let ptr_end = working_size div 8
      in bind_c (ptr_init_loop 0 ptr_end a)
           (\<lambda>a'. if ptr_end < 8 then Inl Undefined else store_long a' (ptr_end - 8) 0))"

subsection \<open>Shuffling it\<close>

text \<open>
  One iteration of the shuffle after \<open>ofst\<close> is drawn; the result says whether the source
  jumps back to \<open>retry\<close>.
\<close>

definition shuffle_step :: "area \<Rightarrow> nat \<Rightarrow> nat \<Rightarrow> (area \<times> bool) c_result" where
  "shuffle_step a ptr1 ptr2 =
     bind_c (load_long a ptr1) (\<lambda>ptr1_succ.
     bind_c (load_long a ptr2) (\<lambda>ptr2_succ.
     bind_c
       (if ptr1_succ = ptr2
        then bind_c (store_long a ptr1 ptr2_succ) (\<lambda>a1.
             bind_c (load_long a1 ptr2_succ) (\<lambda>v.
             bind_c (store_long a1 ptr1_succ v) (\<lambda>a2. store_long a2 ptr2_succ ptr1_succ)))
        else bind_c (store_long a ptr1 ptr2_succ) (\<lambda>a1.
             bind_c (store_long a1 ptr2 ptr1_succ) (\<lambda>a2. swap_long a2 ptr1_succ ptr2_succ)))
       (\<lambda>a'.
     bind_c (load_long a' ptr1) (\<lambda>v1.
     bind_c (load_long a' ptr2) (\<lambda>v2.
     bind_c (load_long a' ptr2_succ) (\<lambda>v3.
       Inr (a', ptr1 = v1 \<or> ptr2 = v2 \<or> ptr2_succ = v3)))))))"

text \<open>
  The loop over the cache lines. A retry starts the same iteration again with a new draw,
  so the loop may run forever: \<open>None\<close>.
\<close>

partial_function (option) shuffle_loop ::
  "nat \<Rightarrow> nat \<Rightarrow> rand48 \<Rightarrow> area \<Rightarrow> (area \<times> rand48) c_result option" where
  "shuffle_loop num_cacheline i rand a =
     (if i < num_cacheline
      then case mb_rand_range_ulong rand 0 (word_of_nat (num_cacheline - i)) of
             Inl e \<Rightarrow> Some (Inl e)
           | Inr (ofst, rand') \<Rightarrow>
               (case shuffle_step a (i * 64 div 8) ((i + unat ofst) * 64 div 8) of
                  Inl e \<Rightarrow> Some (Inl e)
                | Inr (a', retry) \<Rightarrow>
                    (if retry then shuffle_loop num_cacheline i rand' a'
                     else shuffle_loop num_cacheline (Suc i) rand' a'))
      else Some (Inr (a, rand)))"

subsection \<open>Checking and running it\<close>

text \<open>The check counts the lines on the way back to the start.\<close>

partial_function (option) check_loop :: "area \<Rightarrow> nat \<Rightarrow> nat \<Rightarrow> nat c_result option" where
  "check_loop a ptr counter =
     (if ptr \<noteq> 0
      then case load_long a ptr of
             Inl e \<Rightarrow> Some (Inl e)
           | Inr p' \<Rightarrow> check_loop a p' (Suc counter)
      else Some (Inr counter))"

definition check_ptr_loop :: "nat \<Rightarrow> area \<Rightarrow> unit c_result option" where
  "check_ptr_loop num_cacheline a =
     (case load_long a 0 of
        Inl e \<Rightarrow> Some (Inl e)
      | Inr p \<Rightarrow>
          (case check_loop a p 1 of
             None \<Rightarrow> None
           | Some (Inl e) \<Rightarrow> Some (Inl e)
           | Some (Inr counter) \<Rightarrow>
               Some (if counter \<noteq> num_cacheline then Inl Exit_Failure else Inr ())))"

text \<open>Initialisation, shuffle and check in sequence.\<close>

definition ptr_loop_prepare :: "nat \<Rightarrow> rand48 \<Rightarrow> area \<Rightarrow> area c_result option" where
  "ptr_loop_prepare working_size rand a =
     (case ptr_loop_init working_size a of
        Inl e \<Rightarrow> Some (Inl e)
      | Inr a0 \<Rightarrow>
          (case shuffle_loop (working_size div 64) 0 rand a0 of
             None \<Rightarrow> None
           | Some (Inl e) \<Rightarrow> Some (Inl e)
           | Some (Inr (a1, rand')) \<Rightarrow>
               (case check_ptr_loop (working_size div 64) a1 of
                  None \<Rightarrow> None
                | Some (Inl e) \<Rightarrow> Some (Inl e)
                | Some (Inr u) \<Rightarrow> Some (Inr a1))))"

text \<open>The inner loop of the timed run: each access loads the pointer it follows.\<close>

primrec chase :: "area \<Rightarrow> nat \<Rightarrow> nat \<Rightarrow> nat c_result" where
  "chase a 0 ptr = Inr ptr"
| "chase a (Suc k) ptr = bind_c (load_long a ptr) (chase a k)"

subsection \<open>Cycles\<close>

text \<open>\<open>cycle a xs\<close>: following the pointers of \<open>a\<close> walks around the lines \<open>xs\<close>, each once.\<close>

definition cycle :: "area \<Rightarrow> nat list \<Rightarrow> bool" where
  "cycle a xs \<longleftrightarrow> xs \<noteq> [] \<and> distinct xs \<and> (\<forall>x \<in> set xs. x < length a) \<and>
     (\<forall>k < length xs. a ! (xs ! k) = xs ! (Suc k mod length xs))"

definition lines :: "nat \<Rightarrow> nat set" where
  "lines n = (\<lambda>j. 8 * j) ` {..<n}"

definition sw :: "nat \<Rightarrow> nat \<Rightarrow> nat \<Rightarrow> nat" where
  "sw s t x = (if x = s then t else if x = t then s else x)"

lemma sw_inj: "sw s t x = sw s t y \<longleftrightarrow> x = y"
  by (auto simp: sw_def)

lemma sw_invol [simp]: "sw s t (sw s t x) = x"
  by (simp add: sw_def)

lemma cycle_succ_in: "cycle a xs \<Longrightarrow> x \<in> set xs \<Longrightarrow> a ! x \<in> set xs"
  unfolding cycle_def by (metis in_set_conv_nth length_greater_0_conv mod_less_divisor)

lemma cycle_inj:
  assumes "cycle a xs" and "x \<in> set xs" and "y \<in> set xs" and "a ! x = a ! y"
  shows "x = y"
proof -
  let ?n = "length xs"
  obtain i j where ij: "x = xs ! i" "y = xs ! j" "i < ?n" "j < ?n"
    using assms(2,3) by (metis in_set_conv_nth)
  have "xs ! (Suc i mod ?n) = xs ! (Suc j mod ?n)" using assms(1,4) ij by (simp add: cycle_def)
  then have "Suc i mod ?n = Suc j mod ?n"
    using assms(1) distinct_nth_mod_inj unfolding cycle_def by blast
  moreover have "0 < ?n" using ij(3) by linarith
  ultimately have "i mod ?n = j mod ?n" by (rule Suc_mod_cancel)
  then show ?thesis using ij by simp
qed

lemma cycle_no_fixpoint:
  assumes "cycle a xs" and "x \<in> set xs" and "2 \<le> length xs"
  shows "a ! x \<noteq> x"
proof -
  obtain i where i: "x = xs ! i" "i < length xs" using assms(2) by (metis in_set_conv_nth)
  have "a ! x = xs ! (Suc i mod length xs)" using assms(1) i by (simp add: cycle_def)
  moreover have "Suc i mod length xs \<noteq> i" "Suc i mod length xs < length xs"
    using i(2) assms(3) by (auto simp: mod_Suc)
  ultimately show ?thesis using assms(1) i by (simp add: cycle_def nth_eq_iff_index_eq)
qed

lemma cycle_conjugate:
  assumes c: "cycle a xs" and len: "length a' = length a" and st: "s \<in> set xs" "t \<in> set xs"
    and conj: "\<And>x. x \<in> set xs \<Longrightarrow> a' ! x = sw s t (a ! sw s t x)"
  shows "cycle a' (map (sw s t) xs) \<and> set (map (sw s t) xs) = set xs"
proof -
  have sub: "sw s t x \<in> set xs" if "x \<in> set xs" for x
    using that st by (simp add: sw_def)
  have eq: "set (map (sw s t) xs) = set xs"
    using sub sw_invol by (auto simp: image_iff) (metis sw_invol)
  have d: "distinct (map (sw s t) xs)"
    using c by (auto simp: cycle_def distinct_map inj_on_def sw_inj)
  have "a' ! (map (sw s t) xs ! k) = map (sw s t) xs ! (Suc k mod length xs)"
    if k: "k < length xs" for k
  proof -
    have "Suc k mod length xs < length xs" using k by (intro mod_less_divisor) linarith
    moreover have "a' ! sw s t (xs ! k) = sw s t (a ! (xs ! k))"
      using conj [of "sw s t (xs ! k)"] sub k by simp
    moreover have "a ! (xs ! k) = xs ! (Suc k mod length xs)" using c k by (simp add: cycle_def)
    ultimately show ?thesis using k by simp
  qed
  moreover have "\<forall>x \<in> set (map (sw s t) xs). x < length a'"
    using c unfolding eq len by (simp add: cycle_def)
  ultimately show ?thesis using c d eq len unfolding cycle_def by simp
qed

subsection \<open>One swap\<close>

lemma load_long_in [simp]: "p < length a \<Longrightarrow> load_long a p = Inr (a ! p)"
  by (simp add: load_long_def)

lemma store_long_in [simp]: "p < length a \<Longrightarrow> store_long a p v = Inr (a[p := v])"
  by (simp add: store_long_def)

text \<open>
  The stores of one iteration, on a cycle, compute the conjugate of the successor function
  with the transposition of the two successors.
\<close>

lemma swap_stores:
  assumes c: "cycle a xs" and p: "p1 \<in> set xs" "p2 \<in> set xs"
  defines "s1 \<equiv> a ! p1" and "s2 \<equiv> a ! p2"
  defines "b \<equiv> (if s1 = p2 then a[p1 := s2, s1 := a[p1 := s2] ! s2, s2 := s1]
                else if s1 = s2 then a[p1 := s2, p2 := s1]
                else a[p1 := s2, p2 := s1, s1 := a[p1 := s2, p2 := s1] ! s2,
                       s2 := a[p1 := s2, p2 := s1] ! s1])"
  assumes x: "x \<in> set xs"
  shows "b ! x = sw s1 s2 (a ! sw s1 s2 x)"
proof -
  have s: "s1 \<in> set xs" "s2 \<in> set xs" using c p cycle_succ_in by (auto simp: s1_def s2_def)
  have len: "y < length a" if "y \<in> set xs" for y using c that by (simp add: cycle_def)
  have i1: "a ! y = s1 \<longleftrightarrow> y = p1" if "y \<in> set xs" for y
    using cycle_inj [OF c that p(1)] by (auto simp: s1_def)
  have i2: "a ! y = s2 \<longleftrightarrow> y = p2" if "y \<in> set xs" for y
    using cycle_inj [OF c that p(2)] by (auto simp: s2_def)
  note facts = i1 [OF x] i2 [OF x] i1 [OF s(1)] i2 [OF s(1)] i1 [OF s(2)] i2 [OF s(2)]
    len [OF x] len [OF s(1)] len [OF s(2)] len [OF p(1)] len [OF p(2)]
    i1 [OF p(1)] i1 [OF p(2)] i2 [OF p(1)] i2 [OF p(2)]
  show ?thesis
    unfolding b_def sw_def using facts
    by (auto simp: nth_list_update split: if_splits)
qed

lemma shuffle_step_cycle:
  assumes c: "cycle a xs" and p: "p1 \<in> set xs" "p2 \<in> set xs" and two: "2 \<le> length xs"
  shows "\<exists>a' ys. shuffle_step a p1 p2 = Inr (a', False) \<and> cycle a' ys \<and> set ys = set xs \<and>
           length ys = length xs \<and> length a' = length a"
proof -
  define s1 where "s1 = a ! p1"
  define s2 where "s2 = a ! p2"
  define b where "b = (if s1 = p2 then a[p1 := s2, s1 := a[p1 := s2] ! s2, s2 := s1]
                else if s1 = s2 then a[p1 := s2, p2 := s1]
                else a[p1 := s2, p2 := s1, s1 := a[p1 := s2, p2 := s1] ! s2,
                       s2 := a[p1 := s2, p2 := s1] ! s1])"
  have s: "s1 \<in> set xs" "s2 \<in> set xs" using c p cycle_succ_in by (auto simp: s1_def s2_def)
  have len: "y < length a" if "y \<in> set xs" for y using c that by (simp add: cycle_def)
  have lb: "length b = length a" by (simp add: b_def)
  have "b ! x = sw s1 s2 (a ! sw s1 s2 x)" if "x \<in> set xs" for x
    unfolding b_def s1_def s2_def by (rule swap_stores [OF c p that])
  from cycle_conjugate [OF c lb s this]
  have cyc: "cycle b (map (sw s1 s2) xs)" "set (map (sw s1 s2) xs) = set xs" by auto
  have nofix: "b ! y \<noteq> y" if "y \<in> set xs" for y
    using cycle_no_fixpoint [OF cyc(1), of y] that cyc(2) two by simp
  have "shuffle_step a p1 p2 = Inr (b, p1 = b ! p1 \<or> p2 = b ! p2 \<or> s2 = b ! s2)"
    unfolding shuffle_step_def swap_long_def
    using len [OF p(1)] len [OF p(2)] len [OF s(1)] len [OF s(2)]
    by (simp add: s1_def [symmetric] s2_def [symmetric] b_def)
  then have "shuffle_step a p1 p2 = Inr (b, False)"
    using nofix p s by metis
  then show ?thesis using cyc lb by (metis length_map)
qed

subsection \<open>Initialisation gives one cycle\<close>

lemma ptr_init_loop_ok:
  assumes "8 * n \<le> length a" and "j \<le> n"
  shows "\<exists>a'. ptr_init_loop (8 * j) (8 * n) a = Inr a' \<and> length a' = length a \<and>
           (\<forall>i < n. a' ! (8 * i) = (if j \<le> i then 8 * Suc i else a ! (8 * i)))"
  using assms
proof (induction "n - j" arbitrary: j a)
  case 0
  then show ?case by (simp add: ptr_init_loop.simps)
next
  case (Suc k)
  then have lt: "8 * j < 8 * n" and k: "k = n - Suc j" by simp_all
  let ?a = "a[8 * j := 8 * Suc j]"
  obtain a' where a': "ptr_init_loop (8 * Suc j) (8 * n) ?a = Inr a'" "length a' = length ?a"
    "\<forall>i < n. a' ! (8 * i) = (if Suc j \<le> i then 8 * Suc i else ?a ! (8 * i))"
    using Suc.hyps(1) [OF k, of ?a] Suc.prems lt by auto
  have "ptr_init_loop (8 * j) (8 * n) a = Inr a'"
    using lt Suc.prems a'(1) by (subst ptr_init_loop.simps) (simp add: add.commute)
  moreover have "\<forall>i < n. a' ! (8 * i) = (if j \<le> i then 8 * Suc i else a ! (8 * i))"
    using a'(3) Suc.prems by (auto simp: nth_list_update not_less_eq_eq)
  ultimately show ?case using a'(2) by auto
qed

lemma ptr_loop_init_cycle:
  assumes "working_size = 64 * n" and "0 < n" and "8 * n \<le> length a"
  shows "\<exists>a'. ptr_loop_init working_size a = Inr a' \<and> length a' = length a \<and>
           cycle a' (map (\<lambda>j. 8 * j) [0..<n])"
proof -
  obtain a' where a': "ptr_init_loop 0 (8 * n) a = Inr a'" "length a' = length a"
    "\<forall>i < n. a' ! (8 * i) = 8 * Suc i"
    using ptr_init_loop_ok [OF assms(3), of 0] by auto
  let ?b = "a'[8 * n - 8 := 0]"
  have "ptr_loop_init working_size a = Inr ?b"
    using assms a' by (simp add: ptr_loop_init_def)
  moreover have "?b ! (8 * k) = 8 * (Suc k mod n)" if "k < n" for k
    using that a' assms(3) by (cases "Suc k = n") (auto simp: nth_list_update)
  then have "cycle ?b (map (\<lambda>j. 8 * j) [0..<n])"
    using a'(2) assms(2,3) by (auto simp: cycle_def distinct_map inj_on_def simp del: upt_Suc)
  ultimately show ?thesis using a'(2) by auto
qed

subsection \<open>The shuffle terminates and keeps the cycle\<close>

lemma cycle_in_lines: "set xs = lines n \<Longrightarrow> j < n \<Longrightarrow> 8 * j \<in> set xs"
  by (simp add: lines_def)

lemma shuffle_loop_cycle:
  assumes "cycle a xs" and "set xs = lines n" and "length xs = n" and "2 \<le> n" and "n \<le> 2 ^ 53"
    and "i \<le> n"
  shows "\<exists>a' rand' ys. shuffle_loop n i rand a = Some (Inr (a', rand')) \<and> cycle a' ys \<and>
           set ys = lines n \<and> length ys = n \<and> length a' = length a"
  using assms
proof (induction "n - i" arbitrary: i rand a xs)
  case 0
  then show ?case by (subst shuffle_loop.simps) auto
next
  case (Suc k)
  then have lt: "i < n" and k: "k = n - Suc i" by simp_all
  let ?to = "word_of_nat (n - i) :: 64 word"
  have to: "unat ?to = n - i" using Suc.prems(5) by (simp add: unat_of_nat)
  then obtain ofst rand' where draw: "mb_rand_range_ulong rand 0 ?to = Inr (ofst, rand')"
    and below: "unat ofst < n - i"
  proof -
    have "0 < n - i" "n - i \<le> 2 ^ 53" using lt Suc.prems(5) by simp_all
    then show thesis using range_ulong_below [of ?to rand, unfolded to] that by blast
  qed
  have "8 * i \<in> set xs" using lt by (rule cycle_in_lines [OF Suc.prems(2)])
  moreover have "8 * (i + unat ofst) \<in> set xs"
    by (rule cycle_in_lines [OF Suc.prems(2)]) (use below in simp)
  ultimately obtain a' ys where st: "shuffle_step a (8 * i) (8 * (i + unat ofst)) = Inr (a', False)"
    and ys: "cycle a' ys" "set ys = lines n" "length ys = n" "length a' = length a"
    using shuffle_step_cycle [OF Suc.prems(1), of "8 * i" "8 * (i + unat ofst)"] Suc.prems(2-4)
    by auto
  have "shuffle_loop n i rand a = shuffle_loop n (Suc i) rand' a'"
  proof -
    have idx: "j * 64 div 8 = 8 * j" for j :: nat by simp
    show ?thesis
      by (subst shuffle_loop.simps)
        (simp only: lt draw idx st if_True if_False sum.case prod.case)
  qed
  then show ?case
    using Suc.hyps(1) [OF k ys(1-3), of rand'] Suc.prems(4,5) lt ys(4) by auto
qed

subsection \<open>The check counts every line\<close>

lemma cycle_rotate: "cycle a xs \<Longrightarrow> cycle a (rotate1 xs)"
  by (auto simp: cycle_def rotate1_nth mod_Suc)

lemma cycle_from:
  assumes "cycle a xs" and "x \<in> set xs"
  shows "\<exists>ys. cycle a ys \<and> set ys = set xs \<and> length ys = length xs \<and> ys ! 0 = x"
proof -
  obtain i where i: "x = xs ! i" "i < length xs" using assms(2) by (metis in_set_conv_nth)
  have "cycle a (rotate m xs)" for m
    using assms(1) by (induction m) (auto intro: cycle_rotate)
  moreover have "0 < length xs" using i(2) by linarith
  then have "rotate i xs ! 0 = x" using i nth_rotate [of 0 xs i] by simp
  ultimately show ?thesis by (metis length_rotate set_rotate)
qed

lemma check_loop_counts:
  assumes "cycle a ys" and "ys ! 0 = 0" and "1 \<le> k" and "k \<le> length ys"
  shows "check_loop a (ys ! (k mod length ys)) k = Some (Inr (length ys))"
  using assms
proof (induction "length ys - k" arbitrary: k)
  case 0
  then show ?case by (subst check_loop.simps) simp
next
  case (Suc m)
  then have lt: "k < length ys" by simp
  have "distinct ys" "\<forall>x \<in> set ys. x < length a" using Suc.prems(1) by (simp_all add: cycle_def)
  with lt Suc.prems(3) have "ys ! k \<noteq> ys ! 0" and "ys ! k < length a"
    using nth_eq_iff_index_eq [of ys k 0] by (metis less_trans not_one_le_zero zero_less_one
        le_less_trans zero_le, metis nth_mem)
  moreover have "a ! (ys ! k) = ys ! (Suc k mod length ys)"
    using Suc.prems lt by (simp add: cycle_def)
  ultimately have "check_loop a (ys ! (k mod length ys)) k =
      check_loop a (ys ! (Suc k mod length ys)) (Suc k)"
    using lt Suc.prems(2) by (subst check_loop.simps) simp
  then show ?case using Suc.hyps Suc.prems lt by simp
qed

lemma check_ptr_loop_cycle:
  assumes "cycle a xs" and "0 \<in> set xs" and "length xs = n"
  shows "check_ptr_loop n a = Some (Inr ())"
proof -
  obtain ys where ys: "cycle a ys" "length ys = n" "ys ! 0 = 0"
    using cycle_from [OF assms(1,2)] assms(3) by auto
  then have ne: "0 < length ys" by (metis cycle_def length_greater_0_conv)
  have "a ! (ys ! 0) = ys ! (Suc 0 mod length ys)" "ys ! 0 < length a"
    using ys(1) ne by (simp_all add: cycle_def)
  then show ?thesis
    using check_loop_counts [OF ys(1,3), of 1] ys(2,3) ne
    by (simp add: check_ptr_loop_def Suc_le_eq)
qed

lemma chase_cycle:
  "cycle a ys \<Longrightarrow> chase a k (ys ! (i mod length ys)) = Inr (ys ! ((i + k) mod length ys))"
proof (induction k arbitrary: i)
  case 0
  then show ?case by simp
next
  case (Suc k)
  let ?m = "i mod length ys"
  have "?m < length ys" using Suc.prems by (auto simp: cycle_def)
  then have "ys ! ?m < length a" "a ! (ys ! ?m) = ys ! (Suc i mod length ys)"
    using Suc.prems by (auto simp: cycle_def mod_Suc_eq)
  then show ?case using Suc.IH [OF Suc.prems, of "Suc i"] by simp
qed

subsection \<open>A single cache line never gets past the shuffle\<close>

lemma shuffle_step_single:
  "0 < length a \<Longrightarrow> a ! 0 = 0 \<Longrightarrow>
     \<exists>a'. shuffle_step a 0 0 = Inr (a', True) \<and> a' ! 0 = 0 \<and> length a' = length a"
  by (simp add: shuffle_step_def)

lemma shuffle_loop_single:
  assumes "shuffle_loop n i rand a = Some res"
  shows "n = 1 \<longrightarrow> i = 0 \<longrightarrow> 0 < length a \<longrightarrow> a ! 0 = 0 \<longrightarrow> False"
proof (rule shuffle_loop.raw_induct
    [where P = "\<lambda>n i rand a res. n = 1 \<longrightarrow> i = 0 \<longrightarrow> 0 < length a \<longrightarrow> a ! 0 = 0 \<longrightarrow> False",
     OF _ assms])
  fix f n i rand a res
  assume IH: "\<And>n i rand a res. f n i rand a = Some res \<Longrightarrow>
      n = 1 \<longrightarrow> i = 0 \<longrightarrow> 0 < length a \<longrightarrow> a ! 0 = 0 \<longrightarrow> False"
    and eq: "(if i < n
      then case mb_rand_range_ulong rand 0 (word_of_nat (n - i)) of
             Inl e \<Rightarrow> Some (Inl e)
           | Inr (ofst, rand') \<Rightarrow>
               (case shuffle_step a (i * 64 div 8) ((i + unat ofst) * 64 div 8) of
                  Inl e \<Rightarrow> Some (Inl e)
                | Inr (a', retry) \<Rightarrow>
                    (if retry then f n i rand' a' else f n (Suc i) rand' a'))
      else Some (Inr (a, rand))) = Some res"
  show "n = 1 \<longrightarrow> i = 0 \<longrightarrow> 0 < length a \<longrightarrow> a ! 0 = 0 \<longrightarrow> False"
  proof (intro impI)
    assume h: "n = 1" "i = 0" "0 < length a" "a ! 0 = 0"
    obtain ofst rand' where draw: "mb_rand_range_ulong rand 0 1 = Inr (ofst, rand')"
      and "unat ofst = 0"
      using range_ulong_below [of 1 rand] by auto
    moreover obtain a' where "shuffle_step a 0 0 = Inr (a', True)" "a' ! 0 = 0"
      "length a' = length a" using shuffle_step_single h by blast
    ultimately show False using eq IH [of 1 0 rand' a' res] h by simp
  qed
qed

subsection \<open>Properties\<close>

lemma prepare_cycle:
  assumes "working_size = 64 * n" and "2 \<le> n" and "n \<le> 2 ^ 53" and "8 * n \<le> length a"
  shows "\<exists>a' ys. ptr_loop_prepare working_size rand a = Some (Inr a') \<and> cycle a' ys \<and>
           set ys = lines n \<and> length ys = n \<and> length a' = length a"
proof -
  obtain a0 where a0: "ptr_loop_init working_size a = Inr a0" "length a0 = length a"
    "cycle a0 (map (\<lambda>j. 8 * j) [0..<n])"
    using ptr_loop_init_cycle [OF assms(1) _ assms(4)] assms(2) by auto
  have "set (map (\<lambda>j. 8 * j) [0..<n]) = lines n" by (simp add: lines_def atLeast_upt)
  then obtain a1 rand' ys where a1: "shuffle_loop n 0 rand a0 = Some (Inr (a1, rand'))"
    "cycle a1 ys" "set ys = lines n" "length ys = n" "length a1 = length a"
    using shuffle_loop_cycle [OF a0(3) _ _ assms(2,3), of 0 rand] a0(2) by auto
  have "0 \<in> set ys" using assms(2) a1(3) by (auto simp: lines_def)
  from check_ptr_loop_cycle [OF a1(2) this a1(4)] a0(1) a1 assms(1) show ?thesis
    by (auto simp: ptr_loop_prepare_def)
qed

text \<open>
  C20: preparing the pointer loop succeeds and gives one cycle. For every working area that
  is a whole number of at least two cache lines and lies in the mapped memory, and for every
  seed, initialisation and shuffle make no access outside the area, the shuffle terminates
  without ever retrying forever, the check that counts the lines passes, and the pointers
  that result form a single cycle that visits each cache line exactly once.
\<close>

theorem ptr_loop_prepare_single_cycle:
  assumes "working_size = 64 * n" and "2 \<le> n" and "n \<le> 2 ^ 53" and "8 * n \<le> length a"
  shows "\<exists>a' ys. ptr_loop_prepare working_size rand a = Some (Inr a') \<and> cycle a' ys \<and>
           set ys = lines n \<and> length ys = n \<and> length a' = length a"
  using assms by (rule prepare_cycle)

text \<open>
  C30: the timed traversal stays inside the loop and visits the lines evenly: after the
  preparation, following the pointers for \<open>k\<close> steps from the start of the area is defined
  for every \<open>k\<close>, it comes back to the start exactly at the multiples of the number of lines,
  and the lines met in the first \<open>n\<close> steps are all of them.
\<close>

theorem ptr_loop_chase:
  assumes "working_size = 64 * n" and "2 \<le> n" and "n \<le> 2 ^ 53" and "8 * n \<le> length a"
    and "ptr_loop_prepare working_size rand a = Some (Inr a')"
  shows "(\<forall>k. \<exists>p. chase a' k 0 = Inr p \<and> p \<in> lines n \<and> (p = 0 \<longleftrightarrow> n dvd k)) \<and>
         lines n = {p. \<exists>k < n. chase a' k 0 = Inr p}"
proof -
  obtain a0 where a0: "ptr_loop_init working_size a = Inr a0" "length a0 = length a"
    "cycle a0 (map (\<lambda>j. 8 * j) [0..<n])"
    using ptr_loop_init_cycle [OF assms(1) _ assms(4)] assms(2) by auto
  have "set (map (\<lambda>j. 8 * j) [0..<n]) = lines n" by (simp add: lines_def atLeast_upt)
  then obtain rand' xs where "cycle a' xs" "set xs = lines n" "length xs = n"
    using shuffle_loop_cycle [OF a0(3) _ _ assms(2,3), of 0 rand] a0 assms(1,5)
    by (auto simp: ptr_loop_prepare_def split: option.splits sum.splits)
  moreover have "0 \<in> lines n" using assms(2) by (auto simp: lines_def)
  ultimately obtain ys where ys: "cycle a' ys" "set ys = lines n" "length ys = n" "ys ! 0 = 0"
    using cycle_from by metis
  have ch: "chase a' k 0 = Inr (ys ! (k mod n))" for k
    using chase_cycle [OF ys(1), of k 0] ys(3,4) by simp
  have n: "0 < n" using assms(2) by simp
  have "ys ! (k mod n) \<in> lines n" for k
    using ys(2,3) n nth_mem [of "k mod n" ys] by simp
  moreover have "ys ! (k mod n) = 0 \<longleftrightarrow> n dvd k" for k
    using ys n nth_eq_iff_index_eq [of ys "k mod n" 0] by (auto simp: cycle_def)
  moreover have "lines n = {p. \<exists>k < n. chase a' k 0 = Inr p}"
    unfolding ys(2) [symmetric] using ys(3)
    by (auto simp: ch in_set_conv_nth) (metis mod_less)
  ultimately show ?thesis using ch by simp
qed

text \<open>
  C31: with a working area of one cache line (64 bytes) the shuffle retries forever:
  the only line points to itself whatever is drawn, so preparing the loop does not return.
\<close>

theorem ptr_loop_prepare_one_line_hangs:
  assumes "working_size = 64" and "8 \<le> length a"
  shows "ptr_loop_prepare working_size rand a = None"
proof -
  obtain a0 where a0: "ptr_loop_init working_size a = Inr a0" "length a0 = length a"
    "cycle a0 (map (\<lambda>j. 8 * j) [0..<1])"
    using ptr_loop_init_cycle [of working_size 1 a] assms by auto
  then have "a0 ! 0 = 0" by (simp add: cycle_def)
  then have "shuffle_loop 1 0 rand a0 = None"
    using shuffle_loop_single [of 1 0 rand a0] a0(2) assms(2) by (cases "shuffle_loop 1 0 rand a0") auto
  then show ?thesis using a0 assms by (simp add: ptr_loop_prepare_def)
qed

theorem ptr_loop_prepare_single_cycle_witness:
  "\<exists>a' ys. ptr_loop_prepare 128 1 (replicate 16 0) = Some (Inr a') \<and> cycle a' ys \<and>
     set ys = {0, 8}"
proof -
  have "lines 2 = {0, 8}" by (auto simp: lines_def lessThan_nat_numeral)
  then show ?thesis
    using ptr_loop_prepare_single_cycle [of 128 2 "replicate 16 0" 1] by auto
qed

theorem ptr_loop_chase_witness:
  "\<exists>a'. ptr_loop_prepare 128 1 (replicate 16 0) = Some (Inr a') \<and>
     (\<exists>p. chase a' 3 0 = Inr p \<and> p \<in> lines 2 \<and> (p = 0 \<longleftrightarrow> 2 dvd (3::nat)))"
proof -
  obtain a' where a': "ptr_loop_prepare 128 1 (replicate 16 0) = Some (Inr a')"
  proof -
    obtain a0 where a0: "ptr_loop_init 128 (replicate 16 0) = Inr a0"
      "cycle a0 (map (\<lambda>j. 8 * j) [0..<2])"
      using ptr_loop_init_cycle [of 128 2 "replicate 16 0"] by auto
    obtain a1 rand' ys where "shuffle_loop 2 0 1 a0 = Some (Inr (a1, rand'))"
      "cycle a1 ys" "set ys = lines 2" "length ys = 2"
      using shuffle_loop_cycle [OF a0(2), of 2 0 1] by (auto simp: lines_def atLeast_upt)
    moreover from this have "check_ptr_loop 2 a1 = Some (Inr ())"
      using check_ptr_loop_cycle by (auto simp: lines_def)
    ultimately show thesis using a0 that by (simp add: ptr_loop_prepare_def)
  qed
  have "(\<forall>k. \<exists>p. chase a' k 0 = Inr p \<and> p \<in> lines 2 \<and> (p = 0 \<longleftrightarrow> 2 dvd k)) \<and>
      lines 2 = {p. \<exists>k < 2. chase a' k 0 = Inr p}"
    by (rule ptr_loop_chase [of 128 2 "replicate 16 0" 1 a']) (simp_all add: a')
  then show ?thesis using a' by blast
qed

theorem ptr_loop_prepare_one_line_hangs_witness:
  "ptr_loop_prepare 64 1 (replicate 8 0) = None"
  using ptr_loop_prepare_one_line_hangs [of 64 "replicate 8 0" 1] by simp

end
