(* ===== verification/MemBench.thy ===== *)
theory MemBench
  imports MemLoop IoUtil Affinity CFormat
begin

section \<open>micbench-mem\<close>

text \<open>
  src/src/micbench-mem.c around the pointer loop: the options, the working areas, the timed
  sequential and random stress, a thread and the summary; the main program has a theory of its
  own. The inner loops are assembler text that the build generates, so they are a parameter: how
  many operations one of them counts, how many bytes it covers and how far it moves the pointer.
  The kernel is a parameter as in the theory of the I/O helpers.
\<close>

unbundle bit_operations_syntax

subsection \<open>Options\<close>

record mem_option =
  mo_multi :: int
  mo_affinities :: affinities
  mo_seq :: bool
  mo_rand :: bool
  mo_local :: bool
  mo_timeout :: int
  mo_size :: int
  mo_hugetlbfile :: "string option"
  mo_hugepage_size :: int
  mo_verbose :: bool

definition mem_default_option :: mem_option where
  "mem_default_option =
     \<lparr>mo_multi = 1, mo_affinities = None, mo_seq = True, mo_rand = False, mo_local = False,
      mo_timeout = 10, mo_size = 2 ^ 20, mo_hugetlbfile = None, mo_hugepage_size = 2 ^ 21,
      mo_verbose = False\<rparr>"

text \<open>The option string \<open>+m:t:SRLa:s:H:z:v\<close>.\<close>

definition mem_optspec :: optspec where
  "mem_optspec = map (\<lambda>c. (c, False)) ''SRLv'' @ map (\<lambda>c. (c, True)) ''mtasHz''"

definition mem_set_flag :: "char \<Rightarrow> mem_option \<Rightarrow> mem_option c_result" where
  "mem_set_flag c opt =
     (if c = CHR ''S'' then Inr (opt\<lparr>mo_seq := True, mo_rand := False\<rparr>)
      else if c = CHR ''R'' then Inr (opt\<lparr>mo_seq := False, mo_rand := True\<rparr>)
      else if c = CHR ''L'' then Inr (opt\<lparr>mo_local := True\<rparr>)
      else if c = CHR ''v'' then Inr (opt\<lparr>mo_verbose := True\<rparr>)
      else Inl Exit_Failure)"

definition mem_set_value :: "char \<Rightarrow> string \<Rightarrow> string list \<Rightarrow> mem_option \<Rightarrow> mem_option c_result" where
  "mem_set_value c arg rest opt =
     (let num = fst (strtol arg)
      in if c = CHR ''m'' then Inr (opt\<lparr>mo_multi := to_int num\<rparr>)
         else if c = CHR ''t'' then Inr (opt\<lparr>mo_timeout := to_int num\<rparr>)
         else if c = CHR ''a'' then
           bind_c (add_affinity (mo_multi opt) (mo_affinities opt) arg rest) (\<lambda>(affs, ok).
           if ok then Inr (opt\<lparr>mo_affinities := affs\<rparr>) else Inl Exit_Failure)
         else if c = CHR ''s'' then Inr (opt\<lparr>mo_size := num\<rparr>)
         else if c = CHR ''H'' then Inr (opt\<lparr>mo_hugetlbfile := Some arg\<rparr>)
         else if c = CHR ''z'' then Inr (opt\<lparr>mo_hugepage_size := num\<rparr>)
         else Inl Exit_Failure)"

fun mem_option_loop :: "(opt_event \<times> string list) list \<Rightarrow> mem_option \<Rightarrow> mem_option c_result" where
  "mem_option_loop [] opt = Inr opt"
| "mem_option_loop ((ev, rest) # evs) opt =
     bind_c
       (case ev of
          Opt c \<Rightarrow> mem_set_flag c opt
        | OptArg c arg \<Rightarrow> mem_set_value c arg rest opt
        | OptBad \<Rightarrow> Inl Exit_Failure)
       (mem_option_loop evs)"

definition mem_parse_args :: "string list \<Rightarrow> mem_option c_result" where
  "mem_parse_args argv = mem_option_loop (fst (getopt_scan mem_optspec argv)) mem_default_option"

text \<open>
  What the program relies on of its options: every number fits the type of its field, exactly one
  of the two access patterns is chosen, and an entry of the affinity array belongs to its thread.
\<close>

definition mem_option_typed :: "mem_option \<Rightarrow> bool" where
  "mem_option_typed opt \<longleftrightarrow>
     in_int (mo_multi opt) \<and> in_int (mo_timeout opt) \<and> in_long (mo_size opt) \<and>
     in_long (mo_hugepage_size opt) \<and> (mo_seq opt \<longleftrightarrow> \<not> mo_rand opt) \<and>
     affinities_ok (mo_affinities opt)"

lemma mem_default_typed: "mem_option_typed mem_default_option"
  by (simp add: mem_option_typed_def mem_default_option_def in_int_def in_long_def affinities_ok_def)

lemma mem_set_flag_typed:
  "mem_option_typed opt \<Longrightarrow> mem_set_flag c opt = Inr opt' \<Longrightarrow> mem_option_typed opt'"
  by (auto simp: mem_set_flag_def mem_option_typed_def split: if_splits)

lemma mem_set_value_typed:
  assumes "mem_option_typed opt" and "mem_set_value c arg rest opt = Inr opt'"
  shows "mem_option_typed opt'"
proof (cases "c = CHR ''a''")
  case True
  then obtain affs where "add_affinity (mo_multi opt) (mo_affinities opt) arg rest = Inr (affs, True)"
    and opt': "opt' = opt\<lparr>mo_affinities := affs\<rparr>"
    using assms(2) unfolding mem_set_value_def Let_def
    by (fastforce simp: bind_c_eq_Inr split: if_splits)
  then show ?thesis
    using assms(1) add_affinity_ok [of "mo_affinities opt"] by (simp add: mem_option_typed_def)
next
  case False
  then show ?thesis
    using assms by (auto simp: mem_set_value_def Let_def mem_option_typed_def split: if_splits)
qed

lemma mem_option_loop_typed:
  "mem_option_typed opt \<Longrightarrow> mem_option_loop evs opt = Inr opt' \<Longrightarrow> mem_option_typed opt'"
proof (induction evs arbitrary: opt)
  case (Cons e evs)
  obtain ev rest where e: "e = (ev, rest)" by fastforce
  obtain opt1 where "mem_option_loop evs opt1 = Inr opt'"
    and "(case ev of Opt c \<Rightarrow> mem_set_flag c opt | OptArg c arg \<Rightarrow> mem_set_value c arg rest opt
            | OptBad \<Rightarrow> Inl Exit_Failure) = Inr opt1"
    using Cons.prems(2) by (auto simp: e bind_c_eq_Inr)
  then show ?case
    using Cons.IH [of opt1] mem_set_flag_typed [OF Cons.prems(1)] mem_set_value_typed [OF Cons.prems(1)]
    by (cases ev) auto
qed simp

lemma mem_parse_typed: "mem_parse_args argv = Inr opt \<Longrightarrow> mem_option_typed opt"
  unfolding mem_parse_args_def by (rule mem_option_loop_typed [OF mem_default_typed])

text \<open>
  The reference: an option that takes a value has the value of its last occurrence, a flag is set
  if it occurs, and of \<open>-S\<close> and \<open>-R\<close> the last one decides.
\<close>

fun last_value :: "char \<Rightarrow> opt_event list \<Rightarrow> string option" where
  "last_value c [] = None"
| "last_value c (e # es) =
     (case last_value c es of
        Some a \<Rightarrow> Some a
      | None \<Rightarrow> (case e of OptArg c' a \<Rightarrow> if c' = c then Some a else None | _ \<Rightarrow> None))"

fun last_pattern :: "opt_event list \<Rightarrow> char option" where
  "last_pattern [] = None"
| "last_pattern (e # es) =
     (case last_pattern es of
        Some c \<Rightarrow> Some c
      | None \<Rightarrow> (case e of Opt c \<Rightarrow> if c = CHR ''S'' \<or> c = CHR ''R'' then Some c else None | _ \<Rightarrow> None))"

definition num_value :: "int \<Rightarrow> string option \<Rightarrow> int" where
  "num_value d a = (case a of None \<Rightarrow> d | Some arg \<Rightarrow> fst (strtol arg))"

definition mem_option_of :: "opt_event list \<Rightarrow> mem_option \<Rightarrow> mem_option \<Rightarrow> bool" where
  "mem_option_of evs opt opt' \<longleftrightarrow>
     mo_multi opt' = (case last_value CHR ''m'' evs of None \<Rightarrow> mo_multi opt | Some a \<Rightarrow> to_int (fst (strtol a))) \<and>
     mo_timeout opt' = (case last_value CHR ''t'' evs of None \<Rightarrow> mo_timeout opt | Some a \<Rightarrow> to_int (fst (strtol a))) \<and>
     mo_size opt' = num_value (mo_size opt) (last_value CHR ''s'' evs) \<and>
     mo_hugepage_size opt' = num_value (mo_hugepage_size opt) (last_value CHR ''z'' evs) \<and>
     mo_hugetlbfile opt' = (case last_value CHR ''H'' evs of None \<Rightarrow> mo_hugetlbfile opt | Some a \<Rightarrow> Some a) \<and>
     mo_rand opt' = (case last_pattern evs of None \<Rightarrow> mo_rand opt | Some c \<Rightarrow> c = CHR ''R'') \<and>
     mo_local opt' = (mo_local opt \<or> Opt CHR ''L'' \<in> set evs) \<and>
     mo_verbose opt' = (mo_verbose opt \<or> Opt CHR ''v'' \<in> set evs)"

lemma mem_set_flag_of: "mem_set_flag c opt = Inr opt' \<Longrightarrow> mem_option_of [Opt c] opt opt'"
  by (auto simp: mem_set_flag_def mem_option_of_def num_value_def split: if_splits)

lemma mem_set_value_of: "mem_set_value c arg rest opt = Inr opt' \<Longrightarrow> mem_option_of [OptArg c arg] opt opt'"
  by (auto simp: mem_set_value_def mem_option_of_def num_value_def Let_def bind_c_eq_Inr split: if_splits)

lemma mem_option_of_Cons:
  "mem_option_of [e] opt opt1 \<Longrightarrow> mem_option_of es opt1 opt2 \<Longrightarrow> mem_option_of (e # es) opt opt2"
  by (auto simp: mem_option_of_def num_value_def split: option.splits)

lemma mem_option_loop_of:
  "mem_option_loop evs opt = Inr opt' \<Longrightarrow> mem_option_of (map fst evs) opt opt'"
proof (induction evs arbitrary: opt)
  case (Cons e evs)
  obtain ev rest where e: "e = (ev, rest)" by fastforce
  obtain opt1 where "mem_option_loop evs opt1 = Inr opt'"
    and "(case ev of Opt c \<Rightarrow> mem_set_flag c opt | OptArg c arg \<Rightarrow> mem_set_value c arg rest opt
            | OptBad \<Rightarrow> Inl Exit_Failure) = Inr opt1"
    using Cons.prems by (auto simp: e bind_c_eq_Inr)
  then show ?case
    using Cons.IH [of opt1] mem_option_of_Cons [of ev opt opt1] mem_set_flag_of [of _ opt opt1]
      mem_set_value_of [of _ _ rest opt opt1] by (cases ev) (auto simp: e)
qed (simp add: mem_option_of_def num_value_def)

text \<open>A refused command line ends the program with a failure; only \<open>-a\<close> can do worse.\<close>

lemma mem_option_loop_stops:
  "mem_option_loop evs opt = Inl e \<Longrightarrow> e = Exit_Failure \<or> (\<exists>arg. OptArg CHR ''a'' arg \<in> fst ` set evs)"
proof (induction evs arbitrary: opt)
  case (Cons e' evs)
  obtain ev rest where e': "e' = (ev, rest)" by fastforce
  let ?r = "case ev of Opt c \<Rightarrow> mem_set_flag c opt | OptArg c arg \<Rightarrow> mem_set_value c arg rest opt
    | OptBad \<Rightarrow> Inl Exit_Failure"
  show ?case
  proof (cases ?r)
    case (Inl e2)
    then have "e = e2" using Cons.prems by (simp add: e')
    then show ?thesis using Inl
      by (cases ev) (auto simp: e' mem_set_flag_def mem_set_value_def Let_def split: if_splits)
  next
    case (Inr opt1)
    then show ?thesis using Cons by (auto simp: e')
  qed
qed simp

subsection \<open>Working areas\<close>

record 'w mem_kernel = "'w kernel" +
  m_rdtsc :: "'w \<Rightarrow> 32 word \<times> 32 word \<times> 'w"
  m_open :: "string \<Rightarrow> 'w \<Rightarrow> int \<times> 'w"
  m_mmap :: "64 word \<Rightarrow> bool \<Rightarrow> int \<Rightarrow> 'w \<Rightarrow> addr option \<times> 'w"
  m_mbind :: "addr \<Rightarrow> 64 word \<Rightarrow> 64 word \<Rightarrow> 'w \<Rightarrow> int \<times> 'w"
  m_page_size :: int
  m_numa_arch :: bool
  m_sched_setaffinity :: "1024 word \<Rightarrow> 'w \<Rightarrow> 'w"
  m_munmap :: "addr \<Rightarrow> 64 word \<Rightarrow> 'w \<Rightarrow> 'w"
  m_close :: "int \<Rightarrow> 'w \<Rightarrow> 'w"

record mem_th_arg =
  mt_id :: int
  mt_affinity :: "mb_affinity option"
  mt_area :: addr
  mt_size :: int
  mt_fd :: int

text \<open>The size to map: rounded up to the page size or the size of a huge page, in \<open>size_t\<close>.\<close>

definition round_up :: "64 word \<Rightarrow> 64 word \<Rightarrow> 64 word c_result" where
  "round_up sz align =
     (if align = 0 then Inl Undefined
      else if sz mod align \<noteq> 0 then Inr (sz + (align - sz mod align))
      else Inr sz)"

definition mem_mmap_size :: "('w, 'k) mem_kernel_scheme \<Rightarrow> mem_option \<Rightarrow> 64 word c_result" where
  "mem_mmap_size K opt =
     round_up (word_of_int (mo_size opt))
       (case mo_hugetlbfile opt of
          None \<Rightarrow> word_of_int (m_page_size K)
        | Some f \<Rightarrow> word_of_int (mo_hugepage_size opt))"

definition mem_open_huge ::
  "('w, 'k) mem_kernel_scheme \<Rightarrow> mem_option \<Rightarrow> 'w \<Rightarrow> (int \<times> 'w) c_result" where
  "mem_open_huge K opt w =
     (case mo_hugetlbfile opt of
        None \<Rightarrow> Inr (-1, w)
      | Some f \<Rightarrow> (let (fd, w1) = m_open K f w in if fd = -1 then Inl Exit_Failure else Inr (fd, w1)))"

definition mem_bind ::
  "('w, 'k) mem_kernel_scheme \<Rightarrow> mb_affinity option \<Rightarrow> addr \<Rightarrow> 64 word \<Rightarrow> 'w \<Rightarrow> 'w c_result" where
  "mem_bind K aff area mmap_size w =
     (case aff of
        None \<Rightarrow> Inr w
      | Some a \<Rightarrow>
          if nodemask a \<noteq> 0 \<and> m_numa_arch K
          then let (ret, w1) = m_mbind K area mmap_size (nodemask a) w
               in if ret \<noteq> 0 then Inl Exit_Failure else Inr w1
          else Inr w)"

text \<open>Map one area: open, map, bind.\<close>

definition mem_map_area ::
  "('w, 'k) mem_kernel_scheme \<Rightarrow> mem_option \<Rightarrow> 64 word \<Rightarrow> mb_affinity option \<Rightarrow> 'w \<Rightarrow>
     (int \<times> addr \<times> 'w) c_result" where
  "mem_map_area K opt mmap_size aff w =
     bind_c (mem_open_huge K opt w) (\<lambda>(fd, w1).
     let (area, w2) = m_mmap K mmap_size (mo_hugetlbfile opt = None) fd w1
     in case area of
          None \<Rightarrow> Inl Exit_Failure
        | Some p \<Rightarrow> bind_c (mem_bind K aff p mmap_size w2) (\<lambda>w3. Inr (fd, p, w3)))"

text \<open>
  A local area is then set to zero; the clock is read before, and after if the time is to be
  shown on the error stream. The memory of an area is its list of longs, all zero at first.
\<close>

definition mem_memset_clock :: "('w, 'k) mem_kernel_scheme \<Rightarrow> mem_option \<Rightarrow> 'w \<Rightarrow> 'w" where
  "mem_memset_clock K opt w =
     (let (tv, w1) = k_gettimeofday K w
      in if mo_verbose opt then snd (mb_elapsed_time_from K tv w1) else w1)"

fun mem_map_local ::
  "('w, 'k) mem_kernel_scheme \<Rightarrow> mem_option \<Rightarrow> 64 word \<Rightarrow> (int \<times> mb_affinity option) list \<Rightarrow> 'w \<Rightarrow>
     (mem_th_arg list \<times> 'w) c_result" where
  "mem_map_local K opt mmap_size [] w = Inr ([], w)"
| "mem_map_local K opt mmap_size ((i, aff) # rest) w =
     bind_c (mem_map_area K opt mmap_size aff w) (\<lambda>(fd, p, w1).
     bind_c (mem_map_local K opt mmap_size rest (mem_memset_clock K opt w1)) (\<lambda>(args, w2).
     Inr (\<lparr>mt_id = i, mt_affinity = aff, mt_area = p, mt_size = mo_size opt, mt_fd = fd\<rparr> # args, w2)))"

text \<open>The affinity of each thread; the array must have an entry for each.\<close>

definition mem_thread_affinities :: "mem_option \<Rightarrow> (int \<times> mb_affinity option) list c_result" where
  "mem_thread_affinities opt =
     (case mo_affinities opt of
        None \<Rightarrow> Inr (map (\<lambda>i. (int i, None)) [0..<nat (mo_multi opt)])
      | Some affs \<Rightarrow>
          if nat (mo_multi opt) \<le> length affs
          then Inr (map (\<lambda>i. (int i, affs ! i)) [0..<nat (mo_multi opt)])
          else Inl Undefined)"

text \<open>
  The arguments of the threads. With a shared area the binding follows the first thread; its
  descriptor is returned beside the arguments.
\<close>

definition mem_setup ::
  "('w, 'k) mem_kernel_scheme \<Rightarrow> mem_option \<Rightarrow> 'w \<Rightarrow> (mem_th_arg list \<times> int \<times> 'w) c_result" where
  "mem_setup K opt w =
     bind_c (mem_thread_affinities opt) (\<lambda>affs.
     bind_c (mem_mmap_size K opt) (\<lambda>mmap_size.
     if mo_local opt
     then bind_c (mem_map_local K opt mmap_size affs w) (\<lambda>(args, w1). Inr (args, -1, w1))
     else case affs of
            [] \<Rightarrow> Inl Undefined
          | (i0, aff0) # rest \<Rightarrow>
              bind_c (mem_map_area K opt mmap_size aff0 w) (\<lambda>(fd, p, w1).
              Inr (map (\<lambda>(i, aff). \<lparr>mt_id = i, mt_affinity = aff, mt_area = p,
                                     mt_size = mo_size opt, mt_fd = -1\<rparr>) affs, fd, w1))))"

subsection \<open>Sequential stress\<close>

record perf_counter =
  pc_ops :: "64 word"
  pc_clk :: "64 word"
  pc_wallclocktime :: c_double

text \<open>What the build generates: operations counted and bytes covered per execution.\<close>

record inner_loop =
  il_num_ops :: nat
  il_region_size :: nat
  il_stride_size :: nat

definition mb_read_tsc :: "('w, 'k) mem_kernel_scheme \<Rightarrow> 'w \<Rightarrow> 64 word \<times> 'w" where
  "mb_read_tsc K w =
     (let (eax, edx, w1) = m_rdtsc K w in (push_bit 32 (ucast edx) OR ucast eax, w1))"

text \<open>
  One scan of the working area, in bytes: the inner loop reads the region at \<open>ptr\<close>, which must
  be mapped, and moves on, until the end of the area is reached. The result is the number of
  operations executed. A region of no bytes would never reach the end.
\<close>

partial_function (option) mem_scan :: "inner_loop \<Rightarrow> nat \<Rightarrow> nat \<Rightarrow> nat \<Rightarrow> nat \<Rightarrow> nat c_result option" where
  "mem_scan il mapped ptr ptr_end ops =
     (if ptr < ptr_end
      then if ptr + il_region_size il \<le> mapped
           then mem_scan il mapped (ptr + il_region_size il) ptr_end (ops + il_num_ops il)
           else Some (Inl Undefined)
      else Some (Inr ops))"

text \<open>\<open>ptr_end = working_area + (working_size / sizeof(long))\<close>, in bytes.\<close>

definition mem_pass :: "inner_loop \<Rightarrow> nat \<Rightarrow> nat \<Rightarrow> nat c_result option" where
  "mem_pass il mapped working_size = mem_scan il mapped 0 (working_size div 8 * 8) 0"

definition mem_iter_count :: "nat \<Rightarrow> nat c_result" where
  "mem_iter_count working_size =
     (if working_size = 0 then Inl Undefined
      else let n = 8 * 2 ^ 30 div working_size in Inr (if n = 0 then 1 else n))"

text \<open>The operations \<open>do_memory_stress_seq\<close> adds to the counter for all passes of one round.\<close>

definition mem_counted_ops :: "inner_loop \<Rightarrow> nat \<Rightarrow> nat \<Rightarrow> 64 word" where
  "mem_counted_ops il working_size iter_count =
     of_nat (il_num_ops il) * of_nat (working_size div il_region_size il) * of_nat iter_count"

text \<open>The passes of one round; \<open>execd\<close> collects the operations executed.\<close>

primrec mem_passes :: "inner_loop \<Rightarrow> nat \<Rightarrow> nat \<Rightarrow> nat \<Rightarrow> nat \<Rightarrow> nat c_result option" where
  "mem_passes il mapped working_size 0 execd = Some (Inr execd)"
| "mem_passes il mapped working_size (Suc n) execd =
     (case mem_pass il mapped working_size of
        None \<Rightarrow> None
      | Some (Inl e) \<Rightarrow> Some (Inl e)
      | Some (Inr ops) \<Rightarrow> mem_passes il mapped working_size n (execd + ops))"

text \<open>
  The timed loop; \<open>execd\<close> is not in the source, it counts what has been executed. The last
  elapsed time ends up in \<open>wallclocktime\<close>.
\<close>

partial_function (option) mem_seq_loop ::
  "('w, 'k) mem_kernel_scheme \<Rightarrow> inner_loop \<Rightarrow> int \<Rightarrow> nat \<Rightarrow> nat \<Rightarrow> nat \<Rightarrow> timeval \<Rightarrow>
     perf_counter \<Rightarrow> nat \<Rightarrow> 'w \<Rightarrow> (perf_counter \<times> nat \<times> 'w) c_result option" where
  "mem_seq_loop K il timeout mapped working_size iter_count start_tv pc execd w =
     (let (usec, w1) = mb_elapsed_usec_from K start_tv w; t = d_of_int usec
      in if d_less t (d_of_int (timeout * 1000000))
         then let (t0, w2) = mb_read_tsc K w1
              in case mem_passes il mapped working_size iter_count 0 of
                   None \<Rightarrow> None
                 | Some (Inl e) \<Rightarrow> Some (Inl e)
                 | Some (Inr ops) \<Rightarrow>
                     (let (t1, w3) = mb_read_tsc K w2
                      in mem_seq_loop K il timeout mapped working_size iter_count start_tv
                           (pc\<lparr>pc_clk := pc_clk pc + (t1 - t0),
                               pc_ops := pc_ops pc + mem_counted_ops il working_size iter_count\<rparr>)
                           (execd + ops) w3)
         else Some (Inr (pc\<lparr>pc_wallclocktime := d_div t (Fin 1000000)\<rparr>, execd, w1)))"

text \<open>\<open>il64\<close> is the inner loop for areas below 1024 bytes. The barrier, at which all threads arrive, only delays them.\<close>

definition do_memory_stress_seq ::
  "('w, 'k) mem_kernel_scheme \<Rightarrow> inner_loop \<Rightarrow> inner_loop \<Rightarrow> mem_option \<Rightarrow> nat \<Rightarrow> nat \<Rightarrow>
     perf_counter \<Rightarrow> 'w \<Rightarrow> (perf_counter \<times> nat \<times> 'w) c_result option" where
  "do_memory_stress_seq K il il64 opt mapped working_size pc w =
     (case mem_iter_count working_size of
        Inl e \<Rightarrow> Some (Inl e)
      | Inr iter_count \<Rightarrow>
          (let (start_tv, w1) = k_gettimeofday K w
           in mem_seq_loop K (if mo_size opt < 1024 then il64 else il) (mo_timeout opt) mapped
                working_size iter_count start_tv pc 0 w1))"

subsection \<open>Random stress\<close>

text \<open>\<open>num_ops\<close> is \<open>MEM_INNER_LOOP_RANDOM_NUM_OPS\<close>: the loads of one execution of the inner loop.\<close>

partial_function (option) mem_rand_loop ::
  "('w, 'k) mem_kernel_scheme \<Rightarrow> nat \<Rightarrow> int \<Rightarrow> area \<Rightarrow> timeval \<Rightarrow> perf_counter \<Rightarrow> 'w \<Rightarrow>
     (perf_counter \<times> 'w) c_result option" where
  "mem_rand_loop K num_ops timeout a start_tv pc w =
     (let (t, w1) = mb_elapsed_time_from K start_tv w
      in if d_less t (d_of_int timeout)
         then let (t0, w2) = mb_read_tsc K w1
              in case chase a (1024 * num_ops) 0 of
                   Inl e \<Rightarrow> Some (Inl e)
                 | Inr ptr \<Rightarrow>
                     (let (t1, w3) = mb_read_tsc K w2
                      in mem_rand_loop K num_ops timeout a start_tv
                           (pc\<lparr>pc_clk := pc_clk pc + (t1 - t0),
                               pc_ops := pc_ops pc + of_nat (1024 * num_ops)\<rparr>) w3)
         else Some (Inr (pc\<lparr>pc_wallclocktime := t\<rparr>, w1)))"

text \<open>
  \<open>seed\<close> is the thread id plus the time. The loop of pointers is prepared, walked once to evict
  the cache lines, and timed; the clock is also read around the shuffle. The last line goes to
  the standard output.
\<close>

definition evict_walk :: "area \<Rightarrow> unit c_result option" where
  "evict_walk a =
     (case load_long a 0 of
        Inl e \<Rightarrow> Some (Inl e)
      | Inr p \<Rightarrow>
          (case check_loop a p 1 of
             None \<Rightarrow> None | Some (Inl e) \<Rightarrow> Some (Inl e) | Some (Inr k) \<Rightarrow> Some (Inr ())))"

definition shuffle_clock :: "('w, 'k) mem_kernel_scheme \<Rightarrow> mem_option \<Rightarrow> 'w \<Rightarrow> 'w" where
  "shuffle_clock K opt w =
     (let (tv, w1) = k_gettimeofday K w;
          w2 = (if mo_verbose opt then snd (mb_elapsed_time_from K tv w1) else w1)
      in snd (k_gettimeofday K w2))"

definition do_memory_stress_rand ::
  "('w, 'k) mem_kernel_scheme \<Rightarrow> nat \<Rightarrow> mem_option \<Rightarrow> int \<Rightarrow> nat \<Rightarrow> area \<Rightarrow> perf_counter \<Rightarrow> 'w \<Rightarrow>
     (perf_counter \<times> area \<times> string \<times> 'w) c_result option" where
  "do_memory_stress_rand K num_ops opt seed working_size a pc w =
     (case ptr_loop_prepare working_size (srand48_r seed) a of
        None \<Rightarrow> None
      | Some (Inl e) \<Rightarrow> Some (Inl e)
      | Some (Inr a1) \<Rightarrow>
          (case evict_walk a1 of
             None \<Rightarrow> None
           | Some (Inl e) \<Rightarrow> Some (Inl e)
           | Some (Inr u) \<Rightarrow>
               (let (start_tv, w1) = k_gettimeofday K (shuffle_clock K opt w)
                in case mem_rand_loop K num_ops (mo_timeout opt) a1 start_tv pc w1 of
                     None \<Rightarrow> None
                   | Some (Inl e) \<Rightarrow> Some (Inl e)
                   | Some (Inr (pc', w2)) \<Rightarrow>
                       Some (Inr (pc', a1,
                         ''loop end: t='' @ fmt_lf (pc_wallclocktime pc') @ newline, w2)))))"

subsection \<open>A thread\<close>

text \<open>The result: the counters, what the thread printed and what it executed in sequential mode.\<close>

definition mem_thread_handler ::
  "('w, 'k) mem_kernel_scheme \<Rightarrow> inner_loop \<Rightarrow> inner_loop \<Rightarrow> nat \<Rightarrow> mem_option \<Rightarrow> int \<Rightarrow> nat \<Rightarrow>
     mem_th_arg \<Rightarrow> area \<Rightarrow> perf_counter \<Rightarrow> 'w \<Rightarrow> (perf_counter \<times> string \<times> 'w) c_result option" where
  "mem_thread_handler K il il64 num_ops opt seed mapped arg a pc w =
     (let w1 = (case mt_affinity arg of None \<Rightarrow> w | Some aff \<Rightarrow> m_sched_setaffinity K (cpumask aff) w)
      in if mo_rand opt
         then (case do_memory_stress_rand K num_ops opt seed (nat (mt_size arg)) a pc w1 of
                 None \<Rightarrow> None
               | Some (Inl e) \<Rightarrow> Some (Inl e)
               | Some (Inr (pc', a', out, w2)) \<Rightarrow> Some (Inr (pc', out, w2)))
         else (case do_memory_stress_seq K il il64 opt mapped (nat (mt_size arg)) pc w1 of
                 None \<Rightarrow> None
               | Some (Inl e) \<Rightarrow> Some (Inl e)
               | Some (Inr (pc', execd, w2)) \<Rightarrow> Some (Inr (pc', [], w2))))"

subsection \<open>Summing up and reporting\<close>

text \<open>The \<open>%le\<close> conversion: seven significant digits, a decimal exponent of at least two digits.\<close>

definition dec_exp :: "int \<Rightarrow> int \<Rightarrow> int" where
  "dec_exp a b =
     (let d = int (length (show_nat (nat a))) - int (length (show_nat (nat b)))
      in if (if 0 \<le> d then b * 10 ^ nat d \<le> a else b \<le> a * 10 ^ nat (- d)) then d else d - 1)"

definition fmt_exp :: "int \<Rightarrow> string" where
  "fmt_exp e = (if e < 0 then ''e-'' else ''e+'') @ pad_zeros 2 (show_nat (nat \<bar>e\<bar>))"

definition fmt_le :: "c_double \<Rightarrow> string" where
  "fmt_le d =
     (case d of
        Fin q \<Rightarrow>
          (if q = 0 then ''0.000000e+00''
           else let (a, b) = quotient_of \<bar>q\<bar>; e = dec_exp a b;
                    m = (if e \<le> 6 then round_half_even (a * 10 ^ nat (6 - e)) b
                         else round_half_even a (b * 10 ^ nat (e - 6)));
                    (m', e') = (if m = 10 ^ 7 then (10 ^ 6, e + 1) else (m, e))
                in (if q < 0 then ''-'' else []) @ show_nat (nat (m' div 10 ^ 6)) @ ''.'' @
                   pad_zeros 6 (show_nat (nat (m' mod 10 ^ 6))) @ fmt_exp e')
      | PInf \<Rightarrow> ''inf''
      | NInf \<Rightarrow> ''-inf''
      | NaN \<Rightarrow> ''-nan'')"

record mem_summary =
  ms_ops :: "64 word"
  ms_clk :: "64 word"
  ms_wallclocktime :: c_double
  ms_rt :: c_double
  ms_tp :: c_double

fun mem_sums :: "perf_counter list \<Rightarrow> 64 word \<times> 64 word \<times> c_double \<Rightarrow> 64 word \<times> 64 word \<times> c_double" where
  "mem_sums [] (ops, clk, t) = (ops, clk, t)"
| "mem_sums (pc # pcs) (ops, clk, t) =
     mem_sums pcs (ops + pc_ops pc, clk + pc_clk pc, d_add t (pc_wallclocktime pc))"

definition d_of_word :: "64 word \<Rightarrow> c_double" where
  "d_of_word x = d_of_int (uint x)"

definition mem_aggregate :: "mem_option \<Rightarrow> perf_counter list \<Rightarrow> mem_summary" where
  "mem_aggregate opt pcs =
     (let (ops, clk, t) = mem_sums pcs (0, 0, Fin 0); wall = d_div t (d_of_int (mo_multi opt))
      in \<lparr>ms_ops = ops, ms_clk = clk, ms_wallclocktime = wall,
          ms_rt = d_div (d_of_word clk) (d_of_word ops), ms_tp = d_div (d_of_word ops) wall\<rparr>)"

definition mem_line :: "string \<Rightarrow> string \<Rightarrow> string" where
  "mem_line name val = name @ tab @ val @ newline"

text \<open>\<open>%ld\<close> of an unsigned long prints its two's complement value.\<close>

definition mem_print_summary ::
  "('w, 'k) mem_kernel_scheme \<Rightarrow> inner_loop \<Rightarrow> mem_option \<Rightarrow> mem_summary \<Rightarrow> timeval \<Rightarrow> timeval \<Rightarrow> string" where
  "mem_print_summary K il opt s start_tv end_tv =
     mem_line ''access_pattern'' (if mo_seq opt then ''sequential'' else ''random'') @
     mem_line ''multiplicity'' (show_int (mo_multi opt)) @
     mem_line ''local'' (show_bool (mo_local opt)) @
     mem_line ''page_size'' (show_int (m_page_size K)) @
     mem_line ''size'' (show_int (mo_size opt)) @
     mem_line ''use_hugepages'' (show_bool (mo_hugetlbfile opt \<noteq> None)) @
     (case mo_hugetlbfile opt of
        None \<Rightarrow> []
      | Some f \<Rightarrow> mem_line ''hugetlbfile'' f @
                  mem_line ''hugepage_size'' (show_int (mo_hugepage_size opt))) @
     (if mo_seq opt then mem_line ''stride_size'' (show_int (int (il_stride_size il))) else []) @
     mem_line ''total_ops'' (show_int (sint (ms_ops s))) @
     mem_line ''total_clk'' (show_int (sint (ms_clk s))) @
     mem_line ''exec_time'' (fmt_lf (ms_wallclocktime s)) @
     mem_line ''ops_per_sec'' (fmt_le (ms_tp s)) @
     mem_line ''clk_per_op'' (fmt_le (ms_rt s)) @
     mem_line ''total_exec_time'' (fmt_lf (d_sub (TV2DOUBLE end_tv) (TV2DOUBLE start_tv))) @
     (if mo_seq opt
      then mem_line ''GB_per_sec''
             (fmt_lf (d_div (d_div (d_div (d_mul (ms_tp s) (d_of_int (int (il_stride_size il))))
                (Fin 1024)) (Fin 1024)) (Fin 1024)))
      else [])"

subsection \<open>The size that is mapped\<close>

lemma ceil_div:
  fixes n r :: nat
  assumes "0 < r"
  shows "(n + r - 1) div r = n div r + (if r dvd n then 0 else 1)"
proof -
  define q m where "q = n div r" and "m = n mod r"
  have n: "n = q * r + m" "m < r" using assms by (simp_all add: q_def m_def)
  have dvd: "r dvd n \<longleftrightarrow> m = 0" by (simp add: m_def dvd_eq_mod_eq_0)
  have "(n + r - 1) div r = (m + r - 1 + q * r) div r" using n assms by (simp add: ac_simps)
  also have "\<dots> = q + (m + r - 1) div r" using assms by (intro div_mult_self1) simp
  also have "(m + r - 1) div r = (if m = 0 then 0 else 1)"
  proof (cases "m = 0")
    case False
    then have eq: "m + r - 1 = (m - 1) + r" by simp
    show ?thesis unfolding eq by (subst div_add_self2) (use False n(2) assms in simp_all)
  qed (use assms in simp)
  finally show ?thesis using dvd by (simp add: q_def)
qed

lemma round_up_spec:
  assumes "0 < al" and "sz + al < 2 ^ 64"
  shows "\<exists>r. round_up (word_of_nat sz) (word_of_nat al) = Inr r \<and> unat r = (sz + al - 1) div al * al"
proof -
  have u: "unat (word_of_nat sz :: 64 word) = sz" "unat (word_of_nat al :: 64 word) = al"
    using assms by (simp_all add: unsigned_of_nat take_bit_nat_eq_self)
  have al: "(word_of_nat al :: 64 word) \<noteq> 0" using u(2) assms(1) by auto
  have r: "sz mod al < al" using assms(1) by simp
  then have r64: "sz mod al < 2 ^ 64" using assms(2) by linarith
  have m: "(word_of_nat sz :: 64 word) mod word_of_nat al = word_of_nat (sz mod al)"
    using u r64 by (simp add: word_unat_eq_iff unat_mod_distrib unsigned_of_nat take_bit_nat_eq_self)
  show ?thesis
  proof (cases "sz mod al = 0")
    case True
    then have "(sz + al - 1) div al = sz div al" "sz div al * al = sz"
      using ceil_div [OF assms(1), of sz] by (auto simp: dvd_eq_mod_eq_0)
    then show ?thesis using True al m u by (simp add: round_up_def)
  next
    case False
    have "(word_of_nat (sz mod al) :: 64 word) \<noteq> 0"
      using False r64 by (simp add: word_unat_eq_iff unsigned_of_nat take_bit_nat_eq_self)
    then have "round_up (word_of_nat sz) (word_of_nat al) =
        Inr (word_of_nat sz + (word_of_nat al - word_of_nat (sz mod al)))"
      using al m by (simp add: round_up_def)
    moreover have "(word_of_nat sz + (word_of_nat al - word_of_nat (sz mod al)) :: 64 word) =
        word_of_nat (sz + (al - sz mod al))"
      using r by (simp add: of_nat_diff)
    moreover have "unat (word_of_nat (sz + (al - sz mod al)) :: 64 word) = sz + (al - sz mod al)"
      using assms by (simp add: unsigned_of_nat take_bit_nat_eq_self)
    moreover have "sz + (al - sz mod al) = (sz + al - 1) div al * al"
    proof -
      have "(sz + al - 1) div al = sz div al + 1"
        using ceil_div [OF assms(1), of sz] False by (simp add: dvd_eq_mod_eq_0)
      moreover have "sz + (al - sz mod al) = (sz - sz mod al) + al"
        using r mod_less_eq_dividend [of sz al] by linarith
      ultimately show ?thesis by (simp only: minus_mod_eq_div_mult add_mult_distrib mult_1)
    qed
    ultimately show ?thesis by (intro exI [of _ "word_of_nat (sz + (al - sz mod al))"]) simp
  qed
qed

subsection \<open>The sequential scan\<close>

lemma mem_scan_ops:
  assumes "0 < il_region_size il" and "stop \<le> mapped" and "il_region_size il dvd mapped"
  shows "il_region_size il dvd ptr \<Longrightarrow> ptr \<le> mapped \<Longrightarrow>
    mem_scan il mapped ptr stop ops =
      Some (Inr (ops + il_num_ops il * ((stop - ptr + il_region_size il - 1) div il_region_size il)))"
proof (induction "stop - ptr" arbitrary: ptr ops rule: less_induct)
  case less
  let ?r = "il_region_size il"
  show ?case
  proof (cases "ptr < stop")
    case False
    then show ?thesis using assms(1) by (subst mem_scan.simps) simp
  next
    case True
    have "ptr < mapped" using True assms(2) by simp
    moreover have "?r dvd mapped - ptr" using assms(3) less.prems(1) by (simp add: dvd_diff_nat)
    ultimately have "ptr + ?r \<le> mapped" by (metis dvd_imp_le le_diff_conv2 less_imp_le zero_less_diff add.commute)
    then have step: "mem_scan il mapped ptr stop ops =
        mem_scan il mapped (ptr + ?r) stop (ops + il_num_ops il)"
      using True by (subst mem_scan.simps) simp
    have lt: "stop - (ptr + ?r) < stop - ptr" using True assms(1) by simp
    have "(stop - ptr + ?r - 1) div ?r = Suc ((stop - (ptr + ?r) + ?r - 1) div ?r)"
    proof (cases "stop \<le> ptr + ?r")
      case small: True
      then have eq: "stop - ptr + ?r - 1 = ?r + (stop - ptr - 1)" "stop - ptr - 1 < ?r"
        using True assms(1) by simp_all
      show ?thesis using small assms(1) eq(2) unfolding eq(1) by simp
    next
      case False
      then have eq: "stop - ptr + ?r - 1 = (stop - (ptr + ?r) + ?r - 1) + ?r" using assms(1) by simp
      show ?thesis unfolding eq by (subst div_add_self2) (use assms(1) in simp_all)
    qed
    then show ?thesis
      using less.hyps [OF lt] less.prems(1) \<open>ptr + ?r \<le> mapped\<close> step by simp
  qed
qed

text \<open>
  With a whole number of regions to scan, what is executed is what is counted; otherwise one
  more region is read than counted.
\<close>

definition mem_pass_ops :: "inner_loop \<Rightarrow> nat \<Rightarrow> nat" where
  "mem_pass_ops il working_size =
     il_num_ops il * (working_size div il_region_size il + (if il_region_size il dvd working_size then 0 else 1))"

lemma mem_pass_executes:
  assumes "0 < il_region_size il" and "il_region_size il dvd mapped" and "working_size \<le> mapped"
    and "8 dvd working_size"
  shows "mem_pass il mapped working_size = Some (Inr (mem_pass_ops il working_size))"
proof -
  have "working_size div 8 * 8 = working_size" using assms(4) by simp
  then show ?thesis
    using mem_scan_ops [OF assms(1,3,2), of 0 0] ceil_div [OF assms(1), of working_size]
    by (simp add: mem_pass_def mem_pass_ops_def)
qed

lemma mem_passes_execute:
  assumes "0 < il_region_size il" and "il_region_size il dvd mapped" and "working_size \<le> mapped"
    and "8 dvd working_size"
  shows "mem_passes il mapped working_size n execd =
    Some (Inr (execd + n * mem_pass_ops il working_size))"
  by (induction n arbitrary: execd) (simp_all add: mem_pass_executes [OF assms])

lemma mem_counted_exact:
  assumes "il_region_size il dvd working_size"
  shows "mem_counted_ops il working_size n = of_nat (n * mem_pass_ops il working_size)"
  using assms by (simp add: mem_counted_ops_def mem_pass_ops_def ac_simps)

text \<open>
  The clocks of a run: the time of day never goes back and a reading of the counter takes
  time.
\<close>

definition mem_clock :: "('w, 'k) mem_kernel_scheme \<Rightarrow> ('w \<Rightarrow> int) \<Rightarrow> bool" where
  "mem_clock K now \<longleftrightarrow>
     (\<forall>w. TV2LONG (fst (k_gettimeofday K w)) = now w \<and> now w \<le> now (snd (k_gettimeofday K w))) \<and>
     (\<forall>w. now w < now (snd (snd (m_rdtsc K w))))"

lemma mem_clock_time:
  assumes "mem_clock K now" and "k_gettimeofday K w = (tv, w')"
  shows "TV2LONG tv = now w" "now w \<le> now w'"
  using assms unfolding mem_clock_def by (metis fst_conv, metis snd_conv)

lemma mem_clock_tsc:
  assumes "mem_clock K now" and "mb_read_tsc K w = (t, w')"
  shows "now w < now w'"
proof -
  have "w' = snd (snd (m_rdtsc K w))"
    using assms(2) by (simp add: mb_read_tsc_def case_prod_beta)
  then show ?thesis using assms(1) by (simp add: mem_clock_def)
qed

lemma mem_clock_elapsed:
  assumes "mem_clock K now"
  shows "now w \<le> now (snd (mb_elapsed_time_from K tv w))"
  using assms by (simp add: mb_elapsed_time_from_def case_prod_beta mem_clock_def)

lemma mem_clock_shuffle:
  assumes "mem_clock K now"
  shows "now w \<le> now (shuffle_clock K opt w)"
proof -
  have day: "now v \<le> now (snd (k_gettimeofday K v))" for v using assms by (simp add: mem_clock_def)
  show ?thesis
    unfolding shuffle_clock_def case_prod_beta Let_def
    by (intro order_trans [OF _ day]) (use day mem_clock_elapsed [OF assms] in \<open>auto intro: order_trans\<close>)
qed

lemma evict_walk_cycle:
  assumes "cycle a xs" and "0 \<in> set xs"
  shows "evict_walk a = Some (Inr ())"
  using check_ptr_loop_cycle [OF assms refl]
  by (auto simp: check_ptr_loop_def evict_walk_def split: sum.splits option.splits)

text \<open>The timed loop ends, and the counter agrees with what was executed.\<close>

lemma mem_seq_loop_counts:
  assumes "mem_clock K now" and "in_int timeout" and "0 < il_region_size il"
    and "il_region_size il dvd mapped" and "working_size \<le> mapped" and "8 dvd working_size"
    and "il_region_size il dvd working_size"
  shows "\<exists>pc' execd' w'. mem_seq_loop K il timeout mapped working_size n start_tv pc execd w =
      Some (Inr (pc', execd', w')) \<and> pc_ops pc' - pc_ops pc = of_nat execd' - of_nat execd \<and>
      TV2LONG start_tv + timeout * 1000000 \<le> now w'"
proof (induction "nat (TV2LONG start_tv + timeout * 1000000 - now w)" arbitrary: pc execd w
    rule: less_induct)
  case less
  let ?lim = "TV2LONG start_tv + timeout * 1000000"
  obtain tv w1 where tv: "k_gettimeofday K w = (tv, w1)" by fastforce
  note t = mem_clock_time [OF assms(1) tv]
  have test: "d_less (d_of_int (now w - TV2LONG start_tv)) (d_of_int (timeout * 1000000)) \<longleftrightarrow> now w < ?lim"
    using usec_less [OF assms(2), of "now w - TV2LONG start_tv"] by linarith
  show ?case
  proof (cases "now w < ?lim")
    case False
    then show ?thesis
      using test t by (subst mem_seq_loop.simps) (simp add: mb_elapsed_usec_from_def tv Let_def)
  next
    case True
    obtain t0 w2 where t0: "mb_read_tsc K w1 = (t0, w2)" by fastforce
    obtain t1 w3 where t1: "mb_read_tsc K w2 = (t1, w3)" by fastforce
    note tsc = mem_clock_tsc [OF assms(1) t0] mem_clock_tsc [OF assms(1) t1]
    let ?k = "n * mem_pass_ops il working_size"
    let ?pc = "pc\<lparr>pc_clk := pc_clk pc + (t1 - t0), pc_ops := pc_ops pc + of_nat ?k\<rparr>"
    have step: "mem_seq_loop K il timeout mapped working_size n start_tv pc execd w =
        mem_seq_loop K il timeout mapped working_size n start_tv ?pc (execd + ?k) w3"
      using test True t(1) mem_passes_execute [OF assms(3-6), of n 0] mem_counted_exact [OF assms(7), of n]
      by (subst mem_seq_loop.simps) (simp add: mb_elapsed_usec_from_def tv t0 t1 Let_def)
    have lt: "nat (?lim - now w3) < nat (?lim - now w)" using True tsc t(2) by linarith
    obtain pc' execd' w' where ih:
      "mem_seq_loop K il timeout mapped working_size n start_tv ?pc (execd + ?k) w3 =
        Some (Inr (pc', execd', w'))"
      "pc_ops pc' - pc_ops ?pc = of_nat execd' - of_nat (execd + ?k)" "?lim \<le> now w'"
      using less.hyps [OF lt] by blast
    have "pc_ops pc' - pc_ops pc = of_nat execd' - of_nat execd"
      using ih(2) by (simp add: algebra_simps)
    then show ?thesis using step ih(1,3) by auto
  qed
qed

text \<open>The random run never leaves the loop of pointers.\<close>

lemma mem_rand_loop_ends:
  assumes "mem_clock K now" and "in_int timeout" and "\<And>k. \<exists>p. chase a k 0 = Inr p"
  shows "\<exists>pc' j w'. mem_rand_loop K num_ops timeout a start_tv pc w = Some (Inr (pc', w')) \<and>
    pc_ops pc' = pc_ops pc + of_nat (j * (1024 * num_ops)) \<and>
    TV2LONG start_tv + timeout * 1000000 \<le> now w'"
proof (induction "nat (TV2LONG start_tv + timeout * 1000000 - now w)" arbitrary: pc w
    rule: less_induct)
  case less
  let ?lim = "TV2LONG start_tv + timeout * 1000000"
  obtain tv w1 where tv: "k_gettimeofday K w = (tv, w1)" by fastforce
  note t = mem_clock_time [OF assms(1) tv]
  have test: "d_less (d_div (d_of_int (now w - TV2LONG start_tv)) (Fin 1000000)) (d_of_int timeout)
      \<longleftrightarrow> now w < ?lim"
    using elapsed_less [OF assms(2), of "now w - TV2LONG start_tv"] by linarith
  show ?case
  proof (cases "now w < ?lim")
    case False
    have "mem_rand_loop K num_ops timeout a start_tv pc w = Some (Inr
        (pc\<lparr>pc_wallclocktime := d_div (d_of_int (now w - TV2LONG start_tv)) (Fin 1000000)\<rparr>, w1))"
      using test False t(1)
      by (subst mem_rand_loop.simps) (simp add: mb_elapsed_time_from_def tv Let_def)
    then show ?thesis using False t(2) by (auto intro!: exI [of _ 0])
  next
    case True
    obtain t0 w2 where t0: "mb_read_tsc K w1 = (t0, w2)" by fastforce
    obtain t1 w3 where t1: "mb_read_tsc K w2 = (t1, w3)" by fastforce
    note tsc = mem_clock_tsc [OF assms(1) t0] mem_clock_tsc [OF assms(1) t1]
    obtain p where p: "chase a (1024 * num_ops) 0 = Inr p" using assms(3) by blast
    let ?pc = "pc\<lparr>pc_clk := pc_clk pc + (t1 - t0), pc_ops := pc_ops pc + of_nat (1024 * num_ops)\<rparr>"
    have step: "mem_rand_loop K num_ops timeout a start_tv pc w =
        mem_rand_loop K num_ops timeout a start_tv ?pc w3"
      using test True t(1) p
      by (subst mem_rand_loop.simps) (simp add: mb_elapsed_time_from_def tv t0 t1 Let_def)
    have lt: "nat (?lim - now w3) < nat (?lim - now w)" using True tsc t(2) by linarith
    obtain pc' j w' where ih: "mem_rand_loop K num_ops timeout a start_tv ?pc w3 = Some (Inr (pc', w'))"
      "pc_ops pc' = pc_ops ?pc + of_nat (j * (1024 * num_ops))" "?lim \<le> now w'"
      using less.hyps [OF lt] by blast
    have "pc_ops pc' = pc_ops pc + of_nat (Suc j * (1024 * num_ops))"
      using ih(2) by (simp add: algebra_simps)
    then show ?thesis using step ih(1,3) by metis
  qed
qed

subsection \<open>Properties\<close>

lemma mem_mmap_size_page:
  assumes "mo_hugetlbfile opt = None" and "mo_size opt = int ws" and "m_page_size K = int page"
    and "0 < page" and "ws + page < 2 ^ 64"
  shows "\<exists>r. mem_mmap_size K opt = Inr r \<and> unat r = (ws + page - 1) div page * page"
  using round_up_spec [OF assms(4,5)] assms(1-3) by (simp add: mem_mmap_size_def)

text \<open>
  C18: What is mapped for a working area is its size rounded up to a multiple of the page size
  (or of the size of a huge page): the smallest multiple that holds the area, as long as the
  sum does not overflow 64 bits.
\<close>

theorem mem_mapped_size:
  assumes "mo_size opt = int ws" and "0 < al" and "ws + al < 2 ^ 64"
    and "(case mo_hugetlbfile opt of None \<Rightarrow> m_page_size K | Some f \<Rightarrow> mo_hugepage_size opt) = int al"
  shows "\<exists>r. mem_mmap_size K opt = Inr r \<and> al dvd unat r \<and> ws \<le> unat r \<and> unat r < ws + al"
proof -
  obtain r where r: "round_up (word_of_nat ws) (word_of_nat al) = Inr r"
    "unat r = (ws + al - 1) div al * al" using round_up_spec [OF assms(2,3)] by blast
  have "mem_mmap_size K opt = Inr r"
    using r(1) assms(1,4) by (cases "mo_hugetlbfile opt") (simp_all add: mem_mmap_size_def)
  moreover have "ws \<le> unat r" "unat r < ws + al"
    using assms(2) r(2) div_mult_mod_eq [of "ws + al - 1" al] mod_less_divisor [OF assms(2), of "ws + al - 1"]
    by linarith+
  ultimately show ?thesis using r(2) by simp
qed

text \<open>
  The sequential stress counts what it reads. On a working area that is a whole number of
  regions of the inner loop, mapped in pages that are whole regions too, a thread never reads
  outside the mapped memory, ends after at least the timeout, and has added to its counter
  exactly the number of operations the inner loops executed (modulo \<open>2^64\<close>).
\<close>

lemma mem_seq_counts_reads:
  assumes "mem_clock K now" and "in_int (mo_timeout opt)" and "mo_hugetlbfile opt = None"
    and "mo_size opt = int ws" and "0 < ws" and "m_page_size K = int page" and "0 < page"
    and "ws + page < 2 ^ 64" and "il = (if ws < 1024 then il64 else il1024)"
    and "0 < il_region_size il" and "il_region_size il dvd page" and "il_region_size il dvd ws"
    and "8 dvd ws"
  shows "\<exists>r pc' execd w'. mem_mmap_size K opt = Inr r \<and>
    do_memory_stress_seq K il1024 il64 opt (unat r) ws pc w = Some (Inr (pc', execd, w')) \<and>
    pc_ops pc' = pc_ops pc + of_nat execd \<and> now w + mo_timeout opt * 1000000 \<le> now w'"
proof -
  obtain r where r: "mem_mmap_size K opt = Inr r" "unat r = (ws + page - 1) div page * page"
    using mem_mmap_size_page [OF assms(3,4,6,7,8)] by blast
  have le: "ws \<le> unat r"
    using assms(7) r(2) div_mult_mod_eq [of "ws + page - 1" page]
      mod_less_divisor [OF assms(7), of "ws + page - 1"] by linarith
  have dvd: "il_region_size il dvd unat r" using r(2) assms(11) by simp
  obtain n where n: "mem_iter_count ws = Inr n" using assms(5) by (simp add: mem_iter_count_def Let_def)
  obtain tv w1 where tv: "k_gettimeofday K w = (tv, w1)" by fastforce
  have il: "(if mo_size opt < 1024 then il64 else il1024) = il" using assms(4,9) by simp
  obtain pc' execd w' where "mem_seq_loop K il (mo_timeout opt) (unat r) ws n tv pc 0 w1 =
      Some (Inr (pc', execd, w'))" "pc_ops pc' - pc_ops pc = of_nat execd - of_nat 0"
    "TV2LONG tv + mo_timeout opt * 1000000 \<le> now w'"
    using mem_seq_loop_counts [OF assms(1,2,10) dvd le assms(13,12), of n tv pc 0 w1] by blast
  then show ?thesis
    using r(1) mem_clock_time(1) [OF assms(1) tv]
    by (intro exI [of _ r] exI [of _ pc'] exI [of _ execd] exI [of _ w'])
      (simp add: do_memory_stress_seq_def n tv il algebra_simps)
qed

text \<open>
  On a working area that is not a whole number of regions the last, partial region is read
  in full in every pass but never counted: a pass executes the operations of one region more
  than \<open>do_memory_stress_seq\<close> adds for it.
\<close>

theorem mem_seq_undercounts:
  assumes "0 < il_region_size il" and "il_region_size il dvd mapped" and "ws \<le> mapped" and "8 dvd ws"
    and "\<not> il_region_size il dvd ws"
  shows "\<exists>execd. mem_pass il mapped ws = Some (Inr execd) \<and>
    of_nat execd = mem_counted_ops il ws 1 + of_nat (il_num_ops il)"
  using mem_pass_executes [OF assms(1-4)] assms(5)
  by (simp add: mem_pass_ops_def mem_counted_ops_def algebra_simps)

text \<open>
  C17: The random stress on a working area of at least two cache lines: for every seed the loop of
  pointers is built, and the timed walk never leaves the area, ends after at least the timeout,
  and counts a whole number of executions of the inner loop, 1024 per round.
\<close>

theorem mem_rand_run_ends:
  assumes "mem_clock K now" and "in_int (mo_timeout opt)" and "ws = 64 * n" and "2 \<le> n"
    and "n \<le> 2 ^ 53" and "8 * n \<le> length a"
  shows "\<exists>pc' a' out w' j.
    do_memory_stress_rand K num_ops opt seed ws a pc w = Some (Inr (pc', a', out, w')) \<and>
    pc_ops pc' = pc_ops pc + of_nat (j * (1024 * num_ops)) \<and>
    now w + mo_timeout opt * 1000000 \<le> now w'"
proof -
  obtain a' ys where a': "ptr_loop_prepare ws (srand48_r seed) a = Some (Inr a')" "cycle a' ys"
    "set ys = lines n"
    using prepare_cycle [OF assms(3-6), of "srand48_r seed"] by blast
  have "0 \<in> set ys" using a'(3) assms(4) by (auto simp: lines_def)
  then obtain zs where zs: "cycle a' zs" "zs ! 0 = 0" using cycle_from [OF a'(2)] by metis
  have chase: "\<exists>p. chase a' k 0 = Inr p" for k
    using chase_cycle [OF zs(1), of k 0] zs(2) by (simp add: zs(2))
  have walk: "evict_walk a' = Some (Inr ())"
    using evict_walk_cycle [OF a'(2) \<open>0 \<in> set ys\<close>] .
  obtain tv w1 where tv: "k_gettimeofday K (shuffle_clock K opt w) = (tv, w1)" by fastforce
  obtain pc' j w' where "mem_rand_loop K num_ops (mo_timeout opt) a' tv pc w1 = Some (Inr (pc', w'))"
    "pc_ops pc' = pc_ops pc + of_nat (j * (1024 * num_ops))"
    "TV2LONG tv + mo_timeout opt * 1000000 \<le> now w'"
    using mem_rand_loop_ends [OF assms(1,2) chase, of num_ops tv pc w1] by blast
  then show ?thesis
    using a'(1) walk tv mem_clock_time(1) [OF assms(1) tv] mem_clock_shuffle [OF assms(1), of w opt]
    by (auto simp: do_memory_stress_rand_def)
qed

text \<open>
  C16: What \<open>parse_args\<close> makes of a command line. Options that are accepted are those of the
  reference, the last occurrence of every option over the defaults, and are well typed: the numbers of threads
  and seconds are values of \<open>int\<close> and the two sizes values of \<open>long\<close>, also when the text of the
  argument is out of range; exactly one of the access patterns is chosen, however \<open>-S\<close> and \<open>-R\<close>
  are mixed; and the entry of the affinity array at an index is empty or names that thread. A command line
  that is refused ends the program with a failure, and only one with \<open>-a\<close> can have undefined behaviour.
\<close>

theorem mem_parse_args_typed:
  "case mem_parse_args argv of
     Inr opt \<Rightarrow> mem_option_of (map fst (fst (getopt_scan mem_optspec argv))) mem_default_option opt \<and>
                mem_option_typed opt
   | Inl e \<Rightarrow> e = Exit_Failure \<or> (\<exists>arg. OptArg CHR ''a'' arg \<in> fst ` set (fst (getopt_scan mem_optspec argv)))"
proof (cases "mem_parse_args argv")
  case (Inl e)
  then show ?thesis using mem_option_loop_stops by (simp add: mem_parse_args_def)
next
  case (Inr opt)
  then show ?thesis using mem_option_loop_of mem_parse_typed [OF Inr] by (simp add: mem_parse_args_def)
qed

subsection \<open>A machine\<close>

definition demo_mem :: "int mem_kernel" where
  "demo_mem =
     \<lparr>k_read = \<lambda>fd sz w. (0, [], w), k_write = \<lambda>fd bytes w. (0, w),
      k_pread64 = \<lambda>fd sz offset w. (0, [], w), k_pwrite64 = \<lambda>fd bytes offset w. (0, w),
      k_lseek64 = \<lambda>fd offset w. (offset, w),
      k_gettimeofday = \<lambda>w. (\<lparr>tv_sec = 0, tv_usec = w\<rparr>, w), k_usleep = \<lambda>usec w. w,
      m_rdtsc = \<lambda>w. (word_of_int w, 0, w + 500000), m_open = \<lambda>f w. (3, w),
      m_mmap = \<lambda>len anon fd w. (Some 4096, w), m_mbind = \<lambda>p len mask w. (0, w),
      m_page_size = 4096, m_numa_arch = False, m_sched_setaffinity = \<lambda>mask w. w,
      m_munmap = \<lambda>p len w. w, m_close = \<lambda>fd w. w\<rparr>"

text \<open>The inner loops the build generates: 64 loads of 16 bytes from 1024 bytes, and 64 loads from 64.\<close>

definition demo_inner :: inner_loop where
  "demo_inner = \<lparr>il_num_ops = 64, il_region_size = 1024, il_stride_size = 16\<rparr>"

definition demo_inner64 :: inner_loop where
  "demo_inner64 = \<lparr>il_num_ops = 64, il_region_size = 64, il_stride_size = 16\<rparr>"

lemma demo_mem_clock: "mem_clock demo_mem (\<lambda>w. w)"
  by (simp add: mem_clock_def demo_mem_def TV2LONG_def)

lemma demo_mem_page: "m_page_size demo_mem = int 4096"
  by (simp add: demo_mem_def)

lemma demo_mem_opt: "mo_hugetlbfile mem_default_option = None" "mo_size mem_default_option = int (2 ^ 20)"
  "mo_timeout mem_default_option = 10" "in_int (mo_timeout mem_default_option)"
  by (simp_all add: mem_default_option_def in_int_def)

theorem mem_mapped_size_witness:
  "\<exists>r. mem_mmap_size demo_mem (mem_default_option\<lparr>mo_size := 5000\<rparr>) = Inr r \<and> 4096 dvd unat r \<and>
     5000 \<le> unat r \<and> unat r < 9096"
  using mem_mapped_size [of "mem_default_option\<lparr>mo_size := 5000\<rparr>" 5000 4096 demo_mem]
  by (simp add: mem_default_option_def demo_mem_def)

theorem mem_seq_undercounts_witness:
  "\<exists>execd. mem_pass demo_inner 4096 1536 = Some (Inr execd) \<and>
    of_nat execd = mem_counted_ops demo_inner 1536 1 + 64"
  using mem_seq_undercounts [of demo_inner 4096 1536] by (simp add: demo_inner_def)

theorem mem_rand_run_ends_witness:
  "\<exists>pc' a' out w' j. do_memory_stress_rand demo_mem 256 mem_default_option 42 128 (replicate 16 0)
      \<lparr>pc_ops = 0, pc_clk = 0, pc_wallclocktime = Fin 0\<rparr> 0 = Some (Inr (pc', a', out, w')) \<and>
    pc_ops pc' = of_nat (j * (1024 * 256)) \<and> 10000000 \<le> w'"
  using mem_rand_run_ends [OF demo_mem_clock demo_mem_opt(4), of 128 2 "replicate 16 0" 256 42
      "\<lparr>pc_ops = 0, pc_clk = 0, pc_wallclocktime = Fin 0\<rparr>" 0]
  by (simp add: demo_mem_opt(3))

theorem mem_parse_args_typed_witness:
  "\<exists>opt. mem_parse_args [''micbench-mem'', ''-S'', ''-R'', ''-m'', ''4294967295'', ''-s'', ''99999999999999999999''] =
     Inr opt \<and> mem_option_typed opt \<and> mo_rand opt \<and> \<not> mo_seq opt \<and> mo_multi opt = -1 \<and> mo_size opt = 2 ^ 63 - 1"
proof -
  let ?opt = "mem_default_option\<lparr>mo_multi := -1, mo_rand := True, mo_seq := False, mo_size := 9223372036854775807\<rparr>"
  let ?argv = "[''micbench-mem'', ''-S'', ''-R'', ''-m'', ''4294967295'', ''-s'', ''99999999999999999999'']"
  have parse: "mem_parse_args ?argv = Inr ?opt" by code_simp
  have "mem_option_typed ?opt" using mem_parse_args_typed [of ?argv] unfolding parse by simp
  with parse show ?thesis by (intro exI [of _ ?opt]) simp
qed

end
