(* ===== verification/LockBench.thy ===== *)
theory LockBench
  imports LockClient MemBench
begin

section \<open>micbench-lock\<close>

text \<open>
  src/src/micbench-lock.c: the options, the jobs of the threads, the thread handler with its
  affinity and its barrier, the report and the main program. The jobs are clients of a lock: what
  is proved of every such client in the locale \<open>lock_client\<close> holds of them, with the spin lock
  and with the mutex; the handler around them is built from the systems of the theory of schedules.
  Left out is the loop at the end of \<open>main\<close> that closes \<open>args[i].fd\<close>, a member nobody sets.
\<close>

subsection \<open>Options\<close>

datatype mb_testmode = TEST_SPINLOCK | TEST_MUTEX | TEST_MFENCE

record lock_option =
  lo_multi :: int
  lo_affinities :: affinities
  lo_count :: int
  lo_critical_job_size :: int
  lo_noncritical_job_size :: int
  lo_mode :: mb_testmode
  lo_verbose :: bool

definition lock_default_option :: lock_option where
  "lock_default_option =
     \<lparr>lo_multi = 1, lo_affinities = None, lo_count = 2 * 2 ^ 20, lo_critical_job_size = 10,
      lo_noncritical_job_size = 1000, lo_mode = TEST_SPINLOCK, lo_verbose = False\<rparr>"

text \<open>The option string \<open>+m:M:C:N:a:c:v\<close>.\<close>

definition lock_optspec :: optspec where
  "lock_optspec = map (\<lambda>c. (c, False)) ''v'' @ map (\<lambda>c. (c, True)) ''mMCNac''"

definition lock_set_mode :: "string \<Rightarrow> lock_option \<Rightarrow> lock_option c_result" where
  "lock_set_mode arg opt =
     (if arg = ''spinlock'' then Inr (opt\<lparr>lo_mode := TEST_SPINLOCK\<rparr>)
      else if arg = ''mutex'' then Inr (opt\<lparr>lo_mode := TEST_MUTEX\<rparr>)
      else if arg = ''mfence'' then Inr (opt\<lparr>lo_mode := TEST_MFENCE\<rparr>)
      else Inl Exit_Failure)"

definition lock_set_value :: "char \<Rightarrow> string \<Rightarrow> string list \<Rightarrow> lock_option \<Rightarrow> lock_option c_result" where
  "lock_set_value c arg rest opt =
     (let num = fst (strtol arg)
      in if c = CHR ''m'' then Inr (opt\<lparr>lo_multi := to_int num\<rparr>)
         else if c = CHR ''a'' then
           bind_c (add_affinity (lo_multi opt) (lo_affinities opt) arg rest) (\<lambda>(affs, ok).
           if ok then Inr (opt\<lparr>lo_affinities := affs\<rparr>) else Inl Exit_Failure)
         else if c = CHR ''M'' then lock_set_mode arg opt
         else if c = CHR ''C'' then
           if num \<le> 0 then Inl Exit_Failure else Inr (opt\<lparr>lo_critical_job_size := num\<rparr>)
         else if c = CHR ''N'' then
           if num \<le> 0 then Inl Exit_Failure else Inr (opt\<lparr>lo_noncritical_job_size := num\<rparr>)
         else if c = CHR ''c'' then Inr (opt\<lparr>lo_count := num\<rparr>)
         else Inl Exit_Failure)"

fun lock_option_loop :: "(opt_event \<times> string list) list \<Rightarrow> lock_option \<Rightarrow> lock_option c_result" where
  "lock_option_loop [] opt = Inr opt"
| "lock_option_loop ((ev, rest) # evs) opt =
     bind_c
       (case ev of
          Opt c \<Rightarrow> if c = CHR ''v'' then Inr (opt\<lparr>lo_verbose := True\<rparr>) else Inl Exit_Failure
        | OptArg c arg \<Rightarrow> lock_set_value c arg rest opt
        | OptBad \<Rightarrow> Inl Exit_Failure)
       (lock_option_loop evs)"

definition lock_parse_args :: "string list \<Rightarrow> lock_option c_result" where
  "lock_parse_args argv = lock_option_loop (fst (getopt_scan lock_optspec argv)) lock_default_option"

subsection \<open>The jobs of the threads\<close>

text \<open>
  Beside the lock the jobs rely on the assembler text of \<open>micbench-lock-mfence-inner.c\<close>, a file
  that is not part of the sources. Its operand constraints let it change the register that holds
  \<open>arg->sc\<close>, so it is a function of that value.
\<close>

record 'l bench_ops = "'l lock_ops" +
  lk_mfence :: "64 word \<Rightarrow> 64 word"

text \<open>Where a thread is in its job; the number counts the iterations of the inner loop.\<close>

datatype lock_pc = Loop_head | Critical int | Noncritical int | Finished

record lock_thread =
  lt_i :: int
  lt_pc :: lock_pc
  lt_x :: c_double
  lt_ops :: "64 word"
  lt_sc :: "64 word"

text \<open>\<open>if (x > 1.0) x /= 2; else x += 0.3\<close>, from \<open>x = 0.1\<close>.\<close>

definition lock_work :: "c_double \<Rightarrow> c_double" where
  "lock_work x = (if d_less (Fin 1) x then d_div x (Fin 2) else d_add x (Fin (rnd_rat (3 / 10))))"

text \<open>A thread at the start of its job; \<open>sc\<close> is the address of the shared counter.\<close>

definition lock_thread_start :: "64 word \<Rightarrow> lock_thread" where
  "lock_thread_start sc =
     \<lparr>lt_i = 0, lt_pc = Loop_head, lt_x = Fin (rnd_rat (1 / 10)), lt_ops = 0, lt_sc = sc\<rparr>"

text \<open>
  One step of thread \<open>t\<close> in \<open>thread_job_spinlock\<close> or \<open>thread_job_mutex\<close>; \<open>None\<close> if it has to
  wait for the lock or has finished.
\<close>

definition lock_job_step ::
  "('l, 'm) lock_ops_scheme \<Rightarrow> lock_option \<Rightarrow> nat \<Rightarrow> lock_thread \<Rightarrow> 'l \<Rightarrow> (lock_thread \<times> 'l) option" where
  "lock_job_step L opt t th l =
     (case lt_pc th of
        Loop_head \<Rightarrow>
          if lt_i th < lo_count opt
          then (case lk_acquire L t l of
                  None \<Rightarrow> None
                | Some l' \<Rightarrow> Some (th\<lparr>lt_pc := Critical 0\<rparr>, l'))
          else Some (th\<lparr>lt_pc := Finished, lt_ops := word_of_int (lo_count opt)\<rparr>, l)
      | Critical j \<Rightarrow>
          if j < lo_critical_job_size opt
          then Some (th\<lparr>lt_pc := Critical (j + 1), lt_x := lock_work (lt_x th)\<rparr>, l)
          else Some (th\<lparr>lt_pc := Noncritical 0\<rparr>, lk_release L t l)
      | Noncritical j \<Rightarrow>
          if j < lo_noncritical_job_size opt
          then Some (th\<lparr>lt_pc := Noncritical (j + 1), lt_x := lock_work (lt_x th)\<rparr>, l)
          else Some (th\<lparr>lt_pc := Loop_head, lt_i := lt_i th + 1\<rparr>, l)
      | Finished \<Rightarrow> None)"

text \<open>\<open>thread_job_mfence\<close> takes no lock; each iteration counts as 128 operations.\<close>

definition mfence_job_step :: "'l bench_ops \<Rightarrow> lock_option \<Rightarrow> lock_thread \<Rightarrow> lock_thread option" where
  "mfence_job_step L opt th =
     (case lt_pc th of
        Loop_head \<Rightarrow>
          if lt_i th < lo_count opt
          then Some (th\<lparr>lt_i := lt_i th + 1, lt_sc := lk_mfence L (lt_sc th)\<rparr>)
          else Some (th\<lparr>lt_pc := Finished, lt_ops := word_of_int (lo_count opt * 128)\<rparr>)
      | Critical j \<Rightarrow> None
      | Noncritical j \<Rightarrow> None
      | Finished \<Rightarrow> None)"

text \<open>The \<open>switch\<close> of \<open>thread_handler\<close>: spin locks and mutexes have the same job.\<close>

definition lock_thread_step ::
  "'l bench_ops \<Rightarrow> lock_option \<Rightarrow> nat \<Rightarrow> lock_thread \<Rightarrow> 'l \<Rightarrow> (lock_thread \<times> 'l) option" where
  "lock_thread_step L opt t th l =
     (case lo_mode opt of
        TEST_SPINLOCK \<Rightarrow> lock_job_step L opt t th l
      | TEST_MUTEX \<Rightarrow> lock_job_step L opt t th l
      | TEST_MFENCE \<Rightarrow>
          (case mfence_job_step L opt th of None \<Rightarrow> None | Some th' \<Rightarrow> Some (th', l)))"

text \<open>
  \<open>thread_handler\<close>: the affinity, the barrier with one place per thread, the job. Every thread
  starts with the affinity of its argument, which \<open>main\<close> takes from the array.
\<close>

type_synonym lock_handler = "lock_thread bar_thread aff_thread"
type_synonym 'l lock_shared = "(nat \<Rightarrow> 1024 word option) \<times> nat \<times> 'l"

definition lock_arg_affinity :: "lock_option \<Rightarrow> nat \<Rightarrow> mb_affinity option" where
  "lock_arg_affinity opt i =
     (case lo_affinities opt of
        None \<Rightarrow> None
      | Some affs \<Rightarrow> if i < length affs then affs ! i else None)"

definition lock_thread_handler ::
  "'l bench_ops \<Rightarrow> 64 word \<Rightarrow> lock_option \<Rightarrow> (lock_handler, 'l lock_shared) job" where
  "lock_thread_handler L sc opt =
     affinity_job (lock_arg_affinity opt) Arriving
       (barrier_job (nat (lo_multi opt)) (lock_thread_start sc) (lock_thread_step L opt))"

definition lock_start :: "lock_option \<Rightarrow> lock_handler list" where
  "lock_start opt = replicate (nat (lo_multi opt)) Entering"

text \<open>The threads under a schedule; \<open>free\<close> is the lock as it is initialised.\<close>

definition lock_run ::
  "'l bench_ops \<Rightarrow> 'l \<Rightarrow> 64 word \<Rightarrow> lock_option \<Rightarrow> nat list \<Rightarrow> lock_handler list \<times> 'l lock_shared" where
  "lock_run L free sc opt sched =
     sched_run (lock_thread_handler L sc opt) sched (lock_start opt, (\<lambda>t. None), 0, free)"

text \<open>How far a thread is in its job.\<close>

definition lock_inner :: "64 word \<Rightarrow> lock_handler \<Rightarrow> lock_thread" where
  "lock_inner sc th = bar_inner (lock_thread_start sc) (aff_inner Arriving th)"

subsection \<open>Locks\<close>

text \<open>A spin lock is a flag; a mutex records its owner.\<close>

definition spin_ops :: "(64 word \<Rightarrow> 64 word) \<Rightarrow> bool bench_ops" where
  "spin_ops inner =
     \<lparr>lk_acquire = \<lambda>t l. if l then None else Some True, lk_release = \<lambda>t l. False,
      lk_mfence = inner\<rparr>"

definition mutex_ops :: "(64 word \<Rightarrow> 64 word) \<Rightarrow> nat option bench_ops" where
  "mutex_ops inner =
     \<lparr>lk_acquire = \<lambda>t l. (case l of None \<Rightarrow> Some (Some t) | Some u \<Rightarrow> None),
      lk_release = \<lambda>t l. if l = Some t then None else l, lk_mfence = inner\<rparr>"

subsection \<open>The report\<close>

definition lock_mode_str :: "mb_testmode \<Rightarrow> string" where
  "lock_mode_str m =
     (if m = TEST_SPINLOCK then ''spinlock'' else if m = TEST_MUTEX then ''mutex'' else ''unknown'')"

definition lock_print_affinity :: "nat \<Rightarrow> mb_affinity option \<Rightarrow> string c_result" where
  "lock_print_affinity i aff =
     bind_c (case aff of None \<Rightarrow> Inr None | Some a \<Rightarrow> mb_affinity_to_string (Some a)) (\<lambda>s.
     Inr (mem_line (''affinity_'' @ show_nat i) (case s of None \<Rightarrow> ''none'' | Some str \<Rightarrow> str)))"

fun lock_print_affinities :: "nat \<Rightarrow> mb_affinity option list \<Rightarrow> string c_result" where
  "lock_print_affinities i [] = Inr []"
| "lock_print_affinities i (aff # affs) =
     bind_c (lock_print_affinity i aff) (\<lambda>s.
     bind_c (lock_print_affinities (Suc i) affs) (\<lambda>rest. Inr (s @ rest)))"

text \<open>
  The counters of a thread, \<open>ops\<close> and \<open>clk\<close>, read as \<open>long\<close>. The third counter,
  \<open>wallclocktime\<close>, is neither set nor read by this program.
\<close>

definition lock_print_thread :: "nat \<Rightarrow> 64 word \<times> 64 word \<Rightarrow> string" where
  "lock_print_thread i = (\<lambda>(ops, clk).
     mem_line (''clk_'' @ show_nat i) (show_int (sint clk)) @
     mem_line (''ops_'' @ show_nat i) (show_int (sint ops)) @
     mem_line (''clk_per_ops_'' @ show_nat i)
       (fmt_lf (d_div (d_of_int (sint clk)) (d_of_int (sint ops)))))"

definition lock_report :: "lock_option \<Rightarrow> (64 word \<times> 64 word) list \<Rightarrow> string c_result" where
  "lock_report opt pcs =
     bind_c
       (case lo_affinities opt of
          None \<Rightarrow> Inr []
        | Some affs \<Rightarrow>
            if nat (lo_multi opt) \<le> length affs
            then lock_print_affinities 0 (take (nat (lo_multi opt)) affs)
            else Inl Undefined)
       (\<lambda>aff_lines.
     Inr (mem_line ''multiplicity'' (show_int (lo_multi opt)) @
          mem_line ''mode'' (lock_mode_str (lo_mode opt)) @
          mem_line ''count'' (show_int (lo_count opt)) @
          mem_line ''critical_job_size'' (show_int (lo_critical_job_size opt)) @
          mem_line ''noncritical_job_size'' (show_int (lo_noncritical_job_size opt)) @
          aff_lines @
          concat (map (\<lambda>(i, pc). lock_print_thread i pc) (zip [0..<length pcs] pcs))))"

text \<open>
  The main program. It waits for all threads (\<open>None\<close> while one of them has not ended) and reports
  their counters; \<open>tsc t k\<close> is what thread \<open>t\<close> reads from the time stamp counter before (\<open>k = 0\<close>)
  and after (\<open>k = 1\<close>) its job. An array of affinities that is shorter than the number of threads
  is read out of bounds. The missing variable MICBENCH is only reported on the error stream.
\<close>

definition lock_finished :: "lock_handler list \<Rightarrow> bool" where
  "lock_finished ths = list_all (aff_finished (bar_finished (\<lambda>th. lt_pc th = Finished))) ths"

definition lock_counters ::
  "(nat \<Rightarrow> nat \<Rightarrow> 64 word) \<Rightarrow> 64 word \<Rightarrow> lock_handler list \<Rightarrow> (64 word \<times> 64 word) list" where
  "lock_counters tsc sc ths =
     map (\<lambda>(t, th). (lt_ops (lock_inner sc th), tsc t 1 - tsc t 0)) (zip [0..<length ths] ths)"

definition lock_main ::
  "'l bench_ops \<Rightarrow> 'l \<Rightarrow> 64 word \<Rightarrow> (nat \<Rightarrow> nat \<Rightarrow> 64 word) \<Rightarrow> nat list \<Rightarrow> string list \<Rightarrow>
     string c_result option" where
  "lock_main L free sc tsc sched argv =
     (case lock_parse_args argv of
        Inl e \<Rightarrow> Some (Inl e)
      | Inr opt \<Rightarrow>
          if (case lo_affinities opt of None \<Rightarrow> True | Some affs \<Rightarrow> nat (lo_multi opt) \<le> length affs)
          then (case lock_run L free sc opt sched of
                  (ths, sh) \<Rightarrow>
                    if lock_finished ths then Some (lock_report opt (lock_counters tsc sc ths)) else None)
          else Some (Inl Undefined))"

subsection \<open>Progress and exclusion for any lock\<close>

definition in_critical :: "lock_thread \<Rightarrow> bool" where
  "in_critical th = (case lt_pc th of Critical j \<Rightarrow> True | _ \<Rightarrow> False)"

text \<open>What a thread still has to do: the exact number of its own steps.\<close>

definition lock_round :: "lock_option \<Rightarrow> nat" where
  "lock_round opt = nat (lo_critical_job_size opt) + nat (lo_noncritical_job_size opt) + 3"

definition lock_todo :: "lock_option \<Rightarrow> lock_thread \<Rightarrow> nat" where
  "lock_todo opt th =
     (case lt_pc th of
        Loop_head \<Rightarrow> nat (lo_count opt - lt_i th) * lock_round opt + 1
      | Critical j \<Rightarrow> nat (lo_count opt - lt_i th - 1) * lock_round opt +
          nat (lo_critical_job_size opt - j) + nat (lo_noncritical_job_size opt) + 3
      | Noncritical j \<Rightarrow> nat (lo_count opt - lt_i th - 1) * lock_round opt +
          nat (lo_noncritical_job_size opt - j) + 2
      | Finished \<Rightarrow> 0)"

text \<open>The local invariant of a thread.\<close>

definition lock_thread_ok :: "lock_option \<Rightarrow> lock_thread \<Rightarrow> bool" where
  "lock_thread_ok opt th =
     (case lt_pc th of
        Loop_head \<Rightarrow> True
      | Critical j \<Rightarrow> lt_i th < lo_count opt \<and> 0 \<le> j
      | Noncritical j \<Rightarrow> lt_i th < lo_count opt \<and> 0 \<le> j
      | Finished \<Rightarrow> lt_ops th = word_of_int (lo_count opt))"

lemma nat_round: "i < c \<Longrightarrow> nat (c - i) * k = nat (c - i - 1) * k + k"
  by (metis (no_types, lifting) Suc_nat_eq_nat_zadd1 add.commute diff_add_cancel diff_gt_0_iff_gt
      mult_Suc zle_diff1_eq diff_ge_0_iff_ge)

lemma lock_job_step_todo:
  assumes "lock_job_step L opt t th l = Some (th', l')" and "lock_thread_ok opt th"
  shows "lock_thread_ok opt th' \<and> lock_todo opt th = Suc (lock_todo opt th')"
proof (cases "lt_pc th")
  case Loop_head
  show ?thesis
  proof (cases "lt_i th < lo_count opt")
    case True
    then have "nat (lo_count opt - lt_i th) * lock_round opt =
        nat (lo_count opt - lt_i th - 1) * lock_round opt + lock_round opt" by (rule nat_round)
    then show ?thesis
      using assms(1) Loop_head True
      by (auto simp: lock_job_step_def lock_thread_ok_def lock_todo_def lock_round_def split: option.splits)
  next
    case False
    then show ?thesis
      using assms(1) Loop_head by (auto simp: lock_job_step_def lock_thread_ok_def lock_todo_def)
  qed
next
  case (Critical j)
  then show ?thesis
    using assms by (auto simp: lock_job_step_def lock_thread_ok_def lock_todo_def split: if_splits)
next
  case (Noncritical j)
  then show ?thesis
    using assms
    by (auto simp: lock_job_step_def lock_thread_ok_def lock_todo_def diff_diff_eq split: if_splits)
next
  case Finished
  then show ?thesis using assms(1) by (simp add: lock_job_step_def)
qed

lemma lock_todo_0: "lock_todo opt th = 0 \<Longrightarrow> lt_pc th = Finished"
  by (simp add: lock_todo_def split: lock_pc.splits)

text \<open>The job with any lock is a client of it.\<close>

sublocale lock_contract < bench: lock_client L locked mine "lock_job_step L opt" in_critical
    "\<lambda>th. lt_pc th = Finished" "lock_thread_ok opt" "lock_todo opt" for opt
proof unfold_locales
  fix th th' t l l'
  show "lock_thread_ok opt th' \<and> lock_todo opt th = Suc (lock_todo opt th')"
    if "lock_thread_ok opt th" "lock_job_step L opt t th l = Some (th', l')"
    by (rule lock_job_step_todo [OF that(2,1)])
  show "\<not> in_critical th \<and> in_critical th' \<and> lk_acquire L t l = Some l' \<or>
      in_critical th \<and> \<not> in_critical th' \<and> l' = lk_release L t l \<or>
      in_critical th' = in_critical th \<and> l' = l"
    if "lock_job_step L opt t th l = Some (th', l')"
    using that
    by (cases "lt_pc th")
      (auto simp: lock_job_step_def in_critical_def split: if_splits option.splits)
  show "lt_pc th = Finished \<or> \<not> in_critical th \<and> lk_acquire L t l = None"
    if "lock_job_step L opt t th l = None"
    using that
    by (cases "lt_pc th")
      (auto simp: lock_job_step_def in_critical_def split: if_splits option.splits)
qed (simp_all add: lock_job_step_def in_critical_def lock_todo_0)

text \<open>
  The job of the mode \<open>mfence\<close> waits for nothing: it is a system of its own, with any lock.
\<close>

definition mfence_ok :: "lock_option \<Rightarrow> lock_thread \<Rightarrow> bool" where
  "mfence_ok opt th =
     (case lt_pc th of
        Loop_head \<Rightarrow> True
      | Finished \<Rightarrow> lt_ops th = word_of_int (lo_count opt * 128)
      | _ \<Rightarrow> False)"

definition mfence_todo :: "lock_option \<Rightarrow> lock_thread \<Rightarrow> nat" where
  "mfence_todo opt th = (case lt_pc th of Loop_head \<Rightarrow> nat (lo_count opt - lt_i th) + 1 | Finished \<Rightarrow> 0 | _ \<Rightarrow> 1)"

text \<open>What a thread has to do from the start of its job, and what it counts, in every mode.\<close>

definition lock_steps :: "lock_option \<Rightarrow> nat" where
  "lock_steps opt =
     (if lo_mode opt = TEST_MFENCE then nat (lo_count opt) + 1
      else nat (lo_count opt) * lock_round opt + 1)"

definition lock_done :: "lock_option \<Rightarrow> int" where
  "lock_done opt = (if lo_mode opt = TEST_MFENCE then lo_count opt * 128 else lo_count opt)"

text \<open>The locks of the benchmark come with the inner text of the mode \<open>mfence\<close>.\<close>

locale bench_lock = lock_contract L locked mine
  for L :: "'l bench_ops" and locked :: "'l \<Rightarrow> bool" and mine
begin

lemma mfence_system:
  assumes "lo_mode opt = TEST_MFENCE"
  shows "fair_system (lock_thread_step L opt) (\<lambda>s. list_all (mfence_ok opt) (fst s))
    (\<lambda>th. lt_pc th = Finished) (mfence_todo opt)"
proof
  fix ths l t th' l'
  assume a: "list_all (mfence_ok opt) (fst (ths, l))" "t < length ths"
    "lock_thread_step L opt t (ths ! t) l = Some (th', l')"
  have "mfence_job_step L opt (ths ! t) = Some th'"
    using a(3) assms by (simp add: lock_thread_step_def split: option.splits)
  then have "mfence_ok opt th' \<and> mfence_todo opt (ths ! t) = Suc (mfence_todo opt th')"
    by (cases "lt_pc (ths ! t)")
      (auto simp: mfence_job_step_def mfence_ok_def mfence_todo_def split: if_splits)
  then show "list_all (mfence_ok opt) (fst (ths[t := th'], l')) \<and>
      mfence_todo opt (ths ! t) = Suc (mfence_todo opt th')"
    using a(1) set_update_subset_insert [of ths t th'] by (auto simp: list_all_iff)
next
  fix ths l t
  assume a: "list_all (mfence_ok opt) (fst (ths, l))" "t < length ths"
    "\<forall>t < length ths. lock_thread_step L opt t (ths ! t) l = None"
  then have "mfence_ok opt (ths ! t)" "mfence_job_step L opt (ths ! t) = None"
    using assms by (auto simp: list_all_length lock_thread_step_def split: option.splits)
  then show "lt_pc (ths ! t) = Finished"
    by (cases "lt_pc (ths ! t)") (auto simp: mfence_job_step_def mfence_ok_def split: if_splits)
next
  fix th t l
  show "lock_thread_step L opt t th l = None" if "lt_pc th = Finished"
    using that assms by (simp add: lock_thread_step_def mfence_job_step_def)
  show "lt_pc th = Finished" if "mfence_todo opt th = 0"
    using that by (simp add: mfence_todo_def split: lock_pc.splits)
qed

definition job_inv :: "lock_option \<Rightarrow> lock_thread list \<times> 'l \<Rightarrow> bool" where
  "job_inv opt s =
     (if lo_mode opt = TEST_MFENCE then list_all (mfence_ok opt) (fst s) else bench.exclusive opt s)"

definition job_todo :: "lock_option \<Rightarrow> lock_thread \<Rightarrow> nat" where
  "job_todo opt = (if lo_mode opt = TEST_MFENCE then mfence_todo opt else lock_todo opt)"

lemma job_system:
  "fair_system (lock_thread_step L opt) (job_inv opt) (\<lambda>th. lt_pc th = Finished) (job_todo opt)"
proof (cases "lo_mode opt = TEST_MFENCE")
  case True
  then show ?thesis using mfence_system [OF True] by (simp add: job_inv_def [abs_def] job_todo_def)
next
  case False
  then have "lock_thread_step L opt = lock_job_step L opt"
    by (cases "lo_mode opt") (simp_all add: lock_thread_step_def fun_eq_iff)
  then show ?thesis
    using False bench.fair.fair_system_axioms [of opt] by (simp add: job_inv_def [abs_def] job_todo_def)
qed

lemma job_inv_done:
  assumes "job_inv opt (ths, l)" and "th \<in> set ths" and "lt_pc th = Finished"
  shows "lt_ops th = word_of_int (lock_done opt)"
proof (cases "lo_mode opt = TEST_MFENCE")
  case True
  then have "mfence_ok opt th" using assms(1,2) by (simp add: job_inv_def list_all_iff)
  then show ?thesis using assms(3) True by (simp add: mfence_ok_def lock_done_def)
next
  case False
  then have "lock_thread_ok opt th"
    using assms(1,2) by (auto simp: job_inv_def bench.exclusive_def in_set_conv_nth)
  then show ?thesis using assms(3) False by (simp add: lock_thread_ok_def lock_done_def)
qed

text \<open>The invariant of the handler: that of the job, after the barrier and the affinity.\<close>

definition handler_inv :: "64 word \<Rightarrow> lock_option \<Rightarrow> lock_handler list \<times> 'l lock_shared \<Rightarrow> bool" where
  "handler_inv sc opt =
     aff_inv (lock_arg_affinity opt) Arriving
       (bar_inv (nat (lo_multi opt)) (lock_thread_start sc) (job_inv opt))"

definition handler_todo :: "64 word \<Rightarrow> lock_option \<Rightarrow> lock_handler \<Rightarrow> nat" where
  "handler_todo sc opt = aff_todo Arriving (bar_todo (lock_thread_start sc) (job_todo opt))"

lemma handler_system:
  "fair_system (lock_thread_handler L sc opt) (handler_inv sc opt)
     (aff_finished (bar_finished (\<lambda>th. lt_pc th = Finished))) (handler_todo sc opt)"
  unfolding lock_thread_handler_def handler_inv_def handler_todo_def
  by (intro fair_system.affinity_system fair_system.barrier_system job_system)

end

sublocale bench_lock < handler: fair_system "lock_thread_handler L sc opt" "handler_inv sc opt"
    "aff_finished (bar_finished (\<lambda>th. lt_pc th = Finished))" "handler_todo sc opt" for sc opt
  by (rule handler_system)

context bench_lock
begin

lemma handler_start:
  assumes "\<not> locked free"
  shows "handler_inv sc opt (lock_start opt, (\<lambda>t. None), 0, free)"
    "sum_list (map (handler_todo sc opt) (lock_start opt)) = nat (lo_multi opt) * (lock_steps opt + 3)"
proof -
  let ?n = "nat (lo_multi opt)"
  have "bench.exclusive opt (replicate ?n (lock_thread_start sc), free)"
    by (rule bench.exclusive_start)
      (use assms in \<open>auto simp: bench.start_def lock_thread_start_def lock_thread_ok_def in_critical_def\<close>)
  then have "job_inv opt (replicate ?n (lock_thread_start sc), free)"
    by (auto simp: job_inv_def list_all_iff mfence_ok_def lock_thread_start_def)
  then show "handler_inv sc opt (lock_start opt, (\<lambda>t. None), 0, free)"
    by (auto simp: handler_inv_def aff_inv_def bar_inv_def bar_count_def lock_start_def)
  show "sum_list (map (handler_todo sc opt) (lock_start opt)) = ?n * (lock_steps opt + 3)"
    by (simp add: handler_todo_def aff_todo_def bar_todo_def lock_start_def job_todo_def
        sum_list_replicate lock_steps_def mfence_todo_def lock_todo_def lock_thread_start_def
        add_mult_distrib2)
qed

text \<open>What holds at any moment of any schedule.\<close>

lemma run_inv:
  assumes "lock_run L free sc opt sched = (ths, masks, arrived, l)" and "\<not> locked free"
  shows "job_inv opt (map (lock_inner sc) ths, l)" "length ths = nat (lo_multi opt)"
    "\<And>t. t < length ths \<Longrightarrow>
       masks t = (if ths ! t = Entering then None else map_option cpumask (lock_arg_affinity opt t))"
    "Entered (Past s) \<in> set ths \<Longrightarrow> Entering \<notin> set ths \<and> Entered Arriving \<notin> set ths"
proof -
  note i = handler.sched_inv [OF assms(1) [unfolded lock_run_def] handler_start(1) [OF assms(2)]]
  then show "length ths = nat (lo_multi opt)" by (simp add: lock_start_def)
  show "job_inv opt (map (lock_inner sc) ths, l)"
    using i(1) by (simp add: handler_inv_def aff_inv_def bar_inv_def lock_inner_def [abs_def] comp_def)
  show "masks t = (if ths ! t = Entering then None else map_option cpumask (lock_arg_affinity opt t))"
    if "t < length ths" for t
    using i(1) that by (simp add: handler_inv_def aff_inv_def)
  show "Entering \<notin> set ths \<and> Entered Arriving \<notin> set ths" if "Entered (Past s) \<in> set ths"
  proof -
    have past: "Past s \<in> set (map (aff_inner Arriving) ths)" using that by force
    then have "bar_count (map (aff_inner Arriving) ths) = length (map (aff_inner Arriving) ths)"
      using i(1) by (auto simp: handler_inv_def aff_inv_def bar_inv_def)
    then have "Arriving \<notin> set (map (aff_inner Arriving) ths)" using bar_count_all by blast
    then show ?thesis by force
  qed
qed

text \<open>The end of a fair run.\<close>

lemma run_ends:
  assumes "\<not> locked free" and "\<forall>r \<in> set rounds. {..<nat (lo_multi opt)} \<subseteq> set r"
    and "nat (lo_multi opt) * (lock_steps opt + 3) \<le> length rounds"
  obtains ths sh where "lock_run L free sc opt (concat rounds) = (ths, sh)" and "lock_finished ths"
    and "length ths = nat (lo_multi opt)"
    and "\<forall>th \<in> set ths. lt_ops (lock_inner sc th) = word_of_int (lock_done opt)"
proof -
  have len: "length (lock_start opt) = nat (lo_multi opt)" by (simp add: lock_start_def)
  obtain ths sh where run: "sched_run (lock_thread_handler L sc opt) (concat rounds)
      (lock_start opt, (\<lambda>t. None), 0, free) = (ths, sh)" "\<forall>th \<in> set ths.
      aff_finished (bar_finished (\<lambda>th. lt_pc th = Finished)) th" "length ths = nat (lo_multi opt)"
  proof (rule handler.fair_run [OF handler_start(1) [OF assms(1), of sc opt], of rounds])
  qed (use handler_start(2) [OF assms(1), of sc opt] assms(2,3) len in auto)
  obtain masks arrived l where sh: "sh = (masks, arrived, l)" by (cases sh) auto
  have "job_inv opt (map (lock_inner sc) ths, l)"
    using run_inv(1) [OF _ assms(1)] run(1) sh by (simp add: lock_run_def)
  then have ops: "lt_ops (lock_inner sc th) = word_of_int (lock_done opt)"
    if "th \<in> set ths" "lt_pc (lock_inner sc th) = Finished" for th
    using job_inv_done [of opt _ l "lock_inner sc th"] that by simp
  have "lt_pc (lock_inner sc th) = Finished" if "th \<in> set ths" for th
    using bspec [OF run(2) that]
    by (auto simp: lock_inner_def aff_finished_def bar_finished_def split: aff_thread.splits bar_thread.splits)
  then have "\<forall>th \<in> set ths. lt_ops (lock_inner sc th) = word_of_int (lock_done opt)"
    using ops by blast
  then show thesis
    using that run sh by (auto simp: lock_run_def lock_finished_def list_all_iff)
qed

end

interpretation spin: bench_lock "spin_ops inner" "\<lambda>l. l" "\<lambda>t l. l" for inner
  by unfold_locales (auto simp: spin_ops_def)

interpretation mutex: bench_lock "mutex_ops inner" "\<lambda>l. l \<noteq> None" "\<lambda>t l. l = Some t" for inner
  by unfold_locales (auto simp: mutex_ops_def)

subsection \<open>Properties\<close>

text \<open>
  C7: in the spin lock mode, whatever the schedule, the job that \<open>thread_job_spinlock\<close> does between
  lock and unlock is never done by two threads at once, and the spin lock is taken exactly while
  one of them does it.
\<close>

lemma spin_jobs_exclusive:
  assumes "lo_mode opt \<noteq> TEST_MFENCE"
    and "lock_run (spin_ops inner) False sc opt sched = (ths, masks, arrived, l)"
  shows "l = (\<exists>t < length ths. in_critical (lock_inner sc (ths ! t))) \<and>
    (\<forall>t u. t < length ths \<and> u < length ths \<and> in_critical (lock_inner sc (ths ! t)) \<and>
       in_critical (lock_inner sc (ths ! u)) \<longrightarrow> t = u)"
  using spin.run_inv(1) [OF assms(2)] assms(1)
  by (simp add: spin.job_inv_def spin.bench.exclusive_def cong: conj_cong)

text \<open>
  C8: the barrier separates the phases. Once a thread has begun its job, every thread has
  asked for the CPU mask of its affinity and has arrived at the barrier, so that all of them compete for
  the lock from the beginning. (The source ignores the result of \<open>sched_setaffinity\<close>.)
\<close>

theorem lock_barrier_first:
  assumes "lock_run (mutex_ops inner) None sc opt sched = (ths, masks, arrived, l)"
    and "Entered (Past s) \<in> set ths" and "t < nat (lo_multi opt)"
  shows "ths ! t \<noteq> Entering \<and> ths ! t \<noteq> Entered Arriving \<and>
    masks t = map_option cpumask (lock_arg_affinity opt t)"
proof -
  note i = mutex.run_inv [OF assms(1)]
  have t: "t < length ths" using i(2) assms(3) by simp
  then have "ths ! t \<in> set ths" by simp
  then show ?thesis using i(3) [OF _ t] i(4) assms(2) by auto
qed

text \<open>
  C6: a run of the program ends, with the mutex or in the mode \<open>mfence\<close>. If the schedule gives
  every thread a turn in each of its rounds and has as many rounds as the threads have steps to
  do, the program ends and reports for every thread the requested number of iterations (128
  operations for each of them in the mode \<open>mfence\<close>) and the difference of its two time stamps.
\<close>

lemma mutex_main_reports:
  assumes "lock_parse_args argv = Inr opt" and "lo_mode opt \<noteq> TEST_SPINLOCK"
    and "lo_affinities opt = None \<or> lo_affinities opt = Some affs \<and> nat (lo_multi opt) \<le> length affs"
    and "\<forall>r \<in> set rounds. {..<nat (lo_multi opt)} \<subseteq> set r"
    and "nat (lo_multi opt) * (lock_steps opt + 3) \<le> length rounds"
  shows "lock_main (mutex_ops inner) None sc tsc (concat rounds) argv =
    Some (lock_report opt
      (map (\<lambda>t. (word_of_int (lock_done opt), tsc t 1 - tsc t 0)) [0..<nat (lo_multi opt)]))"
proof -
  obtain ths sh where ths: "lock_run (mutex_ops inner) None sc opt (concat rounds) = (ths, sh)"
    "lock_finished ths" "length ths = nat (lo_multi opt)"
    "\<forall>th \<in> set ths. lt_ops (lock_inner sc th) = word_of_int (lock_done opt)"
    using mutex.run_ends [OF _ assms(4,5)] by blast
  then have "lock_counters tsc sc ths =
      map (\<lambda>t. (word_of_int (lock_done opt), tsc t 1 - tsc t 0)) [0..<nat (lo_multi opt)]"
    by (intro nth_equalityI) (simp_all add: lock_counters_def)
  then show ?thesis using ths(1,2) assms(3) by (auto simp: lock_main_def assms(1))
qed

subsection \<open>Runs\<close>

lemmas lock_eval = lock_run_def sched_step_def lock_start_def lock_default_option_def
  lock_thread_handler_def affinity_job_def barrier_job_def lock_arg_affinity_def
  lock_thread_step_def lock_job_step_def spin_ops_def mutex_ops_def numeral_2_eq_2

lemma spin_jobs_exclusive_witness:
  "\<exists>ths masks. lock_run (spin_ops id) False 0 (lock_default_option\<lparr>lo_multi := 2\<rparr>)
      [0, 1, 1, 0, 0, 1, 0, 1, 0] = (ths, masks, 2, True) \<and>
    in_critical (lock_inner 0 (ths ! 0)) \<and> \<not> in_critical (lock_inner 0 (ths ! 1))"
proof -
  let ?opt = "lock_default_option\<lparr>lo_multi := 2\<rparr>"
  have run: "lock_run (spin_ops id) False 0 ?opt [0, 1, 1, 0, 0, 1, 0, 1, 0] =
     ([Entered (Past ((lock_thread_start 0)\<lparr>lt_pc := Critical 1, lt_x := lock_work (lt_x (lock_thread_start 0))\<rparr>)),
       Entered (Past (lock_thread_start 0))], (\<lambda>t. None), 2, True)" (is "_ = (?ths, _)")
    by (simp add: lock_eval lock_thread_start_def)
  have mode: "lo_mode ?opt \<noteq> TEST_MFENCE" by (simp add: lock_default_option_def)
  have zero: "in_critical (lock_inner 0 (?ths ! 0))" by (simp add: in_critical_def lock_inner_def)
  have "0 < length ?ths \<and> 1 < length ?ths \<and> in_critical (lock_inner 0 (?ths ! 0)) \<and>
      in_critical (lock_inner 0 (?ths ! 1)) \<longrightarrow> (0::nat) = 1"
    using conjunct2 [OF spin_jobs_exclusive [OF mode run]] by blast
  with zero have "\<not> in_critical (lock_inner 0 (?ths ! 1))" by simp
  then show ?thesis using run zero by blast
qed

theorem lock_barrier_first_witness:
  "\<exists>ths masks l. lock_run (mutex_ops id) None 0
      (lock_default_option\<lparr>lo_multi := 2, lo_affinities := Some [Some (mb_make_affinity\<lparr>cpumask := 5\<rparr>), None]\<rparr>)
      [0, 0, 1, 1, 0] = (ths, masks, 2, l) \<and>
    Entered (Past (lock_thread_start 0)) \<in> set ths \<and> ths ! 1 \<noteq> Entered Arriving \<and> masks 0 = Some 5 \<and> masks 1 = None"
proof -
  let ?opt = "lock_default_option\<lparr>lo_multi := 2,
    lo_affinities := Some [Some (mb_make_affinity\<lparr>cpumask := 5\<rparr>), None]\<rparr>"
  obtain masks where run: "lock_run (mutex_ops id) None 0 ?opt [0, 0, 1, 1, 0] =
      ([Entered (Past (lock_thread_start 0)), Entered At_barrier], masks, 2, None)"
    by (simp add: lock_eval)
  have two: "0 < nat (lo_multi ?opt)" "1 < nat (lo_multi ?opt)" by simp_all
  show ?thesis
    using run lock_barrier_first [OF run _ two(1), of "lock_thread_start 0"]
      lock_barrier_first [OF run _ two(2), of "lock_thread_start 0"]
    by (simp add: lock_arg_affinity_def)
qed

lemma mutex_main_reports_witness:
  "lock_main (mutex_ops id) None 0 (\<lambda>t k. word_of_nat (640 * k)) (concat (replicate 18 [1, 0]))
     [''micbench-lock'', ''-m'', ''2'', ''-M'', ''mutex'', ''-C'', ''1'', ''-N1'', ''-c'', ''1''] =
   Some (lock_report (lock_default_option\<lparr>lo_multi := 2, lo_mode := TEST_MUTEX,
       lo_critical_job_size := 1, lo_noncritical_job_size := 1, lo_count := 1\<rparr>)
     [(1, 640), (1, 640)])"
proof -
  have args: "lock_parse_args
      [''micbench-lock'', ''-m'', ''2'', ''-M'', ''mutex'', ''-C'', ''1'', ''-N1'', ''-c'', ''1''] =
    Inr (lock_default_option\<lparr>lo_multi := 2, lo_mode := TEST_MUTEX,
       lo_critical_job_size := 1, lo_noncritical_job_size := 1, lo_count := 1\<rparr>)"
    by code_simp
  show ?thesis
    using mutex_main_reports [OF args, of "[]" "replicate 18 [1, 0]" id 0 "\<lambda>t k. word_of_nat (640 * k)"]
    by (auto simp: lock_default_option_def lock_round_def lock_steps_def lock_done_def
        lessThan_nat_numeral lessThan_Suc upt_rec)
qed

end
