(* ===== verification/ProtoBench.thy ===== *)
theory ProtoBench
  imports LockBench
begin

section \<open>micbench-proto\<close>

text \<open>
  src/src/micbench-proto.c, the prototype of the lock benchmark: its options, its job, which only
  takes and releases the spin lock, the thread handler, which sets the affinity and has no barrier,
  and its main program. The job is a further client of the locale of the locks. At its end the source closes a descriptor per thread that it never
  opened or set; that is left out.
\<close>

subsection \<open>Options\<close>

record proto_option =
  po_multi :: int
  po_affinities :: affinities
  po_timeout :: int
  po_count :: int
  po_verbose :: bool

definition proto_default_option :: proto_option where
  "proto_default_option =
     \<lparr>po_multi = 1, po_affinities = None, po_timeout = 10, po_count = 2 * 2 ^ 26,
      po_verbose = False\<rparr>"

text \<open>The option string \<open>+m:t:a:c:v\<close>.\<close>

definition proto_optspec :: optspec where
  "proto_optspec = map (\<lambda>c. (c, False)) ''v'' @ map (\<lambda>c. (c, True)) ''mtac''"

definition proto_set_value ::
  "char \<Rightarrow> string \<Rightarrow> string list \<Rightarrow> proto_option \<Rightarrow> proto_option c_result" where
  "proto_set_value c arg rest opt =
     (let num = fst (strtol arg)
      in if c = CHR ''m'' then Inr (opt\<lparr>po_multi := to_int num\<rparr>)
         else if c = CHR ''t'' then Inr (opt\<lparr>po_timeout := to_int num\<rparr>)
         else if c = CHR ''a'' then
           bind_c (add_affinity (po_multi opt) (po_affinities opt) arg rest) (\<lambda>(affs, ok).
           if ok then Inr (opt\<lparr>po_affinities := affs\<rparr>) else Inl Exit_Failure)
         else if c = CHR ''c'' then Inr (opt\<lparr>po_count := num\<rparr>)
         else Inl Exit_Failure)"

fun proto_option_loop ::
  "(opt_event \<times> string list) list \<Rightarrow> proto_option \<Rightarrow> proto_option c_result" where
  "proto_option_loop [] opt = Inr opt"
| "proto_option_loop ((ev, rest) # evs) opt =
     bind_c
       (case ev of
          Opt c \<Rightarrow> if c = CHR ''v'' then Inr (opt\<lparr>po_verbose := True\<rparr>) else Inl Exit_Failure
        | OptArg c arg \<Rightarrow> proto_set_value c arg rest opt
        | OptBad \<Rightarrow> Inl Exit_Failure)
       (proto_option_loop evs)"

definition proto_parse_args :: "string list \<Rightarrow> proto_option c_result" where
  "proto_parse_args argv = proto_option_loop (fst (getopt_scan proto_optspec argv)) proto_default_option"

subsection \<open>The job and the main program\<close>

datatype proto_pc = Proto_head | Proto_holds | Proto_end

record proto_thread =
  pt_i :: int
  pt_pc :: proto_pc

definition proto_job_step ::
  "('l, 'm) lock_ops_scheme \<Rightarrow> proto_option \<Rightarrow> (proto_thread, 'l) job" where
  "proto_job_step L opt t th l =
     (case pt_pc th of
        Proto_head \<Rightarrow>
          if pt_i th < po_count opt
          then (case lk_acquire L t l of
                  None \<Rightarrow> None
                | Some l' \<Rightarrow> Some (th\<lparr>pt_pc := Proto_holds\<rparr>, l'))
          else Some (th\<lparr>pt_pc := Proto_end\<rparr>, l)
      | Proto_holds \<Rightarrow> Some (th\<lparr>pt_pc := Proto_head, pt_i := pt_i th + 1\<rparr>, lk_release L t l)
      | Proto_end \<Rightarrow> None)"

text \<open>\<open>thread_handler\<close> and the arguments of the threads.\<close>

definition proto_arg_affinity :: "proto_option \<Rightarrow> nat \<Rightarrow> mb_affinity option" where
  "proto_arg_affinity opt i =
     (case po_affinities opt of
        None \<Rightarrow> None
      | Some affs \<Rightarrow> if i < length affs then affs ! i else None)"

definition proto_thread_start :: proto_thread where
  "proto_thread_start = \<lparr>pt_i = 0, pt_pc = Proto_head\<rparr>"

definition proto_thread_handler ::
  "('l, 'm) lock_ops_scheme \<Rightarrow> proto_option \<Rightarrow>
     (proto_thread aff_thread, (nat \<Rightarrow> 1024 word option) \<times> 'l) job" where
  "proto_thread_handler L opt = affinity_job (proto_arg_affinity opt) proto_thread_start (proto_job_step L opt)"

definition proto_start :: "proto_option \<Rightarrow> proto_thread aff_thread list" where
  "proto_start opt = replicate (nat (po_multi opt)) Entering"

text \<open>
  The main program under a schedule; \<open>None\<close> while it waits for a thread. The array of affinities
  is read once per thread, so it must be long enough.
\<close>

definition proto_finished :: "proto_thread aff_thread \<Rightarrow> bool" where
  "proto_finished = aff_finished (\<lambda>th. pt_pc th = Proto_end)"

definition proto_main ::
  "('l, 'm) lock_ops_scheme \<Rightarrow> 'l \<Rightarrow> nat list \<Rightarrow> string list \<Rightarrow> string c_result option" where
  "proto_main L free sched argv =
     (case proto_parse_args argv of
        Inl e \<Rightarrow> Some (Inl e)
      | Inr opt \<Rightarrow>
          if (case po_affinities opt of None \<Rightarrow> True | Some affs \<Rightarrow> nat (po_multi opt) \<le> length affs)
          then (case sched_run (proto_thread_handler L opt) sched (proto_start opt, (\<lambda>t. None), free) of
                  (ths, sh) \<Rightarrow>
                    if list_all proto_finished ths
                    then Some (Inr (mem_line ''multiplicity'' (show_int (po_multi opt))))
                    else None)
          else Some (Inl Undefined))"

subsection \<open>The job is a client of the lock\<close>

definition proto_todo :: "proto_option \<Rightarrow> proto_thread \<Rightarrow> nat" where
  "proto_todo opt th =
     (case pt_pc th of
        Proto_head \<Rightarrow> nat (po_count opt - pt_i th) * 2 + 1
      | Proto_holds \<Rightarrow> nat (po_count opt - pt_i th - 1) * 2 + 2
      | Proto_end \<Rightarrow> 0)"

definition proto_ok :: "proto_option \<Rightarrow> proto_thread \<Rightarrow> bool" where
  "proto_ok opt th \<longleftrightarrow> (pt_pc th = Proto_holds \<longrightarrow> pt_i th < po_count opt)"

lemma proto_job_todo:
  assumes "proto_job_step L opt t th l = Some (th', l')" and "proto_ok opt th"
  shows "proto_ok opt th' \<and> proto_todo opt th = Suc (proto_todo opt th')"
  using assms
  by (cases "pt_pc th")
    (auto simp: proto_job_step_def proto_ok_def proto_todo_def nat_round diff_diff_eq
      split: if_splits option.splits)

sublocale lock_contract < proto: lock_client L locked mine "proto_job_step L opt"
    "\<lambda>th. pt_pc th = Proto_holds" "\<lambda>th. pt_pc th = Proto_end" "proto_ok opt" "proto_todo opt" for opt
proof unfold_locales
  fix th th' t l l'
  show "proto_ok opt th' \<and> proto_todo opt th = Suc (proto_todo opt th')"
    if "proto_ok opt th" "proto_job_step L opt t th l = Some (th', l')"
    by (rule proto_job_todo [OF that(2,1)])
  show "pt_pc th \<noteq> Proto_holds \<and> pt_pc th' = Proto_holds \<and> lk_acquire L t l = Some l' \<or>
      pt_pc th = Proto_holds \<and> pt_pc th' \<noteq> Proto_holds \<and> l' = lk_release L t l \<or>
      (pt_pc th' = Proto_holds) = (pt_pc th = Proto_holds) \<and> l' = l"
    if "proto_job_step L opt t th l = Some (th', l')"
    using that
    by (cases "pt_pc th") (auto simp: proto_job_step_def split: if_splits option.splits)
  show "pt_pc th = Proto_end \<or> pt_pc th \<noteq> Proto_holds \<and> lk_acquire L t l = None"
    if "proto_job_step L opt t th l = None"
    using that
    by (cases "pt_pc th") (auto simp: proto_job_step_def split: if_splits option.splits)
  show "pt_pc th = Proto_end" if "proto_todo opt th = 0"
    using that by (simp add: proto_todo_def split: proto_pc.splits)
qed (simp_all add: proto_job_step_def)

sublocale lock_contract < proto_threads: fair_system "proto_thread_handler L opt"
    "aff_inv (proto_arg_affinity opt) proto_thread_start (proto.exclusive opt)" proto_finished
    "aff_todo proto_thread_start (proto_todo opt)" for opt
  unfolding proto_thread_handler_def proto_finished_def by (rule proto.fair.affinity_system)

subsection \<open>Properties\<close>

text \<open>
  C9: the prototype ends. With the spin lock, under every schedule with enough rounds in which
  each thread gets a turn, all threads set their affinity and take and release the lock as often
  as requested, and the program prints its one line.
\<close>

theorem proto_main_ends:
  assumes "proto_parse_args argv = Inr opt"
    and "po_affinities opt = None \<or> po_affinities opt = Some affs \<and> nat (po_multi opt) \<le> length affs"
    and "\<forall>r \<in> set rounds. {..<nat (po_multi opt)} \<subseteq> set r"
    and "nat (po_multi opt) * (2 * nat (po_count opt) + 2) \<le> length rounds"
  shows "proto_main (spin_ops inner) False (concat rounds) argv =
    Some (Inr (mem_line ''multiplicity'' (show_int (po_multi opt))))"
proof -
  have "spin.proto.exclusive opt (replicate (nat (po_multi opt)) proto_thread_start, False)"
    by (rule spin.proto.exclusive_start)
      (simp add: spin.proto.start_def proto_thread_start_def proto_ok_def)
  then have start: "aff_inv (proto_arg_affinity opt) proto_thread_start (spin.proto.exclusive opt)
      (proto_start opt, (\<lambda>t. None), False)" by (simp add: aff_inv_def proto_start_def)
  obtain ths sh where "sched_run (proto_thread_handler (spin_ops inner) opt) (concat rounds)
      (proto_start opt, (\<lambda>t. None), False) = (ths, sh)" "\<forall>th \<in> set ths. proto_finished th"
  proof (rule spin.proto_threads.fair_run [where inner = inner, OF start, of rounds])
  qed (use assms(3,4) in \<open>auto simp: proto_start_def sum_list_replicate aff_todo_def proto_todo_def
      proto_thread_start_def mult.commute\<close>)
  then show ?thesis using assms(2) by (auto simp: proto_main_def assms(1) list_all_iff)
qed

theorem proto_main_ends_witness:
  "proto_main (spin_ops id) False (concat (replicate 12 [1, 0]))
     [''micbench-proto'', ''-m'', ''2'', ''-c2''] = Some (Inr (mem_line ''multiplicity'' ''2''))"
proof -
  have args: "proto_parse_args [''micbench-proto'', ''-m'', ''2'', ''-c2''] =
      Inr (proto_default_option\<lparr>po_multi := 2, po_count := 2\<rparr>)" by code_simp
  have "show_int 2 = ''2''" by code_simp
  then show ?thesis
    using proto_main_ends [OF args, of "[]" "replicate 12 [1, 0]" id]
    by (auto simp: proto_default_option_def lessThan_nat_numeral lessThan_Suc)
qed

end
