(* ===== verification/MemMain.thy ===== *)
theory MemMain
  imports MemBench "HOL-Library.Multiset"
begin

section \<open>The main program of micbench-mem\<close>

text \<open>
  \<open>main\<close> of src/src/micbench-mem.c: from the command line over the mapped areas, the threads and
  the summary to the release of what was mapped and opened. A thread and the main thread each see
  their own sequence of answers of the kernel, so each has a world of its own: whatever the order
  in which the threads run, each of them makes its own observations. The threads share nothing
  else but the working area, and that only without \<open>-L\<close>; several threads that build their loop of
  pointers in one area are a data race, which is undefined.
\<close>

subsection \<open>Threads\<close>

text \<open>What a thread starts with: its world, the seed it takes, and the value of the counter
  \<open>wallclocktime\<close>, which the program does not set.\<close>

record 'w mem_thread_env =
  mte_world :: 'w
  mte_seed :: int
  mte_wall :: c_double

fun mem_each ::
  "('w, 'k) mem_kernel_scheme \<Rightarrow> inner_loop \<Rightarrow> inner_loop \<Rightarrow> nat \<Rightarrow> mem_option \<Rightarrow> 64 word \<Rightarrow>
     (nat \<Rightarrow> 'w mem_thread_env) \<Rightarrow> nat \<Rightarrow> mem_th_arg list \<Rightarrow>
     (perf_counter list \<times> string) c_result option" where
  "mem_each K il il64 num_ops opt sz env i [] = Some (Inr ([], []))"
| "mem_each K il il64 num_ops opt sz env i (arg # args) =
     bind_co (mem_thread_handler K il il64 num_ops opt (mte_seed (env i)) (unat sz) arg
                (replicate (unat sz div 8) 0)
                \<lparr>pc_ops = 0, pc_clk = 0, pc_wallclocktime = mte_wall (env i)\<rparr> (mte_world (env i)))
       (\<lambda>(pc, out, w').
     bind_co (mem_each K il il64 num_ops opt sz env (Suc i) args) (\<lambda>(pcs, outs).
     Some (Inr (pc # pcs, out @ outs))))"

definition mem_run_threads ::
  "('w, 'k) mem_kernel_scheme \<Rightarrow> inner_loop \<Rightarrow> inner_loop \<Rightarrow> nat \<Rightarrow> mem_option \<Rightarrow> 64 word \<Rightarrow>
     (nat \<Rightarrow> 'w mem_thread_env) \<Rightarrow> mem_th_arg list \<Rightarrow> (perf_counter list \<times> string) c_result option" where
  "mem_run_threads K il il64 num_ops opt sz env args =
     (if mo_rand opt \<and> \<not> mo_local opt \<and> 1 < length args then Some (Inl Undefined)
      else mem_each K il il64 num_ops opt sz env 0 args)"

subsection \<open>Release\<close>

definition mem_close :: "('w, 'k) mem_kernel_scheme \<Rightarrow> int \<Rightarrow> 'w \<Rightarrow> 'w" where
  "mem_close K fd w = (if fd \<noteq> -1 then m_close K fd w else w)"

definition mem_unmap ::
  "('w, 'k) mem_kernel_scheme \<Rightarrow> mem_option \<Rightarrow> 64 word \<Rightarrow> mem_th_arg list \<Rightarrow> 'w \<Rightarrow> 'w" where
  "mem_unmap K opt sz args w =
     (if mo_local opt then fold (\<lambda>arg. m_munmap K (mt_area arg) sz) args w
      else m_munmap K (mt_area (hd args)) sz w)"

definition mem_release ::
  "('w, 'k) mem_kernel_scheme \<Rightarrow> mem_option \<Rightarrow> 64 word \<Rightarrow> mem_th_arg list \<Rightarrow> 'w \<Rightarrow> 'w" where
  "mem_release K opt sz args w =
     fold (\<lambda>arg. mem_close K (mt_fd arg)) args (mem_unmap K opt sz args w)"

subsection \<open>The main program\<close>

text \<open>
  The result is what is printed on the standard output and the world of the main thread;
  \<open>micbench_set\<close> says whether the variable MICBENCH is set.
\<close>

definition mem_main ::
  "('w, 'k) mem_kernel_scheme \<Rightarrow> inner_loop \<Rightarrow> inner_loop \<Rightarrow> nat \<Rightarrow> (nat \<Rightarrow> 'w mem_thread_env) \<Rightarrow> bool \<Rightarrow>
     string list \<Rightarrow> 'w \<Rightarrow> (string \<times> 'w) c_result option" where
  "mem_main K il il64 num_ops env micbench_set argv w =
     (if \<not> micbench_set then Some (Inl Exit_Failure)
      else
        bind_co (Some (mem_parse_args argv)) (\<lambda>opt.
        bind_co (Some (mem_setup K opt w)) (\<lambda>(args, fd, w1).
        bind_co (Some (mem_mmap_size K opt)) (\<lambda>sz.
        let (start_tv, w2) = k_gettimeofday K w1
        in bind_co (mem_run_threads K il il64 num_ops opt sz env args) (\<lambda>(pcs, out).
           let (end_tv, w3) = k_gettimeofday K w2; w4 = mem_close K fd w3
           in Some (Inr (out @ mem_print_summary K il opt (mem_aggregate opt pcs) start_tv end_tv,
                         mem_release K opt sz args w4)))))))"

subsection \<open>Counting\<close>

lemma mem_sums_ops:
  "fst (mem_sums pcs (ops, clk, t)) = ops + sum_list (map pc_ops pcs)"
  by (induction pcs arbitrary: ops clk t) (simp_all add: add.assoc)

lemma mem_aggregate_ops: "ms_ops (mem_aggregate opt pcs) = sum_list (map pc_ops pcs)"
  using mem_sums_ops [of pcs 0 0 "Fin 0"] by (simp add: mem_aggregate_def Let_def case_prod_beta)

lemma sum_list_of_nat: "sum_list (map of_nat ns) = (of_nat (sum_list ns) :: 'a::len word)"
  by (induction ns) simp_all

text \<open>Without affinities and huge pages all threads get the same size and no affinity.\<close>

lemma mem_map_local_plain:
  assumes "mo_hugetlbfile opt = None" and "\<And>len w. fst (m_mmap K len True (-1) w) \<noteq> None"
    and "\<forall>(i, aff) \<in> set affs. aff = None"
  shows "\<exists>args w'. mem_map_local K opt sz affs w = Inr (args, w') \<and> length args = length affs \<and>
    (\<forall>arg \<in> set args. mt_affinity arg = None \<and> mt_size arg = mo_size opt)"
  using assms(3)
proof (induction affs arbitrary: w)
  case (Cons a affs)
  obtain i where a: "a = (i, None)" using Cons.prems by (cases a) auto
  obtain p w1 where "m_mmap K sz True (-1) w = (Some p, w1)"
    using assms(2) [of sz w] by (cases "m_mmap K sz True (-1) w") auto
  then have area: "mem_map_area K opt sz None w = Inr (-1, p, w1)"
    using assms(1) by (simp add: mem_map_area_def mem_open_huge_def mem_bind_def)
  obtain args w2 where "mem_map_local K opt sz affs (mem_memset_clock K opt w1) = Inr (args, w2)"
    "length args = length affs"
    "\<forall>arg \<in> set args. mt_affinity arg = None \<and> mt_size arg = mo_size opt"
    using Cons.IH [of "mem_memset_clock K opt w1"] Cons.prems by auto
  then show ?case using area by (simp add: a)
qed simp

lemma mem_setup_plain:
  assumes "1 \<le> mo_multi opt" and "mo_affinities opt = None" and "mo_hugetlbfile opt = None"
    and "mem_mmap_size K opt = Inr r" and "\<And>len w. fst (m_mmap K len True (-1) w) \<noteq> None"
  shows "\<exists>args fd w'. mem_setup K opt w = Inr (args, fd, w') \<and> length args = nat (mo_multi opt) \<and>
    (\<forall>arg \<in> set args. mt_affinity arg = None \<and> mt_size arg = mo_size opt)"
proof -
  define affs where "affs = map (\<lambda>i. (int i, None :: mb_affinity option)) [0..<nat (mo_multi opt)]"
  have affs: "mem_thread_affinities opt = Inr affs" "\<forall>(i, aff) \<in> set affs. aff = None"
    "length affs = nat (mo_multi opt)"
    using assms(2) by (auto simp: mem_thread_affinities_def affs_def)
  show ?thesis
  proof (cases "mo_local opt")
    case True
    obtain args w' where "mem_map_local K opt r affs w = Inr (args, w')" "length args = length affs"
      "\<forall>arg \<in> set args. mt_affinity arg = None \<and> mt_size arg = mo_size opt"
      using mem_map_local_plain [OF assms(3,5) affs(2)] by blast
    then show ?thesis using True affs assms(4) by (simp add: mem_setup_def)
  next
    case False
    obtain p w1 where "m_mmap K r True (-1) w = (Some p, w1)"
      using assms(5) [of r w] by (cases "m_mmap K r True (-1) w") auto
    then have area: "mem_map_area K opt r None w = Inr (-1, p, w1)"
      using assms(3) by (simp add: mem_map_area_def mem_open_huge_def mem_bind_def)
    obtain i0 rest where cons: "affs = (i0, None) # rest"
      using affs(2,3) assms(1) by (cases affs) auto
    show ?thesis
      using False affs assms(4) area by (auto simp: mem_setup_def cons)
  qed
qed

text \<open>Each of the threads counts what it executes.\<close>

lemma mem_each_counts:
  assumes "\<And>pc w. \<exists>pc' execd w'.
      do_memory_stress_seq K il il64 opt (unat sz) (nat (mo_size opt)) pc w = Some (Inr (pc', execd, w')) \<and>
      pc_ops pc' = pc_ops pc + of_nat execd"
    and "\<not> mo_rand opt"
  shows "\<forall>arg \<in> set args. mt_affinity arg = None \<and> mt_size arg = mo_size opt \<Longrightarrow>
    \<exists>pcs execds. mem_each K il il64 num_ops opt sz env i args = Some (Inr (pcs, [])) \<and>
      length pcs = length args \<and> map pc_ops pcs = map of_nat execds \<and>
      (\<forall>j < length args. \<exists>w'. do_memory_stress_seq K il il64 opt (unat sz) (nat (mo_size opt))
         \<lparr>pc_ops = 0, pc_clk = 0, pc_wallclocktime = mte_wall (env (i + j))\<rparr> (mte_world (env (i + j))) =
         Some (Inr (pcs ! j, execds ! j, w')))"
proof (induction args arbitrary: i)
  case Nil
  show ?case by (intro exI [of _ "[]"]) simp
next
  case (Cons arg args)
  let ?pc = "\<lparr>pc_ops = 0, pc_clk = 0, pc_wallclocktime = mte_wall (env i)\<rparr>"
  obtain pc' execd w' where one: "do_memory_stress_seq K il il64 opt (unat sz) (nat (mo_size opt)) ?pc
      (mte_world (env i)) = Some (Inr (pc', execd, w'))" "pc_ops pc' = of_nat execd"
    using assms(1) [of ?pc "mte_world (env i)"] by auto
  obtain pcs execds where ih: "mem_each K il il64 num_ops opt sz env (Suc i) args = Some (Inr (pcs, []))"
    "length pcs = length args" "map pc_ops pcs = map of_nat execds"
    "\<forall>j < length args. \<exists>w'. do_memory_stress_seq K il il64 opt (unat sz) (nat (mo_size opt))
         \<lparr>pc_ops = 0, pc_clk = 0, pc_wallclocktime = mte_wall (env (Suc i + j))\<rparr>
         (mte_world (env (Suc i + j))) = Some (Inr (pcs ! j, execds ! j, w'))"
    using Cons.IH [of "Suc i"] Cons.prems by auto
  have "mem_each K il il64 num_ops opt sz env i (arg # args) = Some (Inr (pc' # pcs, []))"
    using one(1) ih(1) Cons.prems assms(2) by (simp add: mem_thread_handler_def)
  moreover have "\<exists>w'. do_memory_stress_seq K il il64 opt (unat sz) (nat (mo_size opt))
         \<lparr>pc_ops = 0, pc_clk = 0, pc_wallclocktime = mte_wall (env (i + j))\<rparr> (mte_world (env (i + j))) =
         Some (Inr ((pc' # pcs) ! j, (execd # execds) ! j, w'))" if "j < Suc (length args)" for j
    using that one(1) ih(4) by (cases j) auto
  ultimately show ?case
    using one(2) ih(2,3) by (intro exI [of _ "pc' # pcs"] exI [of _ "execd # execds"]) simp
qed

subsection \<open>Releasing\<close>

text \<open>
  The books of the kernel: which areas are mapped and which descriptors are open, with their
  multiplicity, and how the system calls change them.
\<close>

definition mem_ledger ::
  "('w, 'k) mem_kernel_scheme \<Rightarrow> ('w \<Rightarrow> (addr \<times> 64 word) multiset) \<Rightarrow> ('w \<Rightarrow> int multiset) \<Rightarrow> bool" where
  "mem_ledger K maps fds \<longleftrightarrow>
     (\<forall>f w. maps (snd (m_open K f w)) = maps w \<and>
        (fst (m_open K f w) \<noteq> -1 \<longrightarrow> fds (snd (m_open K f w)) = add_mset (fst (m_open K f w)) (fds w))) \<and>
     (\<forall>len anon fd w p. fst (m_mmap K len anon fd w) = Some p \<longrightarrow>
        maps (snd (m_mmap K len anon fd w)) = add_mset (p, len) (maps w) \<and>
        fds (snd (m_mmap K len anon fd w)) = fds w) \<and>
     (\<forall>p len mask w. maps (snd (m_mbind K p len mask w)) = maps w \<and>
        fds (snd (m_mbind K p len mask w)) = fds w) \<and>
     (\<forall>w. maps (snd (k_gettimeofday K w)) = maps w \<and> fds (snd (k_gettimeofday K w)) = fds w) \<and>
     (\<forall>p len w. maps (m_munmap K p len w) = maps w - {#(p, len)#} \<and> fds (m_munmap K p len w) = fds w) \<and>
     (\<forall>fd w. maps (m_close K fd w) = maps w \<and> fds (m_close K fd w) = fds w - {#fd#})"

definition open_fds :: "int list \<Rightarrow> int multiset" where
  "open_fds xs = mset (filter (\<lambda>fd. fd \<noteq> -1) xs)"

lemma ledger_clock:
  assumes "mem_ledger K maps fds" and "k_gettimeofday K w = (tv, w')"
  shows "maps w' = maps w \<and> fds w' = fds w"
proof -
  have "\<forall>w. maps (snd (k_gettimeofday K w)) = maps w \<and> fds (snd (k_gettimeofday K w)) = fds w"
    using assms(1) unfolding mem_ledger_def by blast
  then show ?thesis using assms(2) by (metis snd_conv)
qed

lemma ledger_memset:
  assumes "mem_ledger K maps fds"
  shows "maps (mem_memset_clock K opt w) = maps w \<and> fds (mem_memset_clock K opt w) = fds w"
proof -
  obtain tv w1 where t: "k_gettimeofday K w = (tv, w1)" by fastforce
  obtain tv2 w2 where t2: "k_gettimeofday K w1 = (tv2, w2)" by fastforce
  show ?thesis
    using ledger_clock [OF assms t] ledger_clock [OF assms t2] t t2
    by (simp add: mem_memset_clock_def mb_elapsed_time_from_def)
qed

lemma ledger_close:
  assumes "mem_ledger K maps fds"
  shows "maps (mem_close K fd w) = maps w \<and> fds (mem_close K fd w) = fds w - open_fds [fd]"
  using assms by (simp add: mem_close_def open_fds_def mem_ledger_def)

lemma ledger_open_huge:
  assumes "mem_ledger K maps fds" and "mem_open_huge K opt w = Inr (fd, w1)"
  shows "maps w1 = maps w \<and> fds w1 = fds w + open_fds [fd]"
proof (cases "mo_hugetlbfile opt")
  case None
  then show ?thesis using assms(2) by (simp add: mem_open_huge_def open_fds_def)
next
  case (Some f)
  then have o: "m_open K f w = (fd, w1)" "fd \<noteq> -1"
    using assms(2) by (auto simp: mem_open_huge_def split: prod.splits if_splits)
  have "maps (snd (m_open K f w)) = maps w \<and>
      (fst (m_open K f w) \<noteq> -1 \<longrightarrow> fds (snd (m_open K f w)) = add_mset (fst (m_open K f w)) (fds w))"
    using assms(1) unfolding mem_ledger_def by blast
  then show ?thesis using o by (simp add: open_fds_def)
qed

lemma ledger_area:
  assumes "mem_ledger K maps fds" and "mem_map_area K opt sz aff w = Inr (fd, p, w')"
  shows "maps w' = add_mset (p, sz) (maps w) \<and> fds w' = fds w + open_fds [fd]"
proof -
  obtain fd0 w1 where h: "mem_open_huge K opt w = Inr (fd0, w1)"
    using assms(2) by (cases "mem_open_huge K opt w") (auto simp: mem_map_area_def)
  obtain area w2 where a: "m_mmap K sz (mo_hugetlbfile opt = None) fd0 w1 = (area, w2)" by fastforce
  have w1: "mem_open_huge K opt w = Inr (fd, w1)"
    and w2: "m_mmap K sz (mo_hugetlbfile opt = None) fd w1 = (Some p, w2)"
      "mem_bind K aff p sz w2 = Inr w'"
    using assms(2) h a by (auto simp: mem_map_area_def bind_c_eq_Inr split: option.splits)
  have "maps w1 = maps w \<and> fds w1 = fds w + open_fds [fd]"
    by (rule ledger_open_huge [OF assms(1) w1])
  moreover have "maps w2 = add_mset (p, sz) (maps w1) \<and> fds w2 = fds w1"
    using w2(1) assms(1) unfolding mem_ledger_def by (metis fst_conv snd_conv)
  moreover have "maps w' = maps w2 \<and> fds w' = fds w2"
    using w2(2) assms(1)
    by (auto simp: mem_bind_def mem_ledger_def case_prod_beta split: option.splits if_splits)
  ultimately show ?thesis by simp
qed

lemma open_fds_simps [simp]:
  "open_fds [] = {#}" "open_fds (fd # fds) = open_fds [fd] + open_fds fds"
  by (simp_all add: open_fds_def)

declare open_fds_simps(2) [simp del]

lemma ledger_local:
  assumes "mem_ledger K maps fds"
  shows "mem_map_local K opt sz affs w = Inr (args, w') \<Longrightarrow>
    maps w' = maps w + mset (map (\<lambda>arg. (mt_area arg, sz)) args) \<and>
    fds w' = fds w + open_fds (map mt_fd args)"
proof (induction affs arbitrary: w args w')
  case (Cons a affs)
  obtain i aff where a: "a = (i, aff)" by fastforce
  obtain fd p w1 args' where area: "mem_map_area K opt sz aff w = Inr (fd, p, w1)"
    and rest: "mem_map_local K opt sz affs (mem_memset_clock K opt w1) = Inr (args', w')"
    and args: "args = \<lparr>mt_id = i, mt_affinity = aff, mt_area = p, mt_size = mo_size opt, mt_fd = fd\<rparr> # args'"
    using Cons.prems by (auto simp: a bind_c_eq_Inr)
  show ?case
    using ledger_area [OF assms area] ledger_memset [OF assms, of opt w1] Cons.IH [OF rest]
    by (simp add: args open_fds_simps(2) [of fd "map mt_fd args'"] add.assoc)
qed simp

lemma ledger_fold_close:
  assumes "mem_ledger K maps fds"
  shows "maps (fold (\<lambda>arg. mem_close K (mt_fd arg)) args w) = maps w \<and>
    fds (fold (\<lambda>arg. mem_close K (mt_fd arg)) args w) = fds w - open_fds (map mt_fd args)"
proof (induction args arbitrary: w)
  case (Cons arg args)
  then show ?case
    using ledger_close [OF assms, of "mt_fd arg" w]
    by (simp add: open_fds_simps(2) [of "mt_fd arg" "map mt_fd args"])
qed simp

lemma ledger_fold_munmap:
  assumes "mem_ledger K maps fds"
  shows "maps (fold (\<lambda>arg. m_munmap K (mt_area arg) sz) args w) =
      maps w - mset (map (\<lambda>arg. (mt_area arg, sz)) args) \<and>
    fds (fold (\<lambda>arg. m_munmap K (mt_area arg) sz) args w) = fds w"
proof (induction args arbitrary: w)
  case (Cons arg args)
  have "maps (m_munmap K (mt_area arg) sz w) = maps w - {#(mt_area arg, sz)#}"
    "fds (m_munmap K (mt_area arg) sz w) = fds w"
    using assms by (simp_all add: mem_ledger_def)
  then show ?case using Cons.IH [of "m_munmap K (mt_area arg) sz w"] by simp
qed simp

text \<open>What \<open>mem_setup\<close> takes is what \<open>mem_release\<close> and the close of the shared file give back.\<close>

lemma ledger_setup_release:
  assumes "mem_ledger K maps fds" and "mem_setup K opt w = Inr (args, fd, w1)"
    and "mem_mmap_size K opt = Inr sz" and "maps w2 = maps w1" and "fds w2 = fds w1"
  shows "maps (mem_release K opt sz args (mem_close K fd w2)) = maps w \<and>
    fds (mem_release K opt sz args (mem_close K fd w2)) = fds w"
proof (cases "mo_local opt")
  case True
  obtain affs where l: "mem_map_local K opt sz affs w = Inr (args, w1)" "fd = -1"
    using assms(2,3) True by (auto simp: mem_setup_def bind_c_eq_Inr)
  show ?thesis
    using ledger_local [OF assms(1) l(1)] assms(4,5) True l(2)
      ledger_fold_munmap [OF assms(1), of sz args "mem_close K fd w2"]
      ledger_fold_close [OF assms(1), of args "fold (\<lambda>arg. m_munmap K (mt_area arg) sz) args (mem_close K fd w2)"]
      ledger_close [OF assms(1), of fd w2]
    by (simp add: mem_release_def mem_unmap_def open_fds_def)
next
  case False
  obtain xs where xs: "mem_thread_affinities opt = Inr xs" "xs \<noteq> []"
    using assms(2,3) False
    by (cases "mem_thread_affinities opt") (auto simp: mem_setup_def split: list.splits)
  then obtain i1 aff1 rest where "xs = (i1, aff1) # rest" by (cases xs) auto
  then obtain i0 aff0 affs p where m: "mem_map_area K opt sz aff0 w = Inr (fd, p, w1)"
    and args: "args = map (\<lambda>(i, aff). \<lparr>mt_id = i, mt_affinity = aff, mt_area = p,
      mt_size = mo_size opt, mt_fd = -1\<rparr>) ((i0, aff0) # affs)"
    using assms(2,3) False xs by (auto simp: mem_setup_def bind_c_eq_Inr)
  have none: "open_fds (map mt_fd args) = {#}"
    by (simp add: args open_fds_def filter_empty_conv case_prod_beta)
  have area: "mt_area (hd args) = p" by (simp add: args)
  have "maps (m_munmap K p sz v) = maps v - {#(p, sz)#} \<and> fds (m_munmap K p sz v) = fds v" for v
    using assms(1) by (simp add: mem_ledger_def)
  then show ?thesis
    using ledger_area [OF assms(1) m] assms(4,5) False area none
      ledger_fold_close [OF assms(1), of args "m_munmap K p sz (mem_close K fd w2)"]
      ledger_close [OF assms(1), of fd w2]
    by (simp add: mem_release_def mem_unmap_def)
qed

subsection \<open>The sequential benchmark\<close>

lemma mem_main_seq:
  assumes "mem_parse_args argv = Inr opt" and "1 \<le> mo_multi opt" and "mo_affinities opt = None"
    and "\<not> mo_rand opt" and "\<And>len w. fst (m_mmap K len True (-1) w) \<noteq> None"
    and "mem_clock K now" and "mo_hugetlbfile opt = None"
    and "mo_size opt = int ws" and "0 < ws" and "m_page_size K = int page" and "0 < page"
    and "ws + page < 2 ^ 64" and "il = (if ws < 1024 then il64 else il1024)"
    and "0 < il_region_size il" and "il_region_size il dvd page" and "il_region_size il dvd ws"
    and "8 dvd ws"
  shows "\<exists>r pcs execds tv tv' w'. mem_mmap_size K opt = Inr r \<and> length pcs = nat (mo_multi opt) \<and>
    length execds = nat (mo_multi opt) \<and>
    (\<forall>i < nat (mo_multi opt). \<exists>w2. do_memory_stress_seq K il1024 il64 opt (unat r) ws
       \<lparr>pc_ops = 0, pc_clk = 0, pc_wallclocktime = mte_wall (env i)\<rparr> (mte_world (env i)) =
       Some (Inr (pcs ! i, execds ! i, w2))) \<and>
    ms_ops (mem_aggregate opt pcs) = of_nat (sum_list execds) \<and>
    mem_main K il1024 il64 num_ops env True argv w =
      Some (Inr (mem_print_summary K il1024 opt (mem_aggregate opt pcs) tv tv', w'))"
proof -
  have "in_int (mo_timeout opt)" using mem_parse_typed [OF assms(1)] by (simp add: mem_option_typed_def)
  note seq = mem_seq_counts_reads [OF assms(6) this assms(7-17)]
  obtain r where r: "mem_mmap_size K opt = Inr r" using seq by blast
  obtain args fd wa where args: "mem_setup K opt w = Inr (args, fd, wa)"
    "length args = nat (mo_multi opt)"
    "\<forall>arg \<in> set args. mt_affinity arg = None \<and> mt_size arg = mo_size opt"
    using mem_setup_plain [OF assms(2,3,7) r assms(5)] by blast
  have one: "\<exists>pc' execd w'. do_memory_stress_seq K il1024 il64 opt (unat r) (nat (mo_size opt)) pc v =
      Some (Inr (pc', execd, w')) \<and> pc_ops pc' = pc_ops pc + of_nat execd" for pc v
    using seq [of pc v] r assms(8) by auto
  obtain pcs execds where run: "mem_each K il1024 il64 num_ops opt r env 0 args = Some (Inr (pcs, []))"
    "length pcs = length args" "map pc_ops pcs = map of_nat execds"
    "\<forall>j < length args. \<exists>w'. do_memory_stress_seq K il1024 il64 opt (unat r) (nat (mo_size opt))
         \<lparr>pc_ops = 0, pc_clk = 0, pc_wallclocktime = mte_wall (env (0 + j))\<rparr> (mte_world (env (0 + j))) =
         Some (Inr (pcs ! j, execds ! j, w'))"
    using mem_each_counts [OF one assms(4) args(3), of num_ops env 0] by blast
  obtain tv w1 where tv: "k_gettimeofday K wa = (tv, w1)" by fastforce
  obtain tv' w2 where tv': "k_gettimeofday K w1 = (tv', w2)" by fastforce
  have "mem_main K il1024 il64 num_ops env True argv w =
      Some (Inr (mem_print_summary K il1024 opt (mem_aggregate opt pcs) tv tv',
        mem_release K opt r args (mem_close K fd w2)))"
    using assms(1,4) args(1) r run(1) tv tv' by (simp add: mem_main_def mem_run_threads_def)
  moreover have "ms_ops (mem_aggregate opt pcs) = of_nat (sum_list execds)"
    using run(3) by (simp add: mem_aggregate_ops sum_list_of_nat)
  moreover have "length execds = nat (mo_multi opt)"
    using run(2,3) args(2) by (metis length_map)
  ultimately show ?thesis using r run(2,4) args(2) assms(8) by auto
qed

subsection \<open>Properties\<close>

text \<open>
  C14: The sequential benchmark counts what it reads, on sizes that suit its inner loop. In sequential mode, with at
  least one thread, no affinities and no huge pages, a working area that is not empty, a multiple
  of 8 bytes and a whole number of regions of the inner loop, pages that are whole regions too, mappings that succeed and a
  clock that goes on, no thread reads outside the mapped memory, the program ends, and it prints as \<open>total_ops\<close>
  exactly the number of operations that the inner loops of all threads executed (modulo \<open>2^64\<close>). On other
  sizes the number is too small (\<open>mem_seq_undercounts\<close>).
\<close>

theorem mem_main_counts_reads:
  assumes "mem_parse_args argv = Inr opt" and "1 \<le> mo_multi opt" and "mo_affinities opt = None"
    and "\<not> mo_rand opt" and "\<And>len w. fst (m_mmap K len True (-1) w) \<noteq> None"
    and "mem_clock K now" and "mo_hugetlbfile opt = None"
    and "mo_size opt = int ws" and "0 < ws" and "m_page_size K = int page" and "0 < page"
    and "ws + page < 2 ^ 64" and "il = (if ws < 1024 then il64 else il1024)"
    and "0 < il_region_size il" and "il_region_size il dvd page" and "il_region_size il dvd ws"
    and "8 dvd ws"
  shows "\<exists>r pcs execds tv tv' w'. mem_mmap_size K opt = Inr r \<and> length pcs = nat (mo_multi opt) \<and>
    length execds = nat (mo_multi opt) \<and>
    (\<forall>i < nat (mo_multi opt). \<exists>w2. do_memory_stress_seq K il1024 il64 opt (unat r) ws
       \<lparr>pc_ops = 0, pc_clk = 0, pc_wallclocktime = mte_wall (env i)\<rparr> (mte_world (env i)) =
       Some (Inr (pcs ! i, execds ! i, w2))) \<and>
    ms_ops (mem_aggregate opt pcs) = of_nat (sum_list execds) \<and>
    mem_main K il1024 il64 num_ops env True argv w =
      Some (Inr (mem_print_summary K il1024 opt (mem_aggregate opt pcs) tv tv', w'))"
  using assms by (rule mem_main_seq)

text \<open>
  C15: The program gives back what it takes. Whatever the command line, with shared or local areas,
  with huge pages or without: if the program ends normally, every area it mapped has been unmapped
  once and with its size, and every descriptor it opened has been closed once.
\<close>

theorem mem_main_releases:
  assumes "mem_main K il il64 num_ops env micbench_set argv w = Some (Inr (out, w'))"
    and "mem_ledger K maps fds"
  shows "maps w' = maps w \<and> fds w' = fds w"
proof -
  obtain opt args fd w1 sz where p: "mem_parse_args argv = Inr opt"
    "mem_setup K opt w = Inr (args, fd, w1)" "mem_mmap_size K opt = Inr sz"
    using assms(1) by (auto simp: mem_main_def bind_co_eq_Inr split: if_splits)
  obtain tv w2 where tv: "k_gettimeofday K w1 = (tv, w2)" by fastforce
  obtain tv' w3 where tv': "k_gettimeofday K w2 = (tv', w3)" by fastforce
  have "w' = mem_release K opt sz args (mem_close K fd w3)"
    using assms(1) p tv tv' by (auto simp: mem_main_def bind_co_eq_Inr split: if_splits)
  moreover have "maps w3 = maps w1" "fds w3 = fds w1"
    using ledger_clock [OF assms(2) tv] ledger_clock [OF assms(2) tv'] by simp_all
  ultimately show ?thesis using ledger_setup_release [OF assms(2) p(2,3), of w3] by simp
qed

subsection \<open>Runs\<close>

text \<open>A machine that keeps its books: a clock, the mapped areas and the open descriptors.\<close>

definition ledger_mem :: "(int \<times> (addr \<times> 64 word) multiset \<times> int multiset) mem_kernel" where
  "ledger_mem =
     \<lparr>k_read = \<lambda>fd sz w. (0, [], w), k_write = \<lambda>fd bytes w. (0, w),
      k_pread64 = \<lambda>fd sz offset w. (0, [], w), k_pwrite64 = \<lambda>fd bytes offset w. (0, w),
      k_lseek64 = \<lambda>fd offset w. (offset, w),
      k_gettimeofday = \<lambda>w. (\<lparr>tv_sec = 0, tv_usec = fst w\<rparr>, w), k_usleep = \<lambda>usec w. w,
      m_rdtsc = \<lambda>(t, m). (word_of_int t, 0, t + 500000, m),
      m_open = \<lambda>f (t, maps, fds). (3, t, maps, add_mset 3 fds),
      m_mmap = \<lambda>len anon fd (t, maps, fds). (Some 4096, t, add_mset (4096, len) maps, fds),
      m_mbind = \<lambda>p len mask w. (0, w),
      m_page_size = 4096, m_numa_arch = False, m_sched_setaffinity = \<lambda>mask w. w,
      m_munmap = \<lambda>p len (t, maps, fds). (t, maps - {#(p, len)#}, fds),
      m_close = \<lambda>fd (t, maps, fds). (t, maps, fds - {#fd#})\<rparr>"

definition local_argv :: "string list" where
  "local_argv = [''micbench-mem'', ''-L'', ''-m'', ''2'']"

definition local_opts :: mem_option where
  "local_opts = mem_default_option\<lparr>mo_local := True, mo_multi := 2\<rparr>"

definition demo_envs :: "nat \<Rightarrow> (int \<times> (addr \<times> 64 word) multiset \<times> int multiset) mem_thread_env" where
  "demo_envs i = \<lparr>mte_world = (int i, {#}, {#}), mte_seed = 42, mte_wall = Fin 0\<rparr>"

lemma ledger_mem_ledger: "mem_ledger ledger_mem (fst \<circ> snd) (snd \<circ> snd)"
  by (simp add: mem_ledger_def ledger_mem_def case_prod_beta)

lemma ledger_mem_clock: "mem_clock ledger_mem fst"
  by (simp add: mem_clock_def ledger_mem_def TV2LONG_def case_prod_beta)

lemma ledger_mem_page: "m_page_size ledger_mem = int 4096"
  by (simp add: ledger_mem_def)

lemma ledger_mem_map: "fst (m_mmap ledger_mem len True (-1) w) \<noteq> None"
  by (simp add: ledger_mem_def case_prod_beta)

lemma local_argv_parse: "mem_parse_args local_argv = Inr local_opts"
  by code_simp

lemma local_opts_simps:
  "1 \<le> mo_multi local_opts" "mo_affinities local_opts = None" "\<not> mo_rand local_opts"
  "mo_hugetlbfile local_opts = None" "mo_size local_opts = int (2 ^ 20)"
  by (simp_all add: local_opts_def mem_default_option_def)

lemma demo_inner_fits:
  "demo_inner = (if 2 ^ 20 < (1024 :: nat) then demo_inner64 else demo_inner)"
  "0 < il_region_size demo_inner" "il_region_size demo_inner dvd 4096"
  "il_region_size demo_inner dvd 2 ^ 20"
  by (simp_all add: demo_inner_def)

lemma demo_sizes:
  "(0 :: nat) < 2 ^ 20" "(0 :: nat) < 4096" "2 ^ 20 + 4096 < (2 :: nat) ^ 64" "8 dvd (2 :: nat) ^ 20"
  by simp_all

lemmas demo_conditions = local_argv_parse local_opts_simps(1-3) ledger_mem_map ledger_mem_clock local_opts_simps(4-5)
  demo_sizes(1) ledger_mem_page demo_sizes(2,3) demo_inner_fits demo_sizes(4)

theorem mem_main_counts_reads_witness:
  "\<exists>r pcs execds tv tv' w' w1. mem_mmap_size ledger_mem local_opts = Inr r \<and>
    length pcs = 2 \<and> length execds = 2 \<and>
    do_memory_stress_seq ledger_mem demo_inner demo_inner64 local_opts (unat r) (2 ^ 20)
       \<lparr>pc_ops = 0, pc_clk = 0, pc_wallclocktime = mte_wall (demo_envs 1)\<rparr> (mte_world (demo_envs 1)) =
       Some (Inr (pcs ! 1, execds ! 1, w1)) \<and>
    ms_ops (mem_aggregate local_opts pcs) = of_nat (sum_list execds) \<and>
    mem_main ledger_mem demo_inner demo_inner64 64 demo_envs True local_argv (0, {#}, {#}) =
      Some (Inr (mem_print_summary ledger_mem demo_inner local_opts (mem_aggregate local_opts pcs) tv tv', w'))"
proof -
  have two: "nat (mo_multi local_opts) = 2" by (simp add: local_opts_def)
  then have one: "1 < nat (mo_multi local_opts)" by simp
  show ?thesis
    using mem_main_counts_reads [OF demo_conditions, unfolded two,
        of demo_envs 64 "(0, {#}, {#})"] one [unfolded two]
    by blast
qed

theorem mem_main_releases_witness:
  "\<exists>out w'. mem_main ledger_mem demo_inner demo_inner64 64
       demo_envs True local_argv
       (0, {#}, {#}) = Some (Inr (out, w')) \<and> fst (snd w') = {#} \<and> snd (snd w') = {#}"
proof -
  obtain out w' where run: "mem_main ledger_mem demo_inner demo_inner64 64
       demo_envs True local_argv
       (0, {#}, {#}) = Some (Inr (out, w'))"
    using mem_main_seq [OF demo_conditions] by metis
  show ?thesis using mem_main_releases [OF run ledger_mem_ledger] run by auto
qed

end
