(* ===== verification/IoAsync.thy ===== *)
theory IoAsync
  imports IoSync
begin

section \<open>The asynchronous engine\<close>

text \<open>
  \<open>do_async_io\<close> of src/src/micbench-io.c: fill the manager with requests, submit them, wait for
  completions, until the timeout; then wait for the rest, take the counters over and release
  everything. The manager is the one of the theory of the AIO manager. The engine relies on
  the access pattern only through the laws of the locale \<open>io_source\<close>: a pattern that is set up
  well always gives a file of the list and stays set up well.
\<close>

record 'w eng_kernel = "'w aio_kernel" +
  e_uring_register_files :: "int list \<Rightarrow> 'w \<Rightarrow> int \<times> 'w"

record async_state =
  as_rand :: rand48
  as_grand :: rand48
  as_file_idx :: int
  as_offsets :: io_offsets
  as_aiom :: mb_aiom
  as_log :: io_log

subsection \<open>Filling the manager\<close>

text \<open>Only the random pattern is told apart: every other one walks sequentially.\<close>

definition async_pick ::
  "micbench_io_option \<Rightarrow> int \<Rightarrow> rand48 \<Rightarrow> io_offsets \<Rightarrow>
     (int \<times> int \<times> rand48 \<times> io_offsets) c_result" where
  "async_pick opt file_idx rand os =
     (if o_pattern opt = PATTERN_RAND then rand_advance opt rand os
      else bind_c (seq_advance opt file_idx os) (\<lambda>(fi, addr, os'). Inr (fi, addr, rand, os')))"

text \<open>\<open>mb_rand_buf\<close> on the buffer of a control block.\<close>

definition aiom_rand_buf :: "rand48 \<Rightarrow> addr \<Rightarrow> mb_aiom \<Rightarrow> (rand48 \<times> mb_aiom) c_result" where
  "aiom_rand_buf rand a am =
     bind_c (load_cb am a) (\<lambda>cb.
     bind_c (load_vec am (cb_vec cb)) (\<lambda>vec.
     case am_bufs am (iov_base vec) of
       None \<Rightarrow> Inl Undefined
     | Some buf \<Rightarrow>
         (let (ret, buf', rand') = mb_rand_buf rand buf
          in Inr (rand', am\<lparr>am_bufs := (am_bufs am)(iov_base vec \<mapsto> buf')\<rparr>))))"

definition async_issue ::
  "('w, 'k) aio_kernel_scheme \<Rightarrow> micbench_io_option \<Rightarrow> int list \<Rightarrow> async_state \<Rightarrow> 'w \<Rightarrow>
     (async_state \<times> 'w) c_result" where
  "async_issue K opt fd_list s w =
     bind_c (async_pick opt (as_file_idx s) (as_rand s) (as_offsets s)) (\<lambda>(file_idx, addr, rand, os).
     let (mode, grand) = mb_read_or_write opt (as_grand s)
     in bind_c (mb_res_pool_pop (am_cbpool (as_aiom s))) (\<lambda>(a, pool).
        if a = NULL then Inl Exit_Failure
        else let am = (as_aiom s)\<lparr>am_cbpool := pool\<rparr>
             in bind_c (file_slot fd_list file_idx) (\<lambda>fd.
                bind_c
                  (case mode of
                     MB_DO_READ \<Rightarrow>
                       bind_c (mb_aiom_prep_pread K opt am fd file_idx a addr w)
                         (\<lambda>(am', w'). Inr (rand, am', w'))
                   | MB_DO_WRITE \<Rightarrow>
                       bind_c (aiom_rand_buf rand a am) (\<lambda>(rand', am1).
                       bind_c (mb_aiom_prep_pwrite K opt am1 fd file_idx a addr w)
                         (\<lambda>(am', w'). Inr (rand', am', w'))))
                  (\<lambda>(rand', am', w').
                Inr (s\<lparr>as_rand := rand', as_grand := grand, as_file_idx := file_idx,
                       as_offsets := os, as_aiom := am'\<rparr>, w')))))"

partial_function (option) async_fill ::
  "('w, 'k) aio_kernel_scheme \<Rightarrow> micbench_io_option \<Rightarrow> int list \<Rightarrow> async_state \<Rightarrow> 'w \<Rightarrow>
     (async_state \<times> 'w) c_result option" where
  "async_fill K opt fd_list s w =
     (if mb_aiom_nr_submittable (as_aiom s) > 0
      then case async_issue K opt fd_list s w of
             Inl e \<Rightarrow> Some (Inl e)
           | Inr (s', w') \<Rightarrow> async_fill K opt fd_list s' w'
      else Some (Inr (s, w)))"

subsection \<open>The loop until the timeout\<close>

text \<open>The pauses after \<open>n\<close> completions.\<close>

primrec async_pauses ::
  "('w, 'k) kernel_scheme \<Rightarrow> micbench_io_option \<Rightarrow> nat \<Rightarrow> 'w \<Rightarrow> 'w" where
  "async_pauses K opt 0 w = w"
| "async_pauses K opt (Suc n) w =
     async_pauses K opt n (if 0 < o_iosleep opt then k_usleep K (o_iosleep opt) w else w)"

definition async_round ::
  "('w, 'k) aio_kernel_scheme \<Rightarrow> micbench_io_option \<Rightarrow> int list \<Rightarrow> async_state \<Rightarrow> 'w \<Rightarrow>
     (async_state \<times> 'w) c_result option" where
  "async_round K opt fd_list s w =
     bind_co (async_fill K opt fd_list s w) (\<lambda>(s1, w1).
     bind_co (Some (mb_aiom_submit K opt (as_aiom s1) w1)) (\<lambda>(am2, w2).
     bind_co (mb_aiom_wait K opt am2 (as_log s1) w2) (\<lambda>(n, am3, lg, w3).
     if n \<le> 0 then Some (Inl Exit_Failure)
     else Some (Inr (s1\<lparr>as_aiom := am3, as_log := lg\<rparr>, async_pauses K opt (nat n) w3)))))"

partial_function (option) async_loop ::
  "('w, 'k) aio_kernel_scheme \<Rightarrow> micbench_io_option \<Rightarrow> int list \<Rightarrow> timeval \<Rightarrow> async_state \<Rightarrow> 'w \<Rightarrow>
     (async_state \<times> 'w) c_result option" where
  "async_loop K opt fd_list start_tv s w =
     (let (elapsed, w1) = mb_elapsed_time_from K start_tv w
      in if d_less elapsed (d_of_int (o_timeout opt))
         then case async_round K opt fd_list s w1 of
                None \<Rightarrow> None
              | Some (Inl e) \<Rightarrow> Some (Inl e)
              | Some (Inr (s', w')) \<Rightarrow> async_loop K opt fd_list start_tv s' w'
         else Some (Inr (s, w1)))"

subsection \<open>do_async_io\<close>

definition uring_register_files ::
  "('w, 'k) eng_kernel_scheme \<Rightarrow> micbench_io_option \<Rightarrow> int list \<Rightarrow> 'w \<Rightarrow> 'w c_result" where
  "uring_register_files K opt fd_list w =
     (case o_aio_engine opt of
        AIO_LIBAIO \<Rightarrow> Inr w
      | AIO_IOURING \<Rightarrow>
          (let (ret, w') = e_uring_register_files K fd_list w
           in if ret \<noteq> 0 then Inl Exit_Failure else Inr w'))"

definition async_start ::
  "('w, 'k) eng_kernel_scheme \<Rightarrow> micbench_io_option \<Rightarrow> (nat \<Rightarrow> addr) \<Rightarrow> c_double \<Rightarrow> int \<Rightarrow> int \<Rightarrow> int \<Rightarrow>
     int list \<Rightarrow> rand48 \<Rightarrow> io_log \<Rightarrow> 'w \<Rightarrow> (async_state \<times> 'w) c_result" where
  "async_start K opt alloc garbage thread_id common_seed th_tid fd_list grand lg w =
     bind_c (mb_aiom_make K opt alloc garbage (o_aio_nr_events opt) w) (\<lambda>(am, w1).
     case am of
       None \<Rightarrow> Inl Exit_Failure
     | Some am \<Rightarrow>
         bind_c (uring_register_files K opt fd_list w1) (\<lambda>w2.
         bind_c (io_file_sizes opt) (\<lambda>sizes.
         bind_c (io_init_offsets False opt thread_id sizes) (\<lambda>os.
         if \<not> o_read opt \<and> \<not> o_write opt then Inl Exit_Failure
         else Inr (\<lparr>as_rand = srand48_r (common_seed XOR th_tid), as_grand = grand,
                    as_file_idx = 0, as_offsets = os, as_aiom = am, as_log = lg\<rparr>, w2)))))"

text \<open>
  The result is what the thread reports, what is left allocated of the manager, the log and
  the world.
\<close>

definition do_async_io ::
  "('w, 'k) eng_kernel_scheme \<Rightarrow> micbench_io_option \<Rightarrow> (nat \<Rightarrow> addr) \<Rightarrow> c_double \<Rightarrow> int \<Rightarrow> int \<Rightarrow> int \<Rightarrow>
     int list \<Rightarrow> rand48 \<Rightarrow> io_log \<Rightarrow> 'w \<Rightarrow>
     (meter \<times> ((addr \<rightharpoonup> aiom_cb) \<times> (addr \<rightharpoonup> 8 word list) \<times> cell_heap) \<times> io_log \<times> 'w) c_result option" where
  "do_async_io K opt alloc garbage thread_id common_seed th_tid fd_list grand lg w =
     bind_co (Some (async_start K opt alloc garbage thread_id common_seed th_tid fd_list grand lg w))
       (\<lambda>(s, w1).
     let (start_tv, w2) = k_gettimeofday K w1
     in bind_co (async_loop K opt fd_list start_tv s w2) (\<lambda>(s1, w3).
        bind_co (mb_aiom_waitall K opt (as_aiom s1) (as_log s1) w3) (\<lambda>(n, am, lg1, w4).
        bind_co (mb_aiom_destroy K opt am w4) (\<lambda>(cbs, bufs, cells, w5).
        Some (Inr (\<lparr>m_iowait_time = am_iowait am, m_count = am_iocount am\<rparr>,
                   (cbs, bufs, cells), lg1, w5))))))"

subsection \<open>The kernel of a run\<close>

text \<open>
  A disk that serves asynchronous requests (libaio): besides the laws of \<open>libaio_ok\<close>, every
  submission is accepted, requests in flight are completed when they are waited for, the clock
  never goes back and waiting takes time. \<open>subs w\<close> counts the requests accepted so far.
\<close>

definition async_disk ::
  "('w, 'k) aio_kernel_scheme \<Rightarrow> ('w \<Rightarrow> addr list) \<Rightarrow> ('w \<Rightarrow> int) \<Rightarrow> ('w \<Rightarrow> int) \<Rightarrow> bool" where
  "async_disk K infl subs now \<longleftrightarrow> libaio_ok K infl \<and>
     (\<forall>cbs w. fst (a_io_submit K cbs w) = int (length cbs) \<and>
        subs (snd (a_io_submit K cbs w)) = subs w + int (length cbs) \<and>
        now w \<le> now (snd (a_io_submit K cbs w))) \<and>
     (\<forall>mn nr w. 0 \<le> mn \<and> mn \<le> nr \<and> nr \<le> int (length (infl w)) \<longrightarrow>
        (\<exists>n evs w'. a_io_getevents K mn nr w = Some (n, evs, w') \<and> 0 \<le> n)) \<and>
     (\<forall>mn nr w n evs w'. a_io_getevents K mn nr w = Some (n, evs, w') \<longrightarrow>
        now w < now w' \<and> subs w' = subs w) \<and>
     (\<forall>w. TV2LONG (fst (k_gettimeofday K w)) = now w \<and>
        now w \<le> now (snd (k_gettimeofday K w)) \<and> subs (snd (k_gettimeofday K w)) = subs w) \<and>
     (\<forall>us w. now w \<le> now (k_usleep K us w) \<and> subs (k_usleep K us w) = subs w \<and>
        infl (k_usleep K us w) = infl w) \<and>
     (\<forall>n w. now w \<le> now (snd (a_io_setup K n w)) \<and> subs (snd (a_io_setup K n w)) = subs w) \<and>
     (\<forall>w. now w \<le> now (a_io_destroy K w) \<and> subs (a_io_destroy K w) = subs w)"

abbreviation calm :: "('w \<Rightarrow> int) \<Rightarrow> ('w \<Rightarrow> int) \<Rightarrow> 'w \<Rightarrow> 'w \<Rightarrow> bool" where
  "calm subs now w w' \<equiv> now w \<le> now w' \<and> subs w' = subs w"

lemma async_disk_time:
  assumes "async_disk K infl subs now" and "k_gettimeofday K w = (tv, w')"
  shows "TV2LONG tv = now w" "calm subs now w w'" "infl w' = infl w"
proof -
  have "TV2LONG (fst (k_gettimeofday K w)) = now w \<and> now w \<le> now (snd (k_gettimeofday K w)) \<and>
      subs (snd (k_gettimeofday K w)) = subs w"
    using assms(1) unfolding async_disk_def by blast
  then show "TV2LONG tv = now w" "calm subs now w w'" using assms(2) by simp_all
  have "infl (snd (k_gettimeofday K w)) = infl w"
    using assms(1) unfolding async_disk_def libaio_ok_def by blast
  then show "infl w' = infl w" using assms(2) by simp
qed

lemma elapsed_calm:
  assumes "async_disk K infl subs now" and "mb_elapsed_time_from K tv w = (el, w')"
  shows "calm subs now w w'"
  using assms async_disk_time(2) [OF assms(1), of w]
  by (auto simp: mb_elapsed_time_from_def Let_def split: prod.splits)

lemma prep_calm:
  assumes "async_disk K infl subs now" and "o_aio_engine opt = AIO_LIBAIO"
    and "mb_aiom_prep K opt mode am fd fi a ofs w = Inr (am', w')"
  shows "calm subs now w w'"
proof -
  have "w' = snd (k_gettimeofday K w)"
    using assms(2,3) by (auto simp: mb_aiom_prep_def Let_def bind_c_eq_Inr case_prod_beta split: if_splits)
  then show ?thesis using async_disk_time(2) [OF assms(1), of w] by (metis prod.collapse)
qed

lemma complete_calm:
  assumes "async_disk K infl subs now" and "aiom_complete K opt a am lg w = Inr (am', lg', w')"
  shows "calm subs now w w'"
proof -
  from assms(2) have
    "\<exists>tv. w' = snd (mb_elapsed_time_from K tv (snd (k_gettimeofday K w)))"
    by (auto simp: aiom_complete_def Let_def bind_c_eq_Inr case_prod_beta)
  then obtain tv where "w' = snd (mb_elapsed_time_from K tv (snd (k_gettimeofday K w)))" by blast
  then show ?thesis
    using elapsed_calm [OF assms(1), of tv "snd (k_gettimeofday K w)"]
      async_disk_time(2) [OF assms(1), of w] by (metis order_trans prod.collapse)
qed

lemma reap_calm:
  assumes "async_disk K infl subs now"
  shows "aiom_reap_events K opt k i am lg w = Inr (am', lg', w') \<Longrightarrow> calm subs now w w'"
proof (induction k arbitrary: i am lg w)
  case (Suc k)
  then obtain am1 lg1 w1 where
    "aiom_complete K opt (ev_obj (am_events am ! i)) am lg w = Inr (am1, lg1, w1)"
    "aiom_reap_events K opt k (Suc i) am1 lg1 w1 = Inr (am', lg', w')"
    by (auto simp: bind_c_eq_Inr split: if_splits)
  then show ?case using Suc.IH complete_calm [OF assms] by (metis order_trans)
qed simp

lemma pauses_calm:
  assumes "async_disk K infl subs now"
  shows "calm subs now w (async_pauses K opt n w) \<and> infl (async_pauses K opt n w) = infl w"
proof (induction n arbitrary: w)
  case (Suc n)
  let ?w = "if 0 < o_iosleep opt then k_usleep K (o_iosleep opt) w else w"
  have "calm subs now w ?w \<and> infl ?w = infl w"
    using assms unfolding async_disk_def by simp
  with Suc [of ?w] show ?case by (auto intro: order_trans)
qed simp

text \<open>Completing a request never ends the process.\<close>

lemma pool_push_undef: "mb_res_pool_push p x = Inl e \<Longrightarrow> e = Undefined"
  by (auto simp: mb_res_pool_push_def load_cell_def bind_c_def Let_def
      split: prod.splits if_splits sum.splits option.splits)

lemma complete_undef: "aiom_complete K opt a am lg w = Inl e \<Longrightarrow> e = Undefined"
  by (auto simp: aiom_complete_def load_cb_def io_file_path_def mb_log_io_activity_def
      sprintf_into_def bind_c_def Let_def dest: pool_push_undef
      split: prod.splits if_splits sum.splits option.splits)

lemma aiom_reap_undef: "aiom_reap_events K opt k i am lg w = Inl e \<Longrightarrow> e = Undefined"
proof (induction k arbitrary: i am lg w)
  case (Suc k)
  then show ?case
    by (cases "aiom_complete K opt (ev_obj (am_events am ! i)) am lg w")
      (auto dest: complete_undef split: if_splits)
qed simp

text \<open>Submitting and waiting on such a disk succeed.\<close>

lemma submit_serves:
  assumes "async_disk K infl subs now" and "o_aio_engine opt = AIO_LIBAIO"
    and "aiom_invar opt infl blocks am w"
  shows "\<exists>am' w'. mb_aiom_submit K opt am w = Inr (am', w') \<and> aiom_invar opt infl blocks am' w' \<and>
    am_nr_pending am' = 0 \<and> am_nr_inflight am' = am_nr_inflight am + am_nr_pending am \<and>
    am_iocount am' = am_iocount am \<and> am_cbpool am' = am_cbpool am \<and>
    now w \<le> now w' \<and> subs w' = subs w + am_nr_pending am"
proof -
  have lib: "libaio_ok K infl" using assms(1) by (simp add: async_disk_def)
  have pend: "0 \<le> am_nr_pending am" "am_nr_pending am \<le> int (length (am_pending am))"
    using assms(3) by (simp_all add: aiom_owns_def)
  have "\<exists>am' w'. mb_aiom_submit K opt am w = Inr (am', w') \<and> now w \<le> now w' \<and>
      subs w' = subs w + am_nr_pending am"
  proof (cases "am_nr_pending am = 0")
    case True
    then show ?thesis by (simp add: mb_aiom_submit_def)
  next
    case False
    obtain tv w1 where tv: "k_gettimeofday K w = (tv, w1)" by fastforce
    define n where "n = nat (am_nr_pending am)"
    have n: "am_nr_pending am = int n" using pend by (simp add: n_def)
    have "\<exists>cbs. aiom_stamp_loop tv n 0 am = Inr (am\<lparr>am_cbs := cbs\<rparr>)"
    proof -
      have "am_pending am ! j \<in> set (take n (am_pending am))" if "j < n" for j
        using that pend by (auto simp: n_def in_set_conv_nth)
      then have "\<forall>j. 0 \<le> j \<longrightarrow> j < 0 + n \<longrightarrow> am_pending am ! j \<in> set blocks"
        using aiom_owns_mem [OF assms(3)] by (simp add: n_def)
      moreover have "n \<le> length (am_pending am)" using pend by (simp add: n_def)
      ultimately show ?thesis
        using aiom_stamp_loop_ok [of opt blocks am 0 n tv] assms(3)
        by (auto simp: aiom_owns_def)
    qed
    then obtain cbs where stamp: "aiom_stamp_loop tv n 0 am = Inr (am\<lparr>am_cbs := cbs\<rparr>)" by blast
    let ?list = "map (cb_iocb_at (am\<lparr>am_cbs := cbs\<rparr>)) (take n (am_pending am))"
    have len: "length ?list = n" using pend by (simp add: n_def)
    obtain ret w2 where sub: "a_io_submit K ?list w1 = (ret, w2)" by fastforce
    have "fst (a_io_submit K ?list w1) = int (length ?list) \<and>
        subs (snd (a_io_submit K ?list w1)) = subs w1 + int (length ?list) \<and>
        now w1 \<le> now (snd (a_io_submit K ?list w1))"
      using assms(1) unfolding async_disk_def by blast
    then have "ret = int n" "subs w2 = subs w1 + int n" "now w1 \<le> now w2"
      using sub len by simp_all
    moreover have "calm subs now w w1" using async_disk_time(2) [OF assms(1) tv] .
    ultimately show ?thesis
      using False stamp n assms(2) sub by (simp add: mb_aiom_submit_def tv Let_def)
  qed
  then show ?thesis using aiom_submit_owns [OF assms(3) lib assms(2)] by auto
qed

lemma wait_serves:
  assumes "async_disk K infl subs now" and "o_aio_engine opt = AIO_LIBAIO" and "\<not> o_logfile opt"
    and "aiom_invar opt infl blocks am w" and "0 \<le> mn" and "mn \<le> am_nr_inflight am"
  shows "\<exists>n am' lg' w'. aiom_wait_min K opt mn (am_nr_inflight am) am lg w = Some (Inr (n, am', lg', w')) \<and>
    aiom_invar opt infl blocks am' w' \<and> mn \<le> n \<and> n \<le> am_nr_inflight am \<and>
    am_nr_pending am' = am_nr_pending am \<and> am_nr_inflight am' = am_nr_inflight am - n \<and>
    am_iocount am' = am_iocount am + n \<and>
    mb_aiom_nr_submittable am' = mb_aiom_nr_submittable am + n \<and>
    now w < now w' \<and> subs w' = subs w"
proof -
  have lib: "libaio_ok K infl" using assms(1) by (simp add: async_disk_def)
  have "am_nr_inflight am = int (length (infl w))" using assms(4) by (simp add: aiom_owns_def)
  moreover have "\<forall>mn nr w. 0 \<le> mn \<and> mn \<le> nr \<and> nr \<le> int (length (infl w)) \<longrightarrow>
        (\<exists>n evs w'. a_io_getevents K mn nr w = Some (n, evs, w') \<and> 0 \<le> n)"
    using assms(1) by (simp add: async_disk_def)
  ultimately obtain n evs w1 where ev: "a_io_getevents K mn (am_nr_inflight am) w = Some (n, evs, w1)"
    "0 \<le> n" using assms(5,6) by (metis order_refl)
  have t: "now w < now w1 \<and> subs w1 = subs w"
    using assms(1) ev(1) unfolding async_disk_def by blast
  note wait = aiom_wait_owns [OF assms(4) lib assms(2), of mn lg]
  obtain r where r: "aiom_wait_min K opt mn (am_nr_inflight am) am lg w = Some r"
    using wait ev(1) by (cases "aiom_wait_min K opt mn (am_nr_inflight am) am lg w") simp_all
  show ?thesis
  proof (cases r)
    case (Inl e)
    then have e: "e = Exit_Failure" using wait r assms(3) by simp
    show ?thesis
      using r Inl e ev assms(2)
      by (auto simp: aiom_wait_min_def Let_def bind_c_def dest: aiom_reap_undef
          split: if_splits sum.splits)
  next
    case (Inr q)
    obtain n' am' lg' w' where q: "q = (n', am', lg', w')" by (cases q)
    obtain i am1 lg1 where "aiom_reap_events K opt (nat n) i am1 lg1 w1 = Inr (am', lg', w')"
      using r Inr q ev assms(2)
      by (auto simp: aiom_wait_min_def Let_def bind_c_eq_Inr split: if_splits)
    from reap_calm [OF assms(1) this] t have "now w < now w' \<and> subs w' = subs w" by auto
    then show ?thesis using wait r Inr q by auto
  qed
qed

text \<open>The random contents of a write go into the buffer of the held control block.\<close>

lemma cbs_ok_buf:
  assumes "cbs_ok opt blocks am"
  shows "cbs_ok opt blocks (am\<lparr>am_bufs := (am_bufs am)(b \<mapsto> x)\<rparr>)"
proof -
  have "cb_base (am\<lparr>am_bufs := (am_bufs am)(b \<mapsto> x)\<rparr>) = cb_base am"
    by (rule ext) (simp add: cb_base_def split: option.split)
  then show ?thesis using assms by (auto simp: cbs_ok_def)
qed

lemma rand_buf_owns:
  assumes "aiom_owns opt infl blocks [a] am w"
  shows "\<exists>rand' bufs. aiom_rand_buf rand a am = Inr (rand', am\<lparr>am_bufs := bufs\<rparr>) \<and>
    aiom_owns opt infl blocks [a] (am\<lparr>am_bufs := bufs\<rparr>) w"
proof -
  have mem: "a \<in> set blocks" using aiom_owns_mem [OF assms] by simp
  obtain cb where cb: "load_cb am a = Inr cb" "am_cbs am a = Some cb" "cb_vec cb < length (am_vecs am)"
    using aiom_load_cb [OF assms mem] by blast
  let ?base = "iov_base (am_vecs am ! cb_vec cb)"
  have ok: "cbs_ok opt blocks am" using assms by (simp add: aiom_owns_def)
  then obtain buf where buf: "am_bufs am ?base = Some buf"
    using mem cb(2) by (auto simp: cbs_ok_def cb_base_def)
  obtain ret buf' rand' where fill: "mb_rand_buf rand buf = (ret, buf', rand')" by (metis prod_cases3)
  let ?bufs = "(am_bufs am)(?base \<mapsto> buf')"
  have "aiom_rand_buf rand a am = Inr (rand', am\<lparr>am_bufs := ?bufs\<rparr>)"
    using cb buf fill by (simp add: aiom_rand_buf_def load_vec_def)
  moreover have "aiom_owns opt infl blocks [a] (am\<lparr>am_bufs := ?bufs\<rparr>) w"
    using assms cbs_ok_buf [OF ok] by (simp add: aiom_owns_def)
  ultimately show ?thesis by blast
qed

subsection \<open>The engine over any well-behaved pattern\<close>

definition async_job ::
  "('w, 'k) aio_kernel_scheme \<Rightarrow> micbench_io_option \<Rightarrow> nat \<Rightarrow> int list \<Rightarrow> ('w \<Rightarrow> addr list) \<Rightarrow>
     ('w \<Rightarrow> int) \<Rightarrow> ('w \<Rightarrow> int) \<Rightarrow> bool" where
  "async_job K opt n fds infl subs now \<longleftrightarrow>
     async_disk K infl subs now \<and> o_aio_engine opt = AIO_LIBAIO \<and> \<not> o_logfile opt \<and>
     in_int (o_timeout opt) \<and> length fds = n \<and>
     (\<exists>paths. o_file_path_list opt = Some paths \<and> length paths = n)"

lemma async_jobD:
  assumes "async_job K opt n fds infl subs now"
  shows "async_disk K infl subs now" "libaio_ok K infl" "o_aio_engine opt = AIO_LIBAIO"
    "\<not> o_logfile opt" "in_int (o_timeout opt)" "length fds = n" "i < n \<Longrightarrow> file_idx_ok opt (int i)"
  using assms by (auto simp: async_job_def async_disk_def file_idx_ok_def)

locale io_source =
  fixes good :: "micbench_io_option \<Rightarrow> nat \<Rightarrow> int \<Rightarrow> io_offsets \<Rightarrow> bool"
  assumes pick: "good opt n fi os \<Longrightarrow>
    \<exists>i addr rand' os'. i < n \<and> async_pick opt fi rand os = Inr (int i, addr, rand', os') \<and>
      good opt n (int i) os'"
begin

lemma issue:
  assumes "async_job K opt n fds infl subs now" and "aiom_invar opt infl blocks (as_aiom s) w"
    and "good opt n (as_file_idx s) (as_offsets s)" and "mb_aiom_nr_submittable (as_aiom s) > 0"
  shows "\<exists>s' w'. async_issue K opt fds s w = Inr (s', w') \<and>
    aiom_invar opt infl blocks (as_aiom s') w' \<and> good opt n (as_file_idx s') (as_offsets s') \<and>
    mb_aiom_nr_submittable (as_aiom s') = mb_aiom_nr_submittable (as_aiom s) - 1 \<and>
    am_nr_inflight (as_aiom s') = am_nr_inflight (as_aiom s) \<and>
    am_iocount (as_aiom s') = am_iocount (as_aiom s) \<and> calm subs now w w'"
proof -
  note job = async_jobD [OF assms(1)]
  obtain i addr rand os where p: "i < n"
    "async_pick opt (as_file_idx s) (as_rand s) (as_offsets s) = Inr (int i, addr, rand, os)"
    "good opt n (int i) os" using pick [OF assms(3)] by blast
  obtain mode grand where m: "mb_read_or_write opt (as_grand s) = (mode, grand)" by fastforce
  obtain a pool where pop: "mb_res_pool_pop (am_cbpool (as_aiom s)) = Inr (a, pool)" "a \<noteq> NULL"
    "mb_aiom_nr_submittable ((as_aiom s)\<lparr>am_cbpool := pool\<rparr>) = mb_aiom_nr_submittable (as_aiom s) - 1"
    "aiom_owns opt infl blocks [a] ((as_aiom s)\<lparr>am_cbpool := pool\<rparr>) w"
    using aiom_pop_owns [OF assms(2,4)] by blast
  let ?am = "(as_aiom s)\<lparr>am_cbpool := pool\<rparr>"
  have fd: "file_slot fds (int i) = Inr (fds ! i)" using p(1) job(6) by simp
  have "\<exists>rand' am' w'. (case mode of
        MB_DO_READ \<Rightarrow> bind_c (mb_aiom_prep_pread K opt ?am (fds ! i) (int i) a addr w)
          (\<lambda>(am', w'). Inr (rand, am', w'))
      | MB_DO_WRITE \<Rightarrow> bind_c (aiom_rand_buf rand a ?am) (\<lambda>(rand', am1).
          bind_c (mb_aiom_prep_pwrite K opt am1 (fds ! i) (int i) a addr w)
            (\<lambda>(am', w'). Inr (rand', am', w')))) = Inr (rand', am', w') \<and>
      aiom_invar opt infl blocks am' w' \<and> am_cbpool am' = pool \<and>
      am_nr_inflight am' = am_nr_inflight (as_aiom s) \<and> am_iocount am' = am_iocount (as_aiom s) \<and>
      calm subs now w w'"
  proof (cases mode)
    case MB_DO_READ
    from aiom_prep_owns [OF pop(4) job(2,3) job(7) [OF p(1)], of MB_DO_READ "fds ! i" addr]
    show ?thesis using MB_DO_READ prep_calm [OF job(1,3)]
      by (fastforce simp: mb_aiom_prep_pread_def)
  next
    case MB_DO_WRITE
    obtain rand' bufs where buf: "aiom_rand_buf rand a ?am = Inr (rand', ?am\<lparr>am_bufs := bufs\<rparr>)"
      "aiom_owns opt infl blocks [a] (?am\<lparr>am_bufs := bufs\<rparr>) w"
      using rand_buf_owns [OF pop(4)] by blast
    from aiom_prep_owns [OF buf(2) job(2,3) job(7) [OF p(1)], of MB_DO_WRITE "fds ! i" addr]
    show ?thesis using MB_DO_WRITE buf(1) prep_calm [OF job(1,3)]
      by (fastforce simp: mb_aiom_prep_pwrite_def)
  qed
  then obtain rand' am' w' where r: "(case mode of
        MB_DO_READ \<Rightarrow> bind_c (mb_aiom_prep_pread K opt ?am (fds ! i) (int i) a addr w)
          (\<lambda>(am', w'). Inr (rand, am', w'))
      | MB_DO_WRITE \<Rightarrow> bind_c (aiom_rand_buf rand a ?am) (\<lambda>(rand', am1).
          bind_c (mb_aiom_prep_pwrite K opt am1 (fds ! i) (int i) a addr w)
            (\<lambda>(am', w'). Inr (rand', am', w')))) = Inr (rand', am', w')"
    "aiom_invar opt infl blocks am' w'" "am_cbpool am' = pool"
    "am_nr_inflight am' = am_nr_inflight (as_aiom s)" "am_iocount am' = am_iocount (as_aiom s)"
    "calm subs now w w'" by blast
  let ?s = "s\<lparr>as_rand := rand', as_grand := grand, as_file_idx := int i, as_offsets := os, as_aiom := am'\<rparr>"
  have "async_issue K opt fds s w = Inr (?s, w')"
    using pop(2) by (simp add: async_issue_def p(2) m pop(1) fd r(1))
  moreover have "mb_aiom_nr_submittable am' = mb_aiom_nr_submittable (as_aiom s) - 1"
    using pop(3) r(3) by (simp add: mb_aiom_nr_submittable_def)
  ultimately show ?thesis using r p(3) by (intro exI [of _ ?s] exI [of _ w']) simp
qed

lemma fill:
  assumes "async_job K opt n fds infl subs now"
  shows "aiom_invar opt infl blocks (as_aiom s) w \<Longrightarrow> good opt n (as_file_idx s) (as_offsets s) \<Longrightarrow>
    \<exists>s' w'. async_fill K opt fds s w = Some (Inr (s', w')) \<and>
      aiom_invar opt infl blocks (as_aiom s') w' \<and> good opt n (as_file_idx s') (as_offsets s') \<and>
      mb_aiom_nr_submittable (as_aiom s') = 0 \<and>
      am_nr_inflight (as_aiom s') = am_nr_inflight (as_aiom s) \<and>
      am_iocount (as_aiom s') = am_iocount (as_aiom s) \<and> calm subs now w w'"
proof (induction "nat (mb_aiom_nr_submittable (as_aiom s))" arbitrary: s w)
  case 0
  then have "mb_aiom_nr_submittable (as_aiom s) = 0" using aiom_submittable [OF 0(2)] by simp
  then show ?case using 0 by (subst async_fill.simps) auto
next
  case (Suc k)
  then have pos: "mb_aiom_nr_submittable (as_aiom s) > 0" by simp
  obtain s1 w1 where s1: "async_issue K opt fds s w = Inr (s1, w1)"
    "aiom_invar opt infl blocks (as_aiom s1) w1" "good opt n (as_file_idx s1) (as_offsets s1)"
    "mb_aiom_nr_submittable (as_aiom s1) = mb_aiom_nr_submittable (as_aiom s) - 1"
    "am_nr_inflight (as_aiom s1) = am_nr_inflight (as_aiom s)"
    "am_iocount (as_aiom s1) = am_iocount (as_aiom s)" "calm subs now w w1"
    using issue [OF assms Suc.prems pos] by blast
  have step: "async_fill K opt fds s w = async_fill K opt fds s1 w1"
    using s1(1) pos by (subst async_fill.simps) simp
  have "k = nat (mb_aiom_nr_submittable (as_aiom s1))" using Suc.hyps(2) s1(4) by simp
  from Suc.hyps(1) [OF this s1(2,3)] show ?case unfolding step using s1(5-7) by fastforce
qed

text \<open>One round, from a state with nothing pending: some requests have been completed.\<close>

lemma round:
  assumes "async_job K opt n fds infl subs now" and "aiom_invar opt infl blocks (as_aiom s) w"
    and "good opt n (as_file_idx s) (as_offsets s)" and "blocks \<noteq> []"
  shows "\<exists>s' w'. async_round K opt fds s w = Some (Inr (s', w')) \<and>
    aiom_invar opt infl blocks (as_aiom s') w' \<and> good opt n (as_file_idx s') (as_offsets s') \<and>
    am_nr_pending (as_aiom s') = 0 \<and> now w < now w' \<and>
    am_iocount (as_aiom s') + am_nr_inflight (as_aiom s') - subs w' =
      am_iocount (as_aiom s) + am_nr_inflight (as_aiom s) - subs w"
proof -
  note job = async_jobD [OF assms(1)]
  obtain s1 w1 where f: "async_fill K opt fds s w = Some (Inr (s1, w1))"
    "aiom_invar opt infl blocks (as_aiom s1) w1" "good opt n (as_file_idx s1) (as_offsets s1)"
    "mb_aiom_nr_submittable (as_aiom s1) = 0"
    "am_nr_inflight (as_aiom s1) = am_nr_inflight (as_aiom s)"
    "am_iocount (as_aiom s1) = am_iocount (as_aiom s)" "calm subs now w w1"
    using fill [OF assms(1-3)] by blast
  obtain am2 w2 where s: "mb_aiom_submit K opt (as_aiom s1) w1 = Inr (am2, w2)"
    "aiom_invar opt infl blocks am2 w2" "am_nr_pending am2 = 0"
    "am_nr_inflight am2 = am_nr_inflight (as_aiom s1) + am_nr_pending (as_aiom s1)"
    "am_iocount am2 = am_iocount (as_aiom s1)" "now w1 \<le> now w2"
    "subs w2 = subs w1 + am_nr_pending (as_aiom s1)"
    using submit_serves [OF job(1,3) f(2)] by blast
  have "am_nr_pending (as_aiom s1) + am_nr_inflight (as_aiom s1) = int (length blocks)"
    using aiom_owns_count [OF f(2)] aiom_submittable [OF f(2)] f(4) by simp
  then have "1 \<le> am_nr_inflight am2" using assms(4) s(4) by (cases blocks) simp_all
  then obtain k am3 lg w3 where wt: "mb_aiom_wait K opt am2 (as_log s1) w2 = Some (Inr (k, am3, lg, w3))"
    "aiom_invar opt infl blocks am3 w3" "1 \<le> k" "am_nr_pending am3 = am_nr_pending am2"
    "am_nr_inflight am3 = am_nr_inflight am2 - k" "am_iocount am3 = am_iocount am2 + k"
    "now w2 < now w3" "subs w3 = subs w2"
    using wait_serves [OF job(1,3,4) s(2), of 1 "as_log s1"] unfolding mb_aiom_wait_def by auto
  let ?w = "async_pauses K opt (nat k) w3"
  have w: "calm subs now w3 ?w" "infl ?w = infl w3" using pauses_calm [OF job(1)] by simp_all
  have inv: "aiom_invar opt infl blocks am3 ?w" using wt(2) w(2) by (simp add: aiom_owns_def)
  have "async_round K opt fds s w = Some (Inr (s1\<lparr>as_aiom := am3, as_log := lg\<rparr>, ?w))"
    using f(1) s(1) wt(1,3) by (simp add: async_round_def)
  then show ?thesis
    using f s wt w inv by (intro exI [of _ "s1\<lparr>as_aiom := am3, as_log := lg\<rparr>"] exI [of _ ?w]) auto
qed

lemma loop:
  assumes "async_job K opt n fds infl subs now" and "blocks \<noteq> []"
  shows "aiom_invar opt infl blocks (as_aiom s) w \<Longrightarrow> good opt n (as_file_idx s) (as_offsets s) \<Longrightarrow>
    am_nr_pending (as_aiom s) = 0 \<Longrightarrow>
    \<exists>s' w'. async_loop K opt fds start_tv s w = Some (Inr (s', w')) \<and>
      aiom_invar opt infl blocks (as_aiom s') w' \<and> am_nr_pending (as_aiom s') = 0 \<and>
      TV2LONG start_tv + o_timeout opt * 1000000 \<le> now w' \<and>
      am_iocount (as_aiom s') + am_nr_inflight (as_aiom s') - subs w' =
        am_iocount (as_aiom s) + am_nr_inflight (as_aiom s) - subs w"
proof (induction "nat (TV2LONG start_tv + o_timeout opt * 1000000 - now w)" arbitrary: s w
    rule: less_induct)
  case less
  let ?lim = "TV2LONG start_tv + o_timeout opt * 1000000"
  note job = async_jobD [OF assms(1)]
  obtain tv w1 where tv: "k_gettimeofday K w = (tv, w1)" by fastforce
  note t = async_disk_time [OF job(1) tv]
  have inv1: "aiom_invar opt infl blocks (as_aiom s) w1"
    using less.prems(1) t(3) by (simp add: aiom_owns_def)
  have test: "d_less (d_div (d_of_int (now w - TV2LONG start_tv)) (Fin 1000000))
      (d_of_int (o_timeout opt)) \<longleftrightarrow> now w < ?lim"
    using elapsed_less [OF job(5), of "now w - TV2LONG start_tv"] by linarith
  show ?case
  proof (cases "now w < ?lim")
    case False
    have "async_loop K opt fds start_tv s w = Some (Inr (s, w1))"
      using test False by (subst async_loop.simps) (simp add: mb_elapsed_time_from_def tv t(1))
    then show ?thesis
      using inv1 less.prems False t(2) by (intro exI [of _ s] exI [of _ w1]) simp
  next
    case True
    obtain s2 w2 where r: "async_round K opt fds s w1 = Some (Inr (s2, w2))"
      "aiom_invar opt infl blocks (as_aiom s2) w2" "good opt n (as_file_idx s2) (as_offsets s2)"
      "am_nr_pending (as_aiom s2) = 0" "now w1 < now w2"
      "am_iocount (as_aiom s2) + am_nr_inflight (as_aiom s2) - subs w2 =
        am_iocount (as_aiom s) + am_nr_inflight (as_aiom s) - subs w1"
      using round [OF assms(1) inv1 less.prems(2) assms(2)] by blast
    have lt: "nat (?lim - now w2) < nat (?lim - now w)" using True r(5) t(2) by linarith
    have "async_loop K opt fds start_tv s w = async_loop K opt fds start_tv s2 w2"
      using test True r(1) by (subst async_loop.simps) (simp add: mb_elapsed_time_from_def tv t(1))
    then show ?thesis using less.hyps [OF lt r(2-4)] r(6) t(2) by auto
  qed
qed

text \<open>The whole run, from a started thread to the released manager.\<close>

lemma run:
  assumes "async_job K opt n fds infl subs now" and "blocks \<noteq> []"
    and "async_start K opt alloc garbage thread_id common_seed th_tid fds grand lg w = Inr (s, w1)"
    and "aiom_invar opt infl blocks (as_aiom s) w1" and "good opt n (as_file_idx s) (as_offsets s)"
    and "am_nr_pending (as_aiom s) = 0" and "am_iocount (as_aiom s) = 0" and "infl w1 = []"
  shows "\<exists>m cbs bufs cells lg' w'.
    do_async_io K opt alloc garbage thread_id common_seed th_tid fds grand lg w =
      Some (Inr (m, (cbs, bufs, cells), lg', w')) \<and>
    m_count m = subs w' - subs w1 \<and> (\<forall>a \<in> set blocks. cbs a = None) \<and>
    now w1 + o_timeout opt * 1000000 \<le> now w'"
proof -
  note job = async_jobD [OF assms(1)]
  obtain tv w2 where tv: "k_gettimeofday K w1 = (tv, w2)" by fastforce
  note t = async_disk_time [OF job(1) tv]
  have inv2: "aiom_invar opt infl blocks (as_aiom s) w2"
    using assms(4) t(3) by (simp add: aiom_owns_def)
  have idle: "am_nr_inflight (as_aiom s) = 0" using assms(4,8) by (simp add: aiom_owns_def)
  obtain s3 w3 where l: "async_loop K opt fds tv s w2 = Some (Inr (s3, w3))"
    "aiom_invar opt infl blocks (as_aiom s3) w3" "am_nr_pending (as_aiom s3) = 0"
    "TV2LONG tv + o_timeout opt * 1000000 \<le> now w3"
    "am_iocount (as_aiom s3) + am_nr_inflight (as_aiom s3) - subs w3 = - subs w1"
    using loop [OF assms(1,2) inv2 assms(5,6), of tv] assms(7) idle t(2) by auto
  have nn: "0 \<le> am_nr_inflight (as_aiom s3)" using l(2) by (simp add: aiom_owns_def)
  obtain k am lg' w4 where wt: "mb_aiom_waitall K opt (as_aiom s3) (as_log s3) w3 =
      Some (Inr (k, am, lg', w4))" "aiom_invar opt infl blocks am w4"
    "k = am_nr_inflight (as_aiom s3)" "am_nr_pending am = 0" "am_nr_inflight am = 0"
    "am_iocount am = am_iocount (as_aiom s3) + k" "now w3 < now w4" "subs w4 = subs w3"
    using wait_serves [OF job(1,3,4) l(2) nn order_refl, of "as_log s3"] l(3)
    unfolding mb_aiom_waitall_def by auto
  have "infl w4 = []" using wt(2,5) by (simp add: aiom_owns_def)
  then obtain cbs bufs cells w5 where d: "mb_aiom_destroy K opt am w4 = Some (Inr (cbs, bufs, cells, w5))"
    "cbs = am_cbs am |` (- set blocks)"
    using aiom_destroy_idle [OF wt(2,4), of K] by blast
  have "w5 = a_io_destroy K w4"
    using d(1) job(3) by (auto simp: mb_aiom_destroy_def Let_def split: option.splits sum.splits)
  moreover have "now w4 \<le> now (a_io_destroy K w4) \<and> subs (a_io_destroy K w4) = subs w4"
    using job(1) unfolding async_disk_def by blast
  ultimately have w5: "now w4 \<le> now w5" "subs w5 = subs w4" by simp_all
  have "do_async_io K opt alloc garbage thread_id common_seed th_tid fds grand lg w =
      Some (Inr (\<lparr>m_iowait_time = am_iowait am, m_count = am_iocount am\<rparr>, (cbs, bufs, cells), lg', w5))"
    using assms(3) tv l(1) wt(1) d(1) by (simp add: do_async_io_def)
  then show ?thesis using wt w5 l(4,5) t(1) d(2) by auto
qed

end

subsection \<open>The patterns are such sources\<close>

definition seq_good :: "micbench_io_option \<Rightarrow> nat \<Rightarrow> int \<Rightarrow> io_offsets \<Rightarrow> bool" where
  "seq_good opt n fi os \<longleftrightarrow> o_pattern opt \<noteq> PATTERN_RAND \<and>
     (\<exists>os0 t. seq_room opt n os0 \<and> fi = int (t mod n) \<and> os = seq_offsets n os0 t)"

definition rand_good :: "micbench_io_option \<Rightarrow> nat \<Rightarrow> int \<Rightarrow> io_offsets \<Rightarrow> bool" where
  "rand_good opt n fi os \<longleftrightarrow> o_pattern opt = PATTERN_RAND \<and> o_nr_files opt = int n \<and> 0 < n \<and>
     n < 2 ^ 31 \<and> offsets_ok n os \<and>
     (\<forall>i < n. 0 \<le> ofst_min_list os ! i \<and> ofst_min_list os ! i \<le> ofst_max_list os ! i \<and>
        ofst_max_list os ! i \<le> 2 ^ 53 \<and> addr_room opt (ofst_max_list os ! i))"

interpretation seq_source: io_source seq_good
proof
  fix opt n fi os rand assume "seq_good opt n fi os"
  then obtain os0 t where g: "o_pattern opt \<noteq> PATTERN_RAND" "seq_room opt n os0"
    "fi = int (t mod n)" "os = seq_offsets n os0 t" by (auto simp: seq_good_def)
  have "Suc t mod n < n" using g(2) by (simp add: seq_room_def)
  moreover have "seq_good opt n (int (Suc t mod n)) (seq_offsets n os0 (Suc t))"
    using g(1,2) by (auto simp: seq_good_def)
  ultimately show "\<exists>i addr rand' os'. i < n \<and>
      async_pick opt fi rand os = Inr (int i, addr, rand', os') \<and> seq_good opt n (int i) os'"
    using seq_advance_spec [OF g(2), of t] g(1,3,4) by (auto simp: async_pick_def simp del: of_nat_mod)
qed

interpretation rand_source: io_source rand_good
proof
  fix opt n fi os rand assume g: "rand_good opt n fi os"
  then have h: "o_nr_files opt = int n" "0 < n" "n < 2 ^ 31" "offsets_ok n os"
    "\<forall>i < n. 0 \<le> ofst_min_list os ! i \<and> ofst_min_list os ! i \<le> ofst_max_list os ! i \<and>
        ofst_max_list os ! i \<le> 2 ^ 53 \<and> addr_room opt (ofst_max_list os ! i)"
    "o_pattern opt = PATTERN_RAND"
    unfolding rand_good_def by blast+
  obtain i v rand' where "i < n" "rand_advance opt rand os =
      Inr (int i, v * o_blk_sz opt + o_misalign opt, rand', os\<lparr>ofst_list := (ofst_list os)[i := v]\<rparr>)"
    using rand_advance_bounds [OF h(1-5), of rand] by blast
  then show "\<exists>i addr rand' os'. i < n \<and>
      async_pick opt fi rand os = Inr (int i, addr, rand', os') \<and> rand_good opt n (int i) os'"
    using h by (auto simp: async_pick_def rand_good_def offsets_ok_def)
qed

lemma io_init_offsets_rand:
  assumes "o_pattern opt = PATTERN_RAND" and "0 < o_blk_sz opt"
    and "\<forall>size \<in> set sizes. io_share_room opt size"
  shows "io_init_offsets False opt thread_id sizes =
    Inr \<lparr>ofst_list = map (\<lambda>size. io_ofst_min opt) sizes,
         ofst_min_list = map (\<lambda>size. io_ofst_min opt) sizes,
         ofst_max_list = map (io_blocks opt) sizes,
         seekdist_side_list = map (\<lambda>size. 0) sizes\<rparr>"
  using assms(3)
proof (induction sizes)
  case (Cons fsz sizes)
  then have "io_ofst_max opt fsz = Inr (io_blocks opt fsz)"
    using io_ofst_max_blocks [OF assms(2)] by (simp add: io_share_room_def)
  with Cons show ?case using assms(1) by (simp add: Let_def io_first_ofst_def)
qed simp

text \<open>A thread starts from a fresh manager and its offsets.\<close>

lemma async_start_ok:
  assumes "0 < o_aio_nr_events opt" and "fresh_blocks alloc (5 + 3 * nat (o_aio_nr_events opt))"
    and "libaio_ok K infl" and "infl w = []" and "o_aio_engine opt = AIO_LIBAIO"
    and "file_idx_ok opt 0" and "a_io_setup K (o_aio_nr_events opt) w = (0, w1)"
    and "io_file_sizes opt = Inr sizes" and "io_init_offsets False opt thread_id sizes = Inr os"
    and "o_read opt \<or> o_write opt"
  shows "\<exists>s. async_start K opt alloc garbage thread_id common_seed th_tid fds grand lg w = Inr (s, w1) \<and>
    aiom_invar opt infl (aiom_blocks alloc (nat (o_aio_nr_events opt))) (as_aiom s) w1 \<and>
    as_file_idx s = 0 \<and> as_offsets s = os \<and> am_nr_pending (as_aiom s) = 0 \<and>
    am_iocount (as_aiom s) = 0 \<and> infl w1 = []"
proof -
  let ?blocks = "aiom_blocks alloc (nat (o_aio_nr_events opt))"
  obtain am where am: "mb_aiom_make K opt alloc garbage (o_aio_nr_events opt) w = Inr (Some am, w1)"
    "aiom_invar opt infl ?blocks am w1" "infl w1 = []" "am_iocount am = 0"
    "pool_contents (am_cbpool am) = ?blocks"
    using aiom_make_owns [OF assms(1-7)] by blast
  have "am_nr_pending am = 0" using aiom_owns_count [OF am(2)] am(2,3,5) by (simp add: aiom_owns_def)
  then show ?thesis
    using am assms(5,8-10) by (auto simp: async_start_def uring_register_files_def)
qed

lemma async_start_good:
  assumes "io_ready env opt" and "o_file_size_list opt = Some sizes" and "length sizes < 2 ^ 31"
    and "o_pattern opt = PATTERN_SEQ \<or> o_pattern opt = PATTERN_RAND"
    and "0 \<le> thread_id" and "thread_id < o_multi opt" and "0 < o_blk_sz opt" and "o_misalign opt = 0"
    and "\<forall>size \<in> set sizes. io_share_room opt size \<and> io_blocks opt size \<le> 2 ^ 53"
  shows "\<exists>os. io_init_offsets False opt thread_id sizes = Inr os \<and>
    (seq_good opt (length sizes) 0 os \<or> rand_good opt (length sizes) 0 os)"
proof -
  have room: "\<forall>size \<in> set sizes. io_share_room opt size" using assms(9) by simp
  from assms(4) show ?thesis
  proof
    assume pat: "o_pattern opt = PATTERN_SEQ"
    obtain os where os: "io_init_offsets False opt thread_id sizes = Inr os"
      "seq_room opt (length sizes) os"
      using seq_ready_inside [OF assms(1-3) pat assms(5-8) room, of False] by blast
    have "seq_offsets (length sizes) os 0 = os" using seq_run_spec [OF os(2), of 0] by simp
    then have "seq_good opt (length sizes) 0 os"
      using os(2) pat unfolding seq_good_def by (intro conjI exI [of _ os] exI [of _ 0]) simp_all
    then show ?thesis using os(1) by blast
  next
    assume pat: "o_pattern opt = PATTERN_RAND"
    have "io_ofst_min opt \<le> io_blocks opt (sizes ! i) \<and> io_blocks opt (sizes ! i) \<le> 2 ^ 53 \<and>
        addr_room opt (io_blocks opt (sizes ! i))" if "i < length sizes" for i
      using assms(7-9) nth_mem [OF that] io_ready_sizes(3) [OF assms(1,2)] io_share_addr_room
      by (auto simp: io_share_room_def)
    then show ?thesis
      unfolding io_init_offsets_rand [OF pat assms(7) room]
      using pat io_ready_sizes(1,2) [OF assms(1,2)] assms(3) io_ofst_min_nonneg
      by (auto simp: rand_good_def offsets_ok_def)
  qed
qed

subsection \<open>Properties\<close>


definition demo_eng :: "(addr list \<times> int \<times> int) eng_kernel" where
  "demo_eng =
     \<lparr>k_read = \<lambda>fd sz w. (0, [], w), k_write = \<lambda>fd bytes w. (0, w),
      k_pread64 = \<lambda>fd sz offset w. (0, [], w), k_pwrite64 = \<lambda>fd bytes offset w. (0, w),
      k_lseek64 = \<lambda>fd offset w. (offset, w),
      k_gettimeofday = \<lambda>w. (\<lparr>tv_sec = 0, tv_usec = snd (snd w)\<rparr>, w), k_usleep = \<lambda>usec w. w,
      a_io_setup = \<lambda>n w. (0, w), a_io_destroy = \<lambda>w. w,
      a_io_submit = \<lambda>cbs (q, k, t). (int (length cbs), q @ map fst cbs, k + int (length cbs), t),
      a_io_getevents = \<lambda>mn nr (q, k, t).
        (let n = min nr (int (length q))
         in if n < mn \<or> n < 0 then None
            else Some (n, map (\<lambda>a. \<lparr>ev_obj = a, ev_res = 0, ev_res2 = 0\<rparr>) (take (nat n) q),
                       drop (nat n) q, k, t + 1000000)),
      a_uring_queue_init = \<lambda>n w. (0, w), a_uring_register_buffers = \<lambda>vecs w. (0, w),
      a_uring_queue_exit = \<lambda>w. w, a_uring_prep = \<lambda>a io idx w. (False, w),
      a_uring_submit = \<lambda>w. (0, w), a_uring_wait_cqe = \<lambda>w. None,
      e_uring_register_files = \<lambda>fds w. (0, w)\<rparr>"

lemma demo_eng_disk: "async_disk demo_eng fst (\<lambda>w. fst (snd w)) (\<lambda>w. snd (snd w))"
proof -
  have "mset w = mset (take n w) + mset (drop n w)" for n and w :: "addr list"
    by (metis append_take_drop_id mset_append)
  then have "libaio_ok demo_eng fst"
    by (auto simp: libaio_ok_def demo_eng_def Let_def comp_def multiset.map_comp)
  then show ?thesis
    by (auto simp: async_disk_def demo_eng_def Let_def TV2LONG_def split: if_splits)
qed

lemma demo_eng_setup: "fst (a_io_setup demo_eng n w) = 0"
  by (simp add: demo_eng_def)

definition demo_async :: micbench_io_option where
  "demo_async = demo_option\<lparr>o_logfile := False, o_logfile_path := None\<rparr>"

lemma demo_async_ready: "io_ready demo_env demo_async"
  by (simp add: io_ready_def demo_async_def demo_option_def demo_env_def io_files_ok_def
      mb_getsize_def crem_def cdiv_def io_open_mode_def)

lemma demo_async_invar: "io_option_invar demo_env demo_async"
  by (simp add: io_option_invar_def demo_async_def demo_option_def rwmix_ok_def
      affinities_ok_def in_int_def in_long_def)


end
