(* ===== verification/IoReport.thy ===== *)
theory IoReport
  imports IoAsync
begin

section \<open>Reports of micbench-io\<close>

text \<open>
  \<open>print_option\<close>, \<open>print_result\<close> and \<open>print_result_json\<close> of src/src/micbench-io.c as the texts
  they print, and the loop that collects the names of the files in a growing buffer. The
  buffer is modelled byte by byte, so that a write outside it is undefined.
\<close>

subsection \<open>Results\<close>

record io_result =
  r_io_count :: int
  r_io_bytes :: int
  r_start_time :: c_double
  r_exec_time :: c_double
  r_iowait_time :: c_double
  r_response_time :: c_double
  r_iops :: c_double
  r_bandwidth :: c_double

definition MEBI :: int where
  "MEBI = 1024 * 1024"

definition pattern_str :: "mb_io_pattern \<Rightarrow> string" where
  "pattern_str p =
     (case p of
        PATTERN_SEQ \<Rightarrow> ''sequential''
      | PATTERN_RAND \<Rightarrow> ''random''
      | PATTERN_SEEKDIST \<Rightarrow> ''seekdist''
      | PATTERN_SEEKINCR \<Rightarrow> ''seekincr'')"

definition mode_str :: "micbench_io_option \<Rightarrow> string" where
  "mode_str opt = (if o_read opt then ''read'' else if o_write opt then ''write'' else ''mix'')"

subsection \<open>Fields\<close>

definition dquote :: string where
  "dquote = [CHR 0x22]"

definition quoted :: "string \<Rightarrow> string" where
  "quoted s = dquote @ s @ dquote"

fun sep_by :: "string \<Rightarrow> string list \<Rightarrow> string" where
  "sep_by sep [] = []"
| "sep_by sep [x] = x"
| "sep_by sep (x # y # xs) = x @ sep @ sep_by sep (y # xs)"

text \<open>The lines of a JSON object, indented by four spaces and separated by commas.\<close>

definition json_fields :: "(string \<times> string) list \<Rightarrow> string" where
  "json_fields flds =
     sep_by ('','' @ newline) (map (\<lambda>(name, val). ''    '' @ quoted name @ '': '' @ val) flds) @
     newline"

definition json_object :: "string \<Rightarrow> (string \<times> string) list \<Rightarrow> string" where
  "json_object name flds =
     ''  '' @ quoted name @ '': {'' @ newline @ json_fields flds @ ''  }''"

subsection \<open>print_option and print_result\<close>

definition print_option :: "micbench_io_option \<Rightarrow> string" where
  "print_option opt =
     ''{'' @ newline @
     json_object ''params''
       [(''threads'', show_int (o_multi opt)),
        (''mode'', quoted (mode_str opt)),
        (''pattern'', quoted (pattern_str (o_pattern opt))),
        (''blocksize_byte'', show_int (o_blk_sz opt)),
        (''offset_start_blk'', show_int (o_ofst_start opt)),
        (''offset_end_blk'', show_int (o_ofst_end opt)),
        (''direct'', show_bool (o_direct opt)),
        (''aio'', show_bool (o_aio opt)),
        (''timeout_sec'', show_int (o_timeout opt)),
        (''bogus_comp'', show_int (o_bogus_comp opt)),
        (''iosleep'', show_int (to_int (o_iosleep opt)))] @
     newline @ ''}'' @ newline"

definition print_result :: "io_result \<Rightarrow> string" where
  "print_result r =
     ''== result =='' @ newline @
     ''exec_time     '' @ fmt_lf (r_exec_time r) @ '' [sec]'' @ newline @
     ''iops          '' @ fmt_lf (r_iops r) @ '' [blocks/sec]'' @ newline @
     ''response_time '' @ fmt_lf (r_response_time r) @ '' [sec]'' @ newline @
     ''transfer_rate '' @ fmt_lf (d_div (r_bandwidth r) (d_of_int MEBI)) @ '' [MiB/sec]'' @ newline @
     ''accum_io_time '' @ fmt_lf (r_iowait_time r) @ '' [sec]'' @ newline"

subsection \<open>The list of files\<close>

definition nul :: char where
  "nul = CHR 0x00"

text \<open>
  \<open>snprintf\<close> to offset \<open>ofs\<close> of a buffer with room for \<open>limit\<close> bytes: what fits, and a zero. It
  returns the length of the whole text, a negative number if that is no \<open>int\<close>.
\<close>

definition snprintf_at :: "char list \<Rightarrow> nat \<Rightarrow> nat \<Rightarrow> string \<Rightarrow> (int \<times> char list) c_result" where
  "snprintf_at buf ofs limit s =
     (let out = (if limit = 0 then [] else take (limit - 1) s @ [nul]);
          n = (if length s < 2 ^ 31 then int (length s) else -1)
      in if ofs + length out \<le> length buf then Inr (n, splice buf ofs out) else Inl Undefined)"

text \<open>\<open>files_str_len - 2 - (files_str_ptr - files_str)\<close>, computed in \<open>size_t\<close>.\<close>

definition files_room :: "char list \<Rightarrow> nat \<Rightarrow> nat" where
  "files_room buf ofs = nat ((int (length buf) - 2 - int ofs) mod 2 ^ 64)"

text \<open>
  The loop over the files: the text of file \<open>i\<close> is printed at \<open>ofs\<close>; if it does not fit, the
  buffer is doubled and the same file is tried again. \<open>junk\<close> is what the fresh memory holds.
\<close>

partial_function (option) files_loop ::
  "(nat \<Rightarrow> char) \<Rightarrow> string list \<Rightarrow> nat \<Rightarrow> nat \<Rightarrow> char list \<Rightarrow> nat \<Rightarrow>
     (char list \<times> nat) c_result option" where
  "files_loop junk paths nr_files i buf ofs =
     (if i < nr_files
      then if length paths \<le> i then Some (Inl Undefined)
           else let text = (if i = 0 then quoted (paths ! i) else '', '' @ quoted (paths ! i));
                    limit = files_room buf ofs
                in case snprintf_at buf ofs limit text of
                     Inl e \<Rightarrow> Some (Inl e)
                   | Inr (n, buf') \<Rightarrow>
                       if nat (n mod 2 ^ 64) \<ge> limit
                       then files_loop junk paths nr_files i
                              (buf' @ map junk [length buf'..<2 * length buf']) ofs
                       else files_loop junk paths nr_files (Suc i) buf' (ofs + nat n)
      else Some (Inr (buf, ofs)))"

text \<open>The string the buffer holds at the end: up to the first zero.\<close>

definition files_string :: "(nat \<Rightarrow> char) \<Rightarrow> micbench_io_option \<Rightarrow> string c_result option" where
  "files_string junk opt =
     bind_co (files_loop junk (case o_file_path_list opt of None \<Rightarrow> [] | Some paths \<Rightarrow> paths)
                (nat (o_nr_files opt)) 0 (CHR ''['' # map junk [1..<4]) 1)
       (\<lambda>(buf, ofs).
          if ofs + 2 \<le> length buf
          then Some (Inr (takeWhile (\<lambda>c. c \<noteq> nul) (splice buf ofs [CHR '']'', nul])))
          else Some (Inl Undefined))"

subsection \<open>print_result_json\<close>

definition json_params :: "micbench_io_option \<Rightarrow> string \<Rightarrow> string" where
  "json_params opt files_str =
     ''{'' @ newline @
     json_object ''params''
       [(''threads'', show_int (o_multi opt)),
        (''mode'', quoted (mode_str opt)),
        (''pattern'', quoted (pattern_str (o_pattern opt))),
        (''blocksize_byte'', show_int (o_blk_sz opt)),
        (''offset_start_blk'', show_int (o_ofst_start opt)),
        (''offset_end_blk'', show_int (o_ofst_end opt)),
        (''direct'', show_bool (o_direct opt)),
        (''aio'', show_bool (o_aio opt)),
        (''aio_nr_events'', show_int (o_aio_nr_events opt)),
        (''aio_engine'',
         quoted (case o_aio_engine opt of AIO_LIBAIO \<Rightarrow> ''libaio'' | AIO_IOURING \<Rightarrow> ''io_uring'')),
        (''timeout_sec'', show_int (o_timeout opt)),
        (''bogus_comp'', show_int (o_bogus_comp opt)),
        (''iosleep'', show_int (to_int (o_iosleep opt))),
        (''files'', files_str)]"

definition json_results :: "io_result \<Rightarrow> string" where
  "json_results r =
     json_object ''counters''
       [(''io_count'', show_int (r_io_count r)), (''io_bytes'', show_int (r_io_bytes r))] @
     '','' @ newline @
     json_object ''metrics''
       [(''start_time_unix'', fmt_lf (r_start_time r)),
        (''exec_time_sec'', fmt_lf (r_exec_time r)),
        (''iops'', fmt_lf (r_iops r)),
        (''transfer_rate_mbps'', fmt_lf (d_div (r_bandwidth r) (d_of_int MEBI))),
        (''response_time_msec'', fmt_lf (d_mul (r_response_time r) (Fin 1000))),
        (''accum_io_time_sec'', fmt_lf (r_iowait_time r))]"

text \<open>\<open>None\<close> for the result is the call with \<open>only_params\<close>.\<close>

definition print_result_json ::
  "(nat \<Rightarrow> char) \<Rightarrow> micbench_io_option \<Rightarrow> io_result option \<Rightarrow> string c_result option" where
  "print_result_json junk opt result =
     bind_co (files_string junk opt) (\<lambda>files_str.
     Some (Inr (json_params opt files_str @
       (case result of
          None \<Rightarrow> newline @ ''}'' @ newline
        | Some r \<Rightarrow> '','' @ newline @ json_results r @ newline @ ''}'' @ newline))))"

subsection \<open>The growing buffer\<close>

text \<open>What the buffer starts with: an opening bracket and the files so far.\<close>

definition files_text :: "string list \<Rightarrow> string" where
  "files_text paths = sep_by '', '' (map quoted paths)"

definition path_ok :: "string \<Rightarrow> bool" where
  "path_ok path \<longleftrightarrow> length path < 2 ^ 31 - 4 \<and> nul \<notin> set path"

text \<open>The text added for file \<open>i\<close>.\<close>

definition files_piece :: "string list \<Rightarrow> nat \<Rightarrow> string" where
  "files_piece paths i = (if i = 0 then quoted (paths ! i) else '', '' @ quoted (paths ! i))"

lemma sep_by_snoc: "xs \<noteq> [] \<Longrightarrow> sep_by sep (xs @ [x]) = sep_by sep xs @ sep @ x"
  by (induction sep xs rule: sep_by.induct) auto

lemma files_text_step:
  assumes "i < length paths"
  shows "files_text (take (Suc i) paths) = files_text (take i paths) @ files_piece paths i"
proof (cases "i = 0")
  case True
  then show ?thesis using assms by (cases paths) (simp_all add: files_text_def files_piece_def)
next
  case False
  then have "take i paths \<noteq> []" using assms by auto
  then show ?thesis
    using assms False sep_by_snoc [of "map quoted (take i paths)" "'', ''" "quoted (paths ! i)"]
    by (simp add: take_Suc_conv_app_nth files_text_def files_piece_def)
qed

lemma files_text_le: "length (files_text (take i paths)) \<le> length (files_text paths)"
proof (induction "length paths - i" arbitrary: i)
  case (Suc k)
  then have i: "i < length paths" by simp
  then have "length (files_text (take i paths)) \<le> length (files_text (take (Suc i) paths))"
    by (simp add: files_text_step)
  also have "\<dots> \<le> length (files_text paths)" using Suc by (intro Suc.hyps(1)) simp
  finally show ?case .
qed simp

text \<open>The state of the loop: file \<open>i\<close> is next, and what came before is in place.\<close>

definition files_at :: "string list \<Rightarrow> nat \<Rightarrow> char list \<Rightarrow> nat \<Rightarrow> bool" where
  "files_at paths i buf ofs \<longleftrightarrow> i \<le> length paths \<and> ofs + 3 \<le> length buf \<and>
     take ofs buf = ''['' @ files_text (take i paths) \<and>
     length buf \<le> 2 * (length (files_text paths) + 4)"

lemma files_at_ofs: "files_at paths i buf ofs \<Longrightarrow> ofs = Suc (length (files_text (take i paths)))"
  unfolding files_at_def by (metis add_leE append_Cons append_Nil length_Cons length_take min.absorb2)

lemma files_room_eq:
  assumes "files_at paths i buf ofs" and "length (files_text paths) < 2 ^ 40"
  shows "files_room buf ofs = length buf - 2 - ofs"
proof -
  have "int (length buf) - 2 - int ofs = int (length buf - 2 - ofs)"
    using assms(1) by (simp add: files_at_def)
  moreover have "length buf - 2 - ofs < 2 ^ 64" using assms by (auto simp: files_at_def)
  ultimately show ?thesis by (simp add: files_room_def)
qed

lemma snprintf_at_ok:
  assumes "files_at paths i buf ofs" and "i < length paths" and "length (files_piece paths i) < 2 ^ 31"
    and "length (files_text paths) < 2 ^ 40"
  shows "\<exists>buf'. snprintf_at buf ofs (files_room buf ofs) (files_piece paths i) =
      Inr (int (length (files_piece paths i)), buf') \<and> length buf' = length buf \<and>
    take ofs buf' = take ofs buf \<and>
    (length (files_piece paths i) < files_room buf ofs \<longrightarrow>
       take (ofs + length (files_piece paths i)) buf' = take ofs buf @ files_piece paths i)"
proof -
  let ?s = "files_piece paths i"
  let ?n = "files_room buf ofs"
  have n: "?n = length buf - 2 - ofs" by (rule files_room_eq [OF assms(1,4)])
  have at: "ofs + 3 \<le> length buf" using assms(1) by (simp add: files_at_def)
  let ?out = "take (?n - 1) ?s @ [nul]"
  have len: "length ?out \<le> ?n" using n at by simp
  then have fits: "ofs + length ?out \<le> length buf" using n at by linarith
  then have "snprintf_at buf ofs ?n ?s = Inr (int (length ?s), splice buf ofs ?out)"
    using assms(3) n at by (simp add: snprintf_at_def Let_def)
  moreover have "length (splice buf ofs ?out) = length buf" using fits by (rule length_splice)
  moreover have "take ofs (splice buf ofs ?out) = take ofs buf" using at by (simp add: splice_def)
  moreover have "take (ofs + length ?s) (splice buf ofs ?out) = take ofs buf @ ?s" if "length ?s < ?n"
    using that at by (simp add: splice_def)
  ultimately show ?thesis by blast
qed

lemma files_loop_text:
  assumes "\<forall>path \<in> set paths. path_ok path" and "length (files_text paths) < 2 ^ 40"
  shows "files_at paths i buf ofs \<Longrightarrow>
    \<exists>buf' ofs'. files_loop junk paths (length paths) i buf ofs = Some (Inr (buf', ofs')) \<and>
      files_at paths (length paths) buf' ofs'"
proof (induction "(length paths - i) + (length (files_text paths) + 4 - length buf)"
    arbitrary: i buf ofs rule: less_induct)
  case less
  show ?case
  proof (cases "i < length paths")
    case False
    then show ?thesis using less.prems by (subst files_loop.simps) (auto simp: files_at_def)
  next
    case True
    let ?s = "files_piece paths i"
    have "path_ok (paths ! i)" using assms(1) True by simp
    then have short: "length ?s < 2 ^ 31"
      by (cases "i = 0") (auto simp: path_ok_def files_piece_def quoted_def dquote_def)
    obtain buf1 where b: "snprintf_at buf ofs (files_room buf ofs) ?s = Inr (int (length ?s), buf1)"
      "length buf1 = length buf" "take ofs buf1 = take ofs buf"
      "length ?s < files_room buf ofs \<longrightarrow> take (ofs + length ?s) buf1 = take ofs buf @ ?s"
      using snprintf_at_ok [OF less.prems True short assms(2)] by blast
    have room: "files_room buf ofs = length buf - 2 - ofs"
      by (rule files_room_eq [OF less.prems assms(2)])
    have cmp: "nat (int (length ?s) mod 2 ^ 64) = length ?s" using short by simp
    have total: "ofs + length ?s \<le> Suc (length (files_text paths))"
      using files_at_ofs [OF less.prems] files_text_step [OF True] files_text_le [of "Suc i" paths]
      by simp
    have at: "ofs + 3 \<le> length buf" "take ofs buf = ''['' @ files_text (take i paths)"
      "length buf \<le> 2 * (length (files_text paths) + 4)"
      using less.prems by (simp_all add: files_at_def)
    let ?big = "buf1 @ map junk [length buf1..<2 * length buf1]"
    have step: "files_loop junk paths (length paths) i buf ofs =
        (if files_room buf ofs \<le> length ?s
         then files_loop junk paths (length paths) i ?big ofs
         else files_loop junk paths (length paths) (Suc i) buf1 (ofs + length ?s))"
      using True b(1) cmp
      by (subst files_loop.simps) (simp add: Let_def files_piece_def [symmetric])
    show ?thesis
    proof (cases "files_room buf ofs \<le> length ?s")
      case True
      then have small: "length buf \<le> length (files_text paths) + 3" using room total at(1) by linarith
      have "files_at paths i ?big ofs"
        using less.prems b(2,3) small by (simp add: files_at_def)
      moreover have "(length paths - i) + (length (files_text paths) + 4 - length ?big)
          < (length paths - i) + (length (files_text paths) + 4 - length buf)"
        using small at(1) b(2) by simp
      ultimately show ?thesis using less.hyps step True by simp
    next
      case False
      then have "files_at paths (Suc i) buf1 (ofs + length ?s)"
        using room b(2,4) at \<open>i < length paths\<close> by (simp add: files_at_def files_text_step)
      moreover have "(length paths - Suc i) + (length (files_text paths) + 4 - length buf1)
          < (length paths - i) + (length (files_text paths) + 4 - length buf)"
        using \<open>i < length paths\<close> b(2) by simp
      ultimately show ?thesis using less.hyps step False by simp
    qed
  qed
qed

lemma nul_files_text:
  assumes "\<forall>path \<in> set paths. path_ok path"
  shows "nul \<notin> set (files_text paths)"
proof -
  have "nul \<notin> set (files_text (take i paths))" if "i \<le> length paths" for i
    using that
  proof (induction i)
    case (Suc i)
    then have "path_ok (paths ! i)" using assms by simp
    then show ?case
      using Suc by (auto simp: files_text_step files_piece_def quoted_def dquote_def path_ok_def nul_def)
  qed (simp add: files_text_def)
  from this [of "length paths"] show ?thesis by simp
qed

lemma files_string_text:
  assumes "o_file_path_list opt = Some paths" and "o_nr_files opt = int (length paths)"
    and "\<forall>path \<in> set paths. path_ok path" and "length (files_text paths) < 2 ^ 40"
  shows "files_string junk opt = Some (Inr (''['' @ files_text paths @ '']''))"
proof -
  have "files_at paths 0 (CHR ''['' # map junk [1..<4]) 1"
    by (simp add: files_at_def files_text_def)
  from files_loop_text [OF assms(3,4) this, of junk] obtain buf ofs where
    l: "files_loop junk paths (length paths) 0 (CHR ''['' # map junk [1..<4]) 1 = Some (Inr (buf, ofs))"
    "files_at paths (length paths) buf ofs" by blast
  have at: "ofs + 3 \<le> length buf" "take ofs buf = ''['' @ files_text paths"
    using l(2) by (simp_all add: files_at_def)
  have "splice buf ofs [CHR '']'', nul] = (''['' @ files_text paths @ '']'') @ nul # drop (ofs + 2) buf"
    using at by (simp add: splice_def)
  moreover have "takeWhile (\<lambda>c. c \<noteq> nul) ((''['' @ files_text paths @ '']'') @ nul # drop (ofs + 2) buf) =
      ''['' @ files_text paths @ '']''"
    using nul_files_text [OF assms(3)] by (subst takeWhile_append2) (auto simp: nul_def)
  ultimately show ?thesis
    using l(1) at(1) assms(1,2) by (simp add: files_string_def)
qed

subsection \<open>Properties\<close>

text \<open>
  C40: The loop that prints the list of files into a buffer it doubles whenever a name does not
  fit ends, writes only inside the buffer, whatever the fresh memory holds, and yields exactly
  the names in quotes, separated by commas, between brackets.
\<close>

theorem files_string_lists_files:
  assumes "o_file_path_list opt = Some paths" and "o_nr_files opt = int (length paths)"
    and "\<forall>path \<in> set paths. path_ok path" and "length (files_text paths) < 2 ^ 40"
  shows "files_string junk opt = Some (Inr (''['' @ files_text paths @ '']''))"
  using assms by (rule files_string_text)

theorem files_string_lists_files_witness:
  "files_string (\<lambda>i. CHR ''x'') (demo_option\<lparr>o_nr_files := 2, o_file_path_list := Some [''a'', ''bc'']\<rparr>) =
     Some (Inr (''['' @ dquote @ ''a'' @ dquote @ '', '' @ dquote @ ''bc'' @ dquote @ '']''))"
  using files_string_lists_files
    [of "demo_option\<lparr>o_nr_files := 2, o_file_path_list := Some [''a'', ''bc'']\<rparr>" "[''a'', ''bc'']" "\<lambda>i. CHR ''x''"]
  by (simp add: path_ok_def nul_def files_text_def quoted_def dquote_def)

end
