(* ===== verification/IoMain.thy ===== *)
theory IoMain
  imports IoReport
begin

section \<open>Threads and main program of micbench-io\<close>

text \<open>
  \<open>thread_handler\<close> and \<open>micbench_io_main\<close> of src/src/micbench-io.c: opening and closing the
  files around an engine, the flags, the arguments of the threads, the summing up of what the
  threads report, and the order of the program's checks. The threads are a parameter of the main
  program: what they leave behind after \<open>pthread_join\<close>. \<open>io_run_threads\<close> is the instance for
  threads that share no state.
\<close>

subsection \<open>A thread\<close>

record 'w thr_kernel = "'w eng_kernel" +
  t_open :: "string \<Rightarrow> open_mode \<times> bool \<Rightarrow> 'w \<Rightarrow> int \<times> 'w"
  t_close :: "int \<Rightarrow> 'w \<Rightarrow> int \<times> 'w"
  t_sched_setaffinity :: "int \<Rightarrow> 1024 word \<Rightarrow> 'w \<Rightarrow> 'w"

text \<open>The affinity of the thread: the entry of the array, which must exist.\<close>

definition set_thread_affinity ::
  "('w, 'k) thr_kernel_scheme \<Rightarrow> micbench_io_option \<Rightarrow> int \<Rightarrow> int \<Rightarrow> 'w \<Rightarrow> 'w c_result" where
  "set_thread_affinity K opt thread_id th_tid w =
     (case o_affinities opt of
        None \<Rightarrow> Inr w
      | Some affs \<Rightarrow>
          bind_c (file_slot affs thread_id) (\<lambda>aff.
          Inr (case aff of
                 None \<Rightarrow> w
               | Some a \<Rightarrow> t_sched_setaffinity K th_tid (cpumask a) w)))"

fun open_files ::
  "('w, 'k) thr_kernel_scheme \<Rightarrow> micbench_io_option \<Rightarrow> string list \<Rightarrow> 'w \<Rightarrow> (int list \<times> 'w) c_result" where
  "open_files K opt [] w = Inr ([], w)"
| "open_files K opt (path # paths) w =
     (let (fd, w1) = t_open K path (o_open_flags opt) w
      in if fd = -1 then Inl Exit_Failure
         else bind_c (open_files K opt paths w1) (\<lambda>(fds, w2). Inr (fd # fds, w2)))"

fun close_files :: "('w, 'k) thr_kernel_scheme \<Rightarrow> int list \<Rightarrow> 'w \<Rightarrow> 'w c_result" where
  "close_files K [] w = Inr w"
| "close_files K (fd # fds) w =
     (let (ret, w1) = t_close K fd w
      in if ret = -1 then Inl Exit_Failure else close_files K fds w1)"

definition io_paths :: "micbench_io_option \<Rightarrow> string list c_result" where
  "io_paths opt =
     (case o_file_path_list opt of
        None \<Rightarrow> if o_nr_files opt \<le> 0 then Inr [] else Inl Undefined
      | Some paths \<Rightarrow>
          if nat (o_nr_files opt) \<le> length paths then Inr (take (nat (o_nr_files opt)) paths)
          else Inl Undefined)"

text \<open>
  \<open>alloc\<close>, \<open>garbage\<close> and \<open>buf\<close> are what the allocations of the engines give, \<open>th_tid\<close> what
  \<open>gettid\<close> returns.
\<close>

definition thread_handler ::
  "('w, 'k) thr_kernel_scheme \<Rightarrow> micbench_io_option \<Rightarrow> (nat \<Rightarrow> addr) \<Rightarrow> c_double \<Rightarrow> 8 word list \<Rightarrow>
     int \<Rightarrow> int \<Rightarrow> int \<Rightarrow> rand48 \<Rightarrow> io_log \<Rightarrow> 'w \<Rightarrow> (meter \<times> io_log \<times> 'w) c_result option" where
  "thread_handler K opt alloc garbage buf thread_id common_seed th_tid grand lg w =
     bind_co (Some (set_thread_affinity K opt thread_id th_tid w)) (\<lambda>w1.
     bind_co (Some (io_paths opt)) (\<lambda>paths.
     bind_co (Some (open_files K opt paths w1)) (\<lambda>(fd_list, w2).
     bind_co
       (if o_aio opt
        then bind_co (do_async_io K opt alloc garbage thread_id common_seed th_tid fd_list grand lg w2)
               (\<lambda>(m, left, lg', w3). Some (Inr (m, lg', w3)))
        else bind_co (do_sync_io K opt thread_id common_seed th_tid fd_list buf grand lg w2)
               (\<lambda>(m, s, w3). Some (Inr (m, sy_log s, w3))))
       (\<lambda>(m, lg', w3).
     bind_co (Some (close_files K fd_list w3)) (\<lambda>w4. Some (Inr (m, lg', w4)))))))"

subsection \<open>The main program\<close>

definition io_open_flags :: "micbench_io_option \<Rightarrow> open_mode \<times> bool" where
  "io_open_flags opt =
     (if o_read opt then O_RDONLY else if o_write opt then O_WRONLY else O_RDWR, o_direct opt)"

text \<open>What the threads leave: when they were started, how long they took, their meters.\<close>

record io_run =
  run_start_tv :: timeval
  run_exec_time :: c_double
  run_meters :: "meter list"

fun io_sums :: "meter list \<Rightarrow> int \<Rightarrow> c_double \<Rightarrow> (int \<times> c_double) c_result" where
  "io_sums [] count_sum iowait_time_sum = Inr (count_sum, iowait_time_sum)"
| "io_sums (m # ms) count_sum iowait_time_sum =
     bind_c (long_val (count_sum + m_count m)) (\<lambda>c.
     io_sums ms c (d_add iowait_time_sum (m_iowait_time m)))"

definition io_aggregate :: "micbench_io_option \<Rightarrow> io_run \<Rightarrow> io_result c_result" where
  "io_aggregate opt run =
     bind_c (io_sums (run_meters run) 0 (Fin 0)) (\<lambda>(count_sum, iowait_time_sum).
     bind_c (long_val (count_sum * o_blk_sz opt)) (\<lambda>bytes.
     Inr \<lparr>r_io_count = count_sum, r_io_bytes = bytes,
          r_start_time = d_div (d_of_int (TV2LONG (run_start_tv run))) (Fin 1000000),
          r_exec_time = run_exec_time run,
          r_iowait_time = d_div iowait_time_sum (d_of_int (o_multi opt)),
          r_response_time = d_div iowait_time_sum (d_of_int count_sum),
          r_iops = d_div (d_of_int count_sum) (run_exec_time run),
          r_bandwidth = d_div (d_of_int bytes) (run_exec_time run)\<rparr>))"

text \<open>Freeing the affinities reads one entry per thread.\<close>

definition io_affinities_ok :: "micbench_io_option \<Rightarrow> bool" where
  "io_affinities_ok opt =
     (case o_affinities opt of None \<Rightarrow> True | Some affs \<Rightarrow> o_multi opt \<le> int (length affs))"

text \<open>
  \<open>micbench_set\<close>: whether the variable MICBENCH is set; \<open>seed\<close>: what is read from the random
  device, \<open>None\<close> if that fails; \<open>threads\<close>: the run of the threads with the final options and the
  seed. The result is what is printed on the standard output; the exit status is then 0.
\<close>

definition micbench_io_main ::
  "bool \<Rightarrow> io_env \<Rightarrow> (nat \<Rightarrow> char) \<Rightarrow> int option \<Rightarrow>
     (micbench_io_option \<Rightarrow> int \<Rightarrow> io_run c_result option) \<Rightarrow> string list \<Rightarrow> micbench_io_option \<Rightarrow>
     string c_result option" where
  "micbench_io_main micbench_set env junk seed threads argv opt0 =
     (if \<not> micbench_set then Some (Inl Exit_Failure)
      else bind_co (Some (io_parse_args env argv opt0)) (\<lambda>(ret, opt).
           if ret \<noteq> 0 then Some (Inl Exit_Failure)
           else if o_noop opt then print_result_json junk opt None
           else let opt1 = opt\<lparr>o_open_flags := io_open_flags opt\<rparr>
                in case seed of
                     None \<Rightarrow> Some (Inl Exit_Failure)
                   | Some common_seed \<Rightarrow>
                       bind_co (threads opt1 common_seed) (\<lambda>run.
                       bind_co (Some (io_aggregate opt1 run)) (\<lambda>result.
                       bind_co (if o_json opt1 then print_result_json junk opt1 (Some result)
                                else Some (Inr (print_result result))) (\<lambda>out.
                       if io_affinities_ok opt1 then Some (Inr out) else Some (Inl Undefined))))))"

text \<open>
  The run of the threads if they share nothing but the options: no log is written, and no thread
  draws from the process-wide generator. Each thread sees its own sequence of answers of the
  kernel, so it has a world of its own, in whatever order the threads run; the main thread takes
  the time before it creates them and after it has joined them.
\<close>

record 'w io_thread_env =
  ite_world :: 'w
  ite_alloc :: "nat \<Rightarrow> addr"
  ite_garbage :: c_double
  ite_buf :: "8 word list"
  ite_tid :: int
  ite_grand :: rand48
  ite_log :: io_log

fun io_each ::
  "('w, 'k) thr_kernel_scheme \<Rightarrow> (nat \<Rightarrow> 'w io_thread_env) \<Rightarrow> micbench_io_option \<Rightarrow> int \<Rightarrow> nat \<Rightarrow> nat \<Rightarrow>
     meter list c_result option" where
  "io_each K es opt common_seed i 0 = Some (Inr [])"
| "io_each K es opt common_seed i (Suc n) =
     bind_co (thread_handler K opt (ite_alloc (es i)) (ite_garbage (es i)) (ite_buf (es i)) (int i)
                common_seed (ite_tid (es i)) (ite_grand (es i)) (ite_log (es i)) (ite_world (es i)))
       (\<lambda>(m, lg', w').
     bind_co (io_each K es opt common_seed (Suc i) n) (\<lambda>ms. Some (Inr (m # ms))))"

definition io_run_threads ::
  "('w, 'k) thr_kernel_scheme \<Rightarrow> (nat \<Rightarrow> 'w io_thread_env) \<Rightarrow> 'w \<Rightarrow> micbench_io_option \<Rightarrow> int \<Rightarrow>
     io_run c_result option" where
  "io_run_threads K es w opt common_seed =
     (let (start_tv, w1) = k_gettimeofday K w
      in bind_co (io_each K es opt common_seed 0 (nat (o_multi opt))) (\<lambda>ms.
         Some (Inr \<lparr>run_start_tv = start_tv, run_exec_time = fst (mb_elapsed_time_from K start_tv w1),
                    run_meters = ms\<rparr>)))"

subsection \<open>Summing up\<close>

lemma io_sums_count:
  assumes "\<forall>m \<in> set ms. 0 \<le> m_count m" and "0 \<le> c" and "c + (\<Sum>m\<leftarrow>ms. m_count m) < 2 ^ 63"
  shows "\<exists>t. io_sums ms c d = Inr (c + (\<Sum>m\<leftarrow>ms. m_count m), t)"
  using assms
proof (induction ms arbitrary: c d)
  case (Cons m ms)
  have "0 \<le> (\<Sum>m\<leftarrow>ms. m_count m)" using Cons.prems(1) by (intro sum_list_nonneg) auto
  then have long: "in_long (c + m_count m)" using Cons.prems by (simp add: in_long_def)
  have "\<forall>m \<in> set ms. 0 \<le> m_count m" "0 \<le> c + m_count m"
    "c + m_count m + (\<Sum>m\<leftarrow>ms. m_count m) < 2 ^ 63"
    using Cons.prems by (simp_all add: add.assoc)
  then obtain t where t: "io_sums ms (c + m_count m) (d_add d (m_iowait_time m)) =
       Inr (c + m_count m + (\<Sum>m\<leftarrow>ms. m_count m), t)"
    using Cons.IH by blast
  have "io_sums (m # ms) c d = Inr (c + m_count m + (\<Sum>m\<leftarrow>ms. m_count m), t)"
    by (simp only: io_sums.simps long_val_ok [OF long] bind_c_simps t)
  then show ?case by (auto simp: add.assoc simp del: io_sums.simps)
qed simp

lemma rnd_rat_0: "rnd_rat 0 = 0"
  by (simp add: rnd_rat_def)

lemma io_sums_idle:
  assumes "\<forall>m \<in> set ms. m_count m = 0 \<and> m_iowait_time m = Fin 0"
  shows "io_sums ms 0 (Fin 0) = Inr (0, Fin 0)"
  using assms
proof (induction ms)
  case (Cons m ms)
  have m: "m_count m = 0" "m_iowait_time m = Fin 0"
    using bspec [OF Cons.prems, of m] by simp_all
  have "\<forall>m \<in> set ms. m_count m = 0 \<and> m_iowait_time m = Fin 0"
    using Cons.prems by (blast intro: list.set_intros(2))
  then have ms: "io_sums ms 0 (Fin 0) = Inr (0, Fin 0)" by (rule Cons.IH)
  have "long_val (0 + 0) = Inr 0" by (simp add: in_long_def)
  moreover have "d_add (Fin 0) (Fin 0) = Fin 0" by (simp add: rnd_rat_0)
  ultimately show ?case by (simp only: io_sums.simps m bind_c_simps ms)
qed simp

lemma io_aggregate_counts:
  assumes "\<forall>m \<in> set (run_meters run). 0 \<le> m_count m" and "0 < o_blk_sz opt"
    and "(\<Sum>m\<leftarrow>run_meters run. m_count m) * o_blk_sz opt < 2 ^ 63"
  shows "\<exists>r. io_aggregate opt run = Inr r \<and> r_io_count r = (\<Sum>m\<leftarrow>run_meters run. m_count m) \<and>
    r_io_bytes r = (\<Sum>m\<leftarrow>run_meters run. m_count m) * o_blk_sz opt"
proof -
  let ?c = "\<Sum>m\<leftarrow>run_meters run. m_count m"
  have c: "0 \<le> ?c" using assms(1) by (intro sum_list_nonneg) auto
  have "?c * 1 \<le> ?c * o_blk_sz opt" using c assms(2) by (intro mult_left_mono) simp_all
  then have "?c < 2 ^ 63" using assms(3) by simp
  then obtain t where "io_sums (run_meters run) 0 (Fin 0) = Inr (?c, t)"
    using io_sums_count [OF assms(1), of 0 "Fin 0"] by auto
  moreover have "0 \<le> ?c * o_blk_sz opt" using c assms(2) by simp
  then have "in_long (?c * o_blk_sz opt)" using assms(3) by (simp add: in_long_def)
  ultimately show ?thesis by (simp add: io_aggregate_def)
qed

subsection \<open>Properties\<close>

lemma io_main_report:
  assumes "io_parse_args env argv opt0 = Inr (0, opt)" and "\<not> o_noop opt" and "o_json opt"
    and "threads (opt\<lparr>o_open_flags := io_open_flags opt\<rparr>) sd = Some (Inr run)"
    and "o_file_path_list opt = Some paths" and "o_nr_files opt = int (length paths)"
    and "\<forall>path \<in> set paths. path_ok path" and "length (files_text paths) < 2 ^ 40"
    and "io_affinities_ok opt" and "\<forall>m \<in> set (run_meters run). 0 \<le> m_count m"
    and "0 < o_blk_sz opt" and "(\<Sum>m\<leftarrow>run_meters run. m_count m) * o_blk_sz opt < 2 ^ 63"
  shows "\<exists>r. micbench_io_main True env junk (Some sd) threads argv opt0 =
      Some (Inr (json_params (opt\<lparr>o_open_flags := io_open_flags opt\<rparr>) (''['' @ files_text paths @ '']'') @
        '','' @ newline @ json_results r @ newline @ ''}'' @ newline)) \<and>
    r_io_count r = (\<Sum>m\<leftarrow>run_meters run. m_count m) \<and>
    r_io_bytes r = (\<Sum>m\<leftarrow>run_meters run. m_count m) * o_blk_sz opt"
proof -
  let ?opt = "opt\<lparr>o_open_flags := io_open_flags opt\<rparr>"
  obtain r where r: "io_aggregate ?opt run = Inr r" "r_io_count r = (\<Sum>m\<leftarrow>run_meters run. m_count m)"
    "r_io_bytes r = (\<Sum>m\<leftarrow>run_meters run. m_count m) * o_blk_sz opt"
    using io_aggregate_counts [of run ?opt] assms(10-12) by auto
  have "files_string junk ?opt = Some (Inr (''['' @ files_text paths @ '']''))"
    using assms(5-8) by (intro files_string_text) simp_all
  then show ?thesis
    using assms(1-4,9) r
    by (intro exI [of _ r])
      (auto simp: micbench_io_main_def print_result_json_def io_affinities_ok_def Let_def
        split: option.splits)
qed

text \<open>
  When the environment is right, the command line is accepted and the threads come to an
  end, \<open>micbench_io_main\<close> prints a report in JSON whose counters are the sum of the counts of
  all threads and that sum times the block size, and lists exactly the files of the command
  line; the threads run with the access mode the options ask for.
\<close>

theorem io_main_reports_counts:
  assumes "io_parse_args env argv opt0 = Inr (0, opt)" and "\<not> o_noop opt" and "o_json opt"
    and "threads (opt\<lparr>o_open_flags := io_open_flags opt\<rparr>) sd = Some (Inr run)"
    and "o_file_path_list opt = Some paths" and "o_nr_files opt = int (length paths)"
    and "\<forall>path \<in> set paths. path_ok path" and "length (files_text paths) < 2 ^ 40"
    and "io_affinities_ok opt" and "\<forall>m \<in> set (run_meters run). 0 \<le> m_count m"
    and "0 < o_blk_sz opt" and "(\<Sum>m\<leftarrow>run_meters run. m_count m) * o_blk_sz opt < 2 ^ 63"
  shows "\<exists>r. micbench_io_main True env junk (Some sd) threads argv opt0 =
      Some (Inr (json_params (opt\<lparr>o_open_flags := io_open_flags opt\<rparr>) (''['' @ files_text paths @ '']'') @
        '','' @ newline @ json_results r @ newline @ ''}'' @ newline)) \<and>
    r_io_count r = (\<Sum>m\<leftarrow>run_meters run. m_count m) \<and>
    r_io_bytes r = (\<Sum>m\<leftarrow>run_meters run. m_count m) * o_blk_sz opt"
  using assms by (rule io_main_report)

text \<open>A thread that reads sequentially: opening, the engine, closing.\<close>

lemma open_files_length: "open_files K opt paths w = Inr (fds, w') \<Longrightarrow> length fds = length paths"
  by (induction paths arbitrary: w fds) (auto simp: bind_c_eq_Inr Let_def split: prod.splits if_splits)

lemma close_files_ok:
  assumes "\<And>fd w. fst (t_close K fd w) \<noteq> -1"
  shows "\<exists>w'. close_files K fds w = Inr w'"
proof (induction fds arbitrary: w)
  case (Cons fd fds)
  obtain ret w1 where "t_close K fd w = (ret, w1)" by fastforce
  moreover have "ret \<noteq> -1" using assms [of fd w] calculation by simp
  ultimately show ?case using Cons.IH [of w1] by simp
qed simp

lemma io_ready_flags: "io_ready env (opt\<lparr>o_open_flags := fl\<rparr>) = io_ready env opt"
  by (simp add: io_ready_def io_files_ok_def io_open_mode_def)

lemma io_option_invar_flags: "io_option_invar env (opt\<lparr>o_open_flags := fl\<rparr>) = io_option_invar env opt"
  by (simp add: io_option_invar_def)

lemma io_share_room_flags: "io_share_room (opt\<lparr>o_open_flags := fl\<rparr>) sz = io_share_room opt sz"
  by (simp add: io_share_room_def io_blocks_def io_ofst_min_def)

text \<open>What a thread that reads sequentially does, with the time it takes and the requests it counts.\<close>

definition reader_run ::
  "('w, 'k) thr_kernel_scheme \<Rightarrow> micbench_io_option \<Rightarrow> string list \<Rightarrow> int \<Rightarrow> ('w \<Rightarrow> int) \<Rightarrow>
     int list \<Rightarrow> 'w io_thread_env \<Rightarrow> nat \<Rightarrow> meter \<Rightarrow> bool" where
  "reader_run K opt paths sd now fds e i m \<longleftrightarrow>
     (\<exists>w1 s w2. open_files K opt paths (ite_world e) = Inr (fds, w1) \<and>
        do_sync_io K opt (int i) sd (ite_tid e) fds (ite_buf e) (ite_grand e) (ite_log e) w1 =
          Some (Inr (m, s, w2)) \<and>
        now w1 + o_timeout opt * 1000000 \<le> now w2) \<and> 0 \<le> m_count m \<and> 100 dvd m_count m"

lemma io_each_readers:
  assumes "\<And>j. i \<le> j \<Longrightarrow> j < i + n \<Longrightarrow> \<exists>m lg' w'. reader_run K opt paths sd now (fds j) (es j) j m \<and>
      thread_handler K opt (ite_alloc (es j)) (ite_garbage (es j)) (ite_buf (es j)) (int j)
        sd (ite_tid (es j)) (ite_grand (es j)) (ite_log (es j)) (ite_world (es j)) = Some (Inr (m, lg', w'))"
  shows "\<exists>ms. io_each K es opt sd i n = Some (Inr ms) \<and> length ms = n \<and>
    (\<forall>j < n. reader_run K opt paths sd now (fds (i + j)) (es (i + j)) (i + j) (ms ! j))"
  using assms
proof (induction n arbitrary: i)
  case (Suc n)
  obtain m lg' w' where m: "reader_run K opt paths sd now (fds i) (es i) i m"
    "thread_handler K opt (ite_alloc (es i)) (ite_garbage (es i)) (ite_buf (es i)) (int i)
        sd (ite_tid (es i)) (ite_grand (es i)) (ite_log (es i)) (ite_world (es i)) = Some (Inr (m, lg', w'))"
    using Suc.prems [of i] by auto
  obtain ms where ms: "io_each K es opt sd (Suc i) n = Some (Inr ms)" "length ms = n"
    "\<forall>j < n. reader_run K opt paths sd now (fds (Suc i + j)) (es (Suc i + j)) (Suc i + j) (ms ! j)"
    using Suc.IH [of "Suc i"] Suc.prems by auto
  have "reader_run K opt paths sd now (fds (i + j)) (es (i + j)) (i + j) ((m # ms) ! j)" if "j < Suc n" for j
    using that m(1) ms(3) by (cases j) auto
  then show ?case using m(2) ms(1,2) by auto
qed simp

lemma reader_thread:
  assumes "io_ready env opt" and "io_option_invar env opt" and "\<not> o_aio opt" and "o_affinities opt = None"
    and "o_pattern opt = PATTERN_SEQ" and "o_read opt" and "0 < o_blk_sz opt" and "o_misalign opt = 0"
    and "o_file_path_list opt = Some paths" and "length paths < 2 ^ 31"
    and "\<forall>path \<in> set paths. io_share_room opt (mb_getsize env path)"
    and "int i < o_multi opt" and "\<exists>w'. open_files K opt paths (ite_world e) = Inr (fds, w')"
    and "sync_disk K fds file pos now" and "\<And>fd w. fst (t_close K fd w) \<noteq> -1"
    and "\<forall>j < length paths. int (length (file (fds ! j))) = mb_getsize env (paths ! j)"
    and "length (ite_buf e) = nat (o_blk_sz opt)"
  shows "\<exists>m lg' w'. reader_run K opt paths sd now fds e i m \<and>
      thread_handler K opt (ite_alloc e) (ite_garbage e) (ite_buf e) (int i)
        sd (ite_tid e) (ite_grand e) (ite_log e) (ite_world e) = Some (Inr (m, lg', w'))"
proof -
  have sizes: "o_file_size_list opt = Some (map (mb_getsize env) paths)" "o_nr_files opt = int (length paths)"
    using assms(1,9) by (auto simp: io_ready_def)
  obtain w1 where w1: "open_files K opt paths (ite_world e) = Inr (fds, w1)" using assms(13) by blast
  obtain m s w2 k where run: "do_sync_io K opt (int i) sd (ite_tid e) fds (ite_buf e) (ite_grand e)
      (ite_log e) w1 = Some (Inr (m, s, w2))" "m_count m = 100 * int k"
    "now w1 + o_timeout opt * 1000000 \<le> now w2"
    using seq_read_run [OF assms(1,2) sizes(1) _ assms(5,6) _ assms(12,7,8) _ assms(14) _ _ assms(17),
        of sd "ite_tid e" "ite_grand e" "ite_log e" w1] assms(10,11,16) open_files_length [OF w1]
    by auto
  obtain w3 where w3: "close_files K fds w2 = Inr w3" using close_files_ok [OF assms(15)] by blast
  have "thread_handler K opt (ite_alloc e) (ite_garbage e) (ite_buf e) (int i)
        sd (ite_tid e) (ite_grand e) (ite_log e) (ite_world e) = Some (Inr (m, sy_log s, w3))"
    using run(1) w1 w3 assms(3,4,9) sizes(2)
    by (simp add: thread_handler_def set_thread_affinity_def io_paths_def)
  moreover have "reader_run K opt paths sd now fds e i m"
    using w1 run by (auto simp: reader_run_def)
  ultimately show ?thesis by blast
qed

text \<open>
  C1: the whole of micbench-io with any number of threads that read sequentially. On an accepted
  command line, with files of the recorded sizes, a disk that serves reads, and descriptors that
  can be opened and closed, every thread comes to an end, after at least the timeout and with a
  count that is a multiple of 100, and the program prints the report with the sum of the counts,
  unless the number of bytes exceeds 63 bits.
\<close>

theorem io_main_readers:
  assumes "io_parse_args env argv opt0 = Inr (0, opt)" and "\<not> o_noop opt" and "o_json opt"
    and "\<not> o_aio opt" and "o_affinities opt = None" and "o_logfile_path opt = None"
    and "o_pattern opt = PATTERN_SEQ" and "o_read opt" and "0 < o_blk_sz opt" and "o_misalign opt = 0"
    and "o_file_path_list opt = Some paths" and "\<forall>path \<in> set paths. path_ok path"
    and "length paths < 2 ^ 31" and "length (files_text paths) < 2 ^ 40"
    and "\<forall>path \<in> set paths. io_share_room opt (mb_getsize env path)"
    and "opt' = opt\<lparr>o_open_flags := io_open_flags opt\<rparr>"
    and "\<And>i. int i < o_multi opt \<Longrightarrow> \<exists>w'. open_files K opt' paths (ite_world (es i)) = Inr (fds i, w')"
    and "\<And>i. int i < o_multi opt \<Longrightarrow> sync_disk K (fds i) file pos now"
    and "\<And>fd w. fst (t_close K fd w) \<noteq> -1"
    and "\<And>i. int i < o_multi opt \<Longrightarrow>
      \<forall>j < length paths. int (length (file (fds i ! j))) = mb_getsize env (paths ! j)"
    and "\<And>i. int i < o_multi opt \<Longrightarrow> length (ite_buf (es i)) = nat (o_blk_sz opt)"
  shows "\<exists>run. io_run_threads K es w opt' sd = Some (Inr run) \<and>
    length (run_meters run) = nat (o_multi opt) \<and>
    (\<forall>i < nat (o_multi opt). reader_run K opt' paths sd now (fds i) (es i) i (run_meters run ! i)) \<and>
    ((\<Sum>m\<leftarrow>run_meters run. m_count m) * o_blk_sz opt < 2 ^ 63 \<longrightarrow>
      (\<exists>r. micbench_io_main True env junk (Some sd) (io_run_threads K es w) argv opt0 =
           Some (Inr (json_params opt' (''['' @ files_text paths @ '']'') @
              '','' @ newline @ json_results r @ newline @ ''}'' @ newline)) \<and>
         r_io_count r = (\<Sum>m\<leftarrow>run_meters run. m_count m) \<and>
         r_io_bytes r = (\<Sum>m\<leftarrow>run_meters run. m_count m) * o_blk_sz opt))"
proof -
  have ready: "io_ready env opt'" "io_option_invar env opt'" "o_nr_files opt = int (length paths)"
    using io_parse_args_result [OF assms(1)] assms(6,11,16)
    by (auto simp: io_ready_def io_option_invar_def io_files_ok_def io_open_mode_def)
  have room: "\<forall>path \<in> set paths. io_share_room opt' (mb_getsize env path)"
    using assms(15) by (simp add: assms(16) io_share_room_flags)
  have thread: "\<exists>m lg' w'. reader_run K opt' paths sd now (fds i) (es i) i m \<and>
      thread_handler K opt' (ite_alloc (es i)) (ite_garbage (es i)) (ite_buf (es i)) (int i)
        sd (ite_tid (es i)) (ite_grand (es i)) (ite_log (es i)) (ite_world (es i)) = Some (Inr (m, lg', w'))"
    if "int i < o_multi opt" for i
    by (rule reader_thread [OF ready(1,2) _ _ _ _ _ _ _ assms(13) room _ assms(17) [OF that]
          assms(18) [OF that] assms(19) assms(20) [OF that]])
      (use assms(4-11,21) that in \<open>simp_all add: assms(16)\<close>)
  obtain ms where ms: "io_each K es opt' sd 0 (nat (o_multi opt)) = Some (Inr ms)"
    "length ms = nat (o_multi opt)"
    "\<forall>j < nat (o_multi opt). reader_run K opt' paths sd now (fds j) (es j) j (ms ! j)"
    using io_each_readers [of 0 "nat (o_multi opt)", OF thread] by fastforce
  obtain tv w1 where tv: "k_gettimeofday K w = (tv, w1)" by fastforce
  obtain run where run: "io_run_threads K es w opt' sd = Some (Inr run)" "run_meters run = ms"
    using ms(1) by (simp add: io_run_threads_def tv assms(16))
  have "\<forall>m \<in> set (run_meters run). 0 \<le> m_count m"
    using ms(2,3) by (auto simp: run(2) in_set_conv_nth reader_run_def)
  moreover have "io_affinities_ok opt" using assms(5) by (simp add: io_affinities_ok_def)
  ultimately show ?thesis
    using io_main_report [where threads = "io_run_threads K es w" and sd = sd,
        OF assms(1-3) run(1) [unfolded assms(16)] assms(11) ready(3) assms(12,14), of junk]
      run ms(2,3) assms(9) by (auto simp: assms(16))
qed

text \<open>
  If no thread completes a request, the program still ends normally, but the response time
  it reports is not a number: the report contains \<open>-nan\<close>, which is no JSON value.
\<close>

theorem io_main_idle_nan:
  assumes "\<forall>m \<in> set (run_meters run). m_count m = 0 \<and> m_iowait_time m = Fin 0"
  shows "\<exists>r. io_aggregate opt run = Inr r \<and> r_response_time r = NaN \<and>
    (''response_time_msec'', fmt_lf (d_mul (r_response_time r) (Fin 1000))) =
      (''response_time_msec'', ''-nan'')"
  using io_sums_idle [OF assms]
  by (simp add: io_aggregate_def in_long_def d_of_int_def rnd_rat_0 fmt_lf_def)

definition demo_run :: io_run where
  "demo_run = \<lparr>run_start_tv = zero_timeval, run_exec_time = Fin 5,
     run_meters = [\<lparr>m_iowait_time = Fin 1, m_count = 300\<rparr>, \<lparr>m_iowait_time = Fin 1, m_count = 200\<rparr>]\<rparr>"

lemma demo_option_sel:
  "\<not> o_noop demo_option" "o_json demo_option" "o_file_path_list demo_option = Some [''f'']"
  "o_nr_files demo_option = int (length [''f''])" "io_affinities_ok demo_option"
  "o_blk_sz demo_option = 512"
  by (simp_all add: demo_option_def io_affinities_ok_def)

lemma demo_run_sum: "(\<Sum>m\<leftarrow>run_meters demo_run. m_count m) = 500"
  "\<forall>m \<in> set (run_meters demo_run). 0 \<le> m_count m"
  by (simp_all add: demo_run_def)

theorem io_main_reports_counts_witness:
  "\<exists>r. micbench_io_main True demo_env (\<lambda>i. CHR ''x'') (Some 7) (\<lambda>opt sd. Some (Inr demo_run))
      (''micbench-io'' # io_argv demo_option [''f'']) demo_option =
      Some (Inr (json_params (demo_option\<lparr>o_open_flags := io_open_flags demo_option\<rparr>)
        (''['' @ files_text [''f''] @ '']'') @
        '','' @ newline @ json_results r @ newline @ ''}'' @ newline)) \<and>
    r_io_count r = 500 \<and> r_io_bytes r = 500 * 512"
  by (rule io_main_reports_counts [OF demo_option_parsed demo_option_sel(1,2) refl
        demo_option_sel(3,4) _ _ demo_option_sel(5) demo_run_sum(2), unfolded demo_run_sum(1) demo_option_sel(6)])
    (simp_all add: path_ok_def nul_def files_text_def quoted_def dquote_def)

theorem io_main_idle_nan_witness:
  "\<exists>r. io_aggregate demo_option (demo_run\<lparr>run_meters := [\<lparr>m_iowait_time = Fin 0, m_count = 0\<rparr>]\<rparr>) = Inr r \<and>
    r_response_time r = NaN"
  using io_main_idle_nan [of "demo_run\<lparr>run_meters := [\<lparr>m_iowait_time = Fin 0, m_count = 0\<rparr>]\<rparr>" demo_option]
  by auto

text \<open>A machine with one disk: reading is as in the theory of the synchronous engine.\<close>

definition demo_thr :: "8 word list \<Rightarrow> (nat \<times> int) thr_kernel" where
  "demo_thr bytes =
     \<lparr>k_read = k_read (demo_disk bytes), k_write = k_write (demo_disk bytes),
      k_pread64 = k_pread64 (demo_disk bytes), k_pwrite64 = k_pwrite64 (demo_disk bytes),
      k_lseek64 = k_lseek64 (demo_disk bytes), k_gettimeofday = k_gettimeofday (demo_disk bytes),
      k_usleep = k_usleep (demo_disk bytes),
      a_io_setup = \<lambda>n w. (0, w), a_io_destroy = \<lambda>w. w, a_io_submit = \<lambda>cbs w. (0, w),
      a_io_getevents = \<lambda>mn nr w. None, a_uring_queue_init = \<lambda>n w. (0, w),
      a_uring_register_buffers = \<lambda>vecs w. (0, w), a_uring_queue_exit = \<lambda>w. w,
      a_uring_prep = \<lambda>a io idx w. (False, w), a_uring_submit = \<lambda>w. (0, w),
      a_uring_wait_cqe = \<lambda>w. None, e_uring_register_files = \<lambda>fds w. (0, w),
      t_open = \<lambda>path flags w. (3, w), t_close = \<lambda>fd w. (0, w),
      t_sched_setaffinity = \<lambda>th_tid mask w. w\<rparr>"

lemma demo_thr_disk: "sync_disk (demo_thr (replicate 65536 0)) [3] (\<lambda>fd. replicate 65536 0)
    (\<lambda>fd. fst) (\<lambda>w. snd (w :: nat \<times> int))"
  using demo_disk_ok by (simp add: sync_disk_def reads_file_def demo_thr_def)

definition demo_pair :: micbench_io_option where
  "demo_pair = demo_sync\<lparr>o_multi := 2\<rparr>"

lemma demo_pair_sel:
  "\<not> o_noop demo_pair" "o_json demo_pair" "\<not> o_aio demo_pair" "o_multi demo_pair = 2"
  "o_affinities demo_pair = None" "o_logfile_path demo_pair = None" "o_pattern demo_pair = PATTERN_SEQ"
  "o_read demo_pair" "0 < o_blk_sz demo_pair" "o_misalign demo_pair = 0"
  "o_file_path_list demo_pair = Some [''f'']" "o_blk_sz demo_pair = 512"
  "o_ofst_start demo_pair = 0" "o_ofst_end demo_pair = 128"
  by (simp_all add: demo_pair_def demo_sync_def demo_seq_def demo_option_def)

lemma demo_pair_parsed:
  "io_parse_args demo_env (''micbench-io'' # io_argv demo_pair [''f'']) demo_option = Inr (0, demo_pair)"
  by (rule io_parse_argv)
    (use demo_sync_ready demo_sync_invar in \<open>simp_all add: demo_pair_def demo_sync_def demo_seq_def
      demo_option_def io_ready_def io_files_ok_def io_open_mode_def io_option_invar_def in_int_def
      in_long_def\<close>)

definition demo_readers :: "nat \<Rightarrow> (nat \<times> int) io_thread_env" where
  "demo_readers i = \<lparr>ite_world = (0, 1000 + int i), ite_alloc = Suc, ite_garbage = NaN,
     ite_buf = replicate 512 0, ite_tid = 4711 + int i, ite_grand = 0,
     ite_log = \<lparr>lg_count = 0, lg_start_usec = 0, lg_lines = []\<rparr>\<rparr>"

theorem io_main_readers_witness:
  "\<exists>run. io_run_threads (demo_thr (replicate 65536 0)) demo_readers (0, 1000)
      (demo_pair\<lparr>o_open_flags := io_open_flags demo_pair\<rparr>) 7 = Some (Inr run) \<and>
    length (run_meters run) = 2 \<and> 100 dvd m_count (run_meters run ! 1) \<and>
    (2 ^ 63 \<le> (\<Sum>m\<leftarrow>run_meters run. m_count m) * 512 \<or>
      (\<exists>out. micbench_io_main True demo_env (\<lambda>i. CHR ''x'') (Some 7)
         (io_run_threads (demo_thr (replicate 65536 0)) demo_readers (0, 1000))
         (''micbench-io'' # io_argv demo_pair [''f'']) demo_option = Some (Inr out)))"
proof -
  let ?K = "demo_thr (replicate 65536 0)"
  have size: "mb_getsize demo_env ''f'' = 65536" by (simp add: mb_getsize_def demo_env_def)
  have paths: "\<forall>path \<in> set [''f'']. path_ok path" "length [''f''] < 2 ^ 31"
    "length (files_text [''f'']) < 2 ^ 40"
    by (simp_all add: path_ok_def nul_def files_text_def quoted_def dquote_def)
  have room: "\<forall>path \<in> set [''f'']. io_share_room demo_pair (mb_getsize demo_env path)"
    by (simp add: size io_share_room_def io_blocks_def io_ofst_min_def demo_pair_sel)
  have opened: "\<exists>w'. open_files ?K (demo_pair\<lparr>o_open_flags := io_open_flags demo_pair\<rparr>) [''f'']
      (ite_world (demo_readers i)) = Inr ((\<lambda>i. [3]) i, w')" for i by (simp add: demo_thr_def)
  have closed: "fst (t_close ?K fd w) \<noteq> -1" for fd w by (simp add: demo_thr_def)
  have len: "\<forall>j < length [''f'']. int (length ((\<lambda>fd. replicate 65536 (0 :: 8 word)) ((\<lambda>i :: nat. [3 :: int]) i ! j))) =
      mb_getsize demo_env ([''f''] ! j)" for i by (simp add: size)
  have buf: "length (ite_buf (demo_readers i)) = nat (o_blk_sz demo_pair)" for i
    by (simp add: demo_pair_sel demo_readers_def)
  have two: "1 < nat (o_multi demo_pair)" "nat (o_multi demo_pair) = 2" by (simp_all add: demo_pair_sel)
  note run = io_main_readers [where es = demo_readers and sd = 7 and w = "(0, 1000)" and fds = "\<lambda>i. [3]" and
      junk = "\<lambda>i. CHR ''x''", OF demo_pair_parsed demo_pair_sel(1-3,5-11) paths room refl opened
      demo_thr_disk closed len buf]
  show ?thesis
    using run two demo_pair_sel(12) unfolding reader_run_def by (metis not_le)
qed

end
