(* ===== verification/Spec2Isabelle.thy ===== *)
theory Spec2Isabelle
  imports BtMain ProtoBench MemMain IoMain
begin

section \<open>micbench\<close>

text \<open>
  micbench is a set of micro-benchmarks written in C (src/src): \<open>micbench-io\<close> for storage,
  \<open>micbench-mem\<close> for memory, \<open>micbench-lock\<close> and its prototype \<open>micbench-proto\<close> for locks, and
  \<open>micbench-btreplay\<close>, which replays a trace of a block device. A Ruby driver starts them. Each
  program parses its options, starts threads that run a timed or counted loop, and prints a
  summary of what the threads counted. This development models the C programs as functions and
  step relations and proves what makes the results of a benchmark meaningful: that it makes the
  requests it claims to make, inside the files and memory it may touch, that it ends, and that
  what it reports is what it did.

  \<^bold>\<open>Conventions.\<close> A C function that can stop returns \<open>'a c_result\<close>: \<open>Inl\<close> the way it stops (exit
  status or undefined behaviour), \<open>Inr\<close> its value. A loop that need not end is a
  \<open>partial_function (option)\<close>, where \<open>None\<close> means that it never returns; a property that says that
  it returns says that the result is \<open>Some\<close>. There is no fuel. Integers have the width they have on
  x86-64 Linux: unsigned ones are words, signed ones are \<open>int\<close> with the conversions \<open>to_int\<close> and
  \<open>to_long\<close> and with overflow as undefined behaviour (\<open>long_val\<close>). Doubles are rationals rounded to
  53 bits, with infinities and NaN. System calls are fields of a record that works on an arbitrary
  world; what a property assumes of the kernel is a named predicate (\<open>reads_file\<close>, \<open>writes_file\<close>,
  \<open>sync_disk\<close>, \<open>async_disk\<close>, \<open>mem_clock\<close>, \<open>seeks_file\<close>, \<open>mem_ledger\<close>, \<open>bt_ledger\<close>, \<open>bt_target\<close>)
  with a concrete kernel as its witness.
  Memory that the code links by pointers is an explicit heap.

  \<^bold>\<open>Shared theories.\<close> Prelude: stops, C integers, generic lemmas and the collections of rewrite
  rules. CString: \<open>strtol\<close>, \<open>strchr\<close>, printing of numbers, \<open>getopt\<close>. CDouble and CFormat: IEEE
  arithmetic and \<open>printf\<close>. Rand48: \<open>drand48_r\<close> and the functions \<open>mb_rand_*\<close> of micbench-utils.c,
  with the bounds of what they draw. Affinity: \<open>mb_parse_affinity\<close>, \<open>mb_affinity_to_string\<close> and
  the handler of the option \<open>-a\<close>; parsing and printing agree. IoUtil: \<open>mb_readall\<close> and its
  relatives, \<open>mb_getsize\<close> and the clocks; what is transferred, and when the loops return.

  \<^bold>\<open>micbench-io\<close> (micbench-io.c, micbench-io.h), in the order of the calls.
  IoOption: \<open>parse_args\<close>; every accepted command line gives options that are ready for a run, every
  refused one releases its arrays, and options that are printed (without affinities and mixed mode)
  are read back.
  ResPool: the ring of free control blocks; push and pop refine a bounded queue (locale \<open>queue\<close>), and
  destroying frees every cell once.
  Aiom: the manager of asynchronous requests on top of the pool, for libaio and io_uring; its
  operations are a step relation, and in every reachable state each control block is in exactly one
  place.
  IoPattern: which request comes next; the sequential pattern equals its reference definition, all
  patterns stay in their range, and the sequential one stays in the file exactly if the range and the
  misalignment do, which the option parser does not check. IoLog: the log of requests.
  IoSync and IoAsync: \<open>do_sync_io\<close> and \<open>do_async_io\<close>; the runs end, count what they did and lose
  no request. The asynchronous engine is proved for every source of requests in the locale
  \<open>io_source\<close>, which is interpreted on the sequential and the random pattern.
  IoReport and IoMain: the JSON report with its growing buffer, the threads and
  \<open>micbench_io_main\<close>; the report shows the sums of what the threads counted, and with any number of
  sequentially reading threads the whole program ends and reports what the engines did.

  \<^bold>\<open>micbench-mem\<close> (micbench-mem.c). MemLoop: the loop of pointers that the random mode builds; for
  every seed it is one cycle through all cache lines. MemBench: options, mapping, the timed loops,
  the thread and the summary; accepted options are well typed. MemMain: the threads, the release of
  areas and descriptors and \<open>main\<close>; the sequential run of any number of threads counts what it
  executes, and every run gives back what it mapped and opened. The inner loops are assembler text that the build generates, so their number of operations and the size of their
  region are parameters.

  \<^bold>\<open>micbench-lock\<close> and \<^bold>\<open>micbench-proto\<close> (micbench-lock.c, micbench-proto.c). Sched: threads
  under any schedule and when fair schedules bring them to their end (locale \<open>fair_system\<close>); setting
  the affinity and waiting at the barrier are wrappers that turn such a system into another.
  LockClient: the contract of a lock (locale \<open>lock_contract\<close>) and of a job that uses it (locale
  \<open>lock_client\<close>), with mutual exclusion; such threads are a fair system. LockBench and ProtoBench:
  options, jobs, thread handlers and main programs; both jobs are clients by \<open>sublocale\<close>, and the
  contract is interpreted on the spin lock and the mutex. The programs end under fair schedules,
  jobs exclude each other, and nobody starts its job before all have arrived at the barrier.

  \<^bold>\<open>micbench-btreplay\<close> (micbench-btreplay.c, blktrace_api.h). BlkTrace: the trace record as bytes and
  the reader of a dump, inverse to writing one. BtReplay: options, the work of a thread on one
  request, where saving the seek for contiguous requests changes nothing, and the monitor thread as a
  function of what it finds. BtMain: the program from its start, with the creation of the
  threads, their \<open>open\<close>, the \<open>fopen\<close>, reading and \<open>fclose\<close> of the dump, the queue and the joins as steps of
  the main thread and the consumers in any order; on a target that holds the requests every trace is
  served exactly once and the main thread comes to its end, and at every moment the open descriptors are accounted for.

  \<^bold>\<open>Bounds.\<close> The only bounds in the statements are those of the code: file sizes and offsets in 64
  bits, at most \<open>2^53\<close> blocks or cache lines for a random draw (the precision of a double), fewer than
  \<open>2^31\<close> files (an \<open>int\<close> counter), payloads of at most 1024 bytes (the array of the reader).

  \<^bold>\<open>Threads.\<close> In \<open>micbench-lock\<close>, \<open>micbench-proto\<close> and \<open>micbench-btreplay\<close> the threads share state and
  interleave step by step. In \<open>micbench-io\<close> and \<open>micbench-mem\<close> a thread works on its own
  descriptors and counters and depends on the others only through the answers of the kernel, so each
  thread has a world of its own (\<open>io_run_threads\<close>, \<open>mem_run_threads\<close>). Where their threads do share
  state this is not the run of the program: random mode without \<open>-L\<close> in \<open>micbench-mem\<close> is a data
  race and so undefined, and \<open>micbench-io\<close> with a log or a read/write mix takes what the threads leave
  as a parameter of the main program.

  \<^bold>\<open>Not modelled.\<close> The interleaving of threads of \<open>micbench-io\<close> that write one log or draw from the
  process-wide generator. Messages on the error stream but those of the monitor; freeing of heap memory
  at the end of the programs and the close of descriptors that micbench-lock.c and micbench-proto.c
  never set; the effect of \<open>sched_setaffinity\<close> on the scheduler; the two files that only call a main
  program; the buffer of \<open>do_sync_io\<close>, which is an argument, and what follows if it cannot be allocated; the lines
  \<open>mb_aiom_submit\<close> and \<open>mb_aiom_wait\<close> write to the file of \<open>-T\<close>; declarations of blktrace_api.h that the programs do not use; the Ruby scripts, the tests and
  the build.
\<close>

end
